(* ===== verification/Prelude.thy ===== *)
theory Prelude
  imports Main "HOL-Library.Word" "HOL-Library.Monad_Syntax" "HOL-Library.AList"
begin

unbundle bit_operations_syntax

text \<open>
  Shared vocabulary of the NaiveFS development: the machine types, memory as functions
  from indices to values, the option monad in which \<^term>\<open>None\<close> means that the
  program has no defined continuation (a failed assertion, a null or dangling pointer, an
  access outside a buffer), the little-endian views the code takes of a byte buffer by
  casting pointers, and \<open>std::map\<close> as an association list kept in key order.
\<close>

section \<open>Machine types\<close>

type_synonym byte = "8 word"
type_synonym u16 = "16 word"
type_synonym u32 = "32 word"

text \<open>A buffer: byte at each index. Bounds are checked by the operations that access it.\<close>

type_synonym bytes = "nat \<Rightarrow> byte"

text \<open>Address of an object on the C++ heap.\<close>

type_synonym addr = nat

named_theorems monad_simps \<open>unfolding of the option monad\<close>
named_theorems buf_simps \<open>reads over writes in byte buffers\<close>

section \<open>Assertions and failures\<close>

text \<open>
  The macro \<open>ASSERT\<close> of \<open>utils/logging.h\<close>: in the default build a false condition aborts
  the process, and under \<open>NDEBUG\<close> (the release build) the macro is empty.
\<close>

definition ASSERT :: "bool \<Rightarrow> bool \<Rightarrow> unit option" where
  "ASSERT ndebug c = (if ndebug \<or> c then Some () else None)"

text \<open>A condition without which the C++ program has undefined behaviour.\<close>

definition defined_if :: "bool \<Rightarrow> unit option" where
  "defined_if c = (if c then Some () else None)"

lemma ASSERT_simps [simp, monad_simps]:
  "ASSERT nd True = Some ()"
  "ASSERT True c = Some ()"
  "ASSERT False False = None"
  by (simp_all add: ASSERT_def)

lemma ASSERT_eq_Some [simp, monad_simps]: "ASSERT nd c = Some u \<longleftrightarrow> nd \<or> c"
  by (simp add: ASSERT_def)

lemma defined_if_simps [simp, monad_simps]:
  "defined_if True = Some ()"
  "defined_if False = None"
  by (simp_all add: defined_if_def)

lemma defined_if_eq_Some [simp, monad_simps]: "defined_if c = Some u \<longleftrightarrow> c"
  by (simp add: defined_if_def)

lemma bind_eq_SomeE:
  assumes "Option.bind m f = Some r"
  obtains a where "m = Some a" "f a = Some r"
  using assms by (auto simp: bind_eq_Some_conv)

section \<open>Arithmetic\<close>

lemma div_mod_eqD: "(i::nat) div n = j div n \<Longrightarrow> i mod n = j mod n \<Longrightarrow> i = j"
  by (metis div_mult_mod_eq)

lemma and_mask_nat: "(i::nat) AND mask n = i mod 2 ^ n"
  by (simp flip: take_bit_eq_mask add: take_bit_eq_mod)

section \<open>Byte buffers\<close>

text \<open>\<open>memcpy\<close> out of and into a buffer.\<close>

definition get_bytes :: "bytes \<Rightarrow> nat \<Rightarrow> nat \<Rightarrow> byte list" where
  "get_bytes d off n = map (\<lambda>i. d (off + i)) [0..<n]"

definition put_bytes :: "bytes \<Rightarrow> nat \<Rightarrow> byte list \<Rightarrow> bytes" where
  "put_bytes d off bs = (\<lambda>i. if off \<le> i \<and> i < off + length bs then bs ! (i - off) else d i)"

text \<open>The bytes of a buffer of \<open>n\<close> bytes, zero outside it.\<close>

definition clip :: "nat \<Rightarrow> bytes \<Rightarrow> bytes" where
  "clip n d = (\<lambda>i. if i < n then d i else 0)"

text \<open>Little-endian views, as the casts to \<open>uint16_t*\<close> and \<open>uint32_t*\<close> give on the target.\<close>

definition le16 :: "u16 \<Rightarrow> byte list" where
  "le16 w = [ucast w, ucast (drop_bit 8 w)]"

definition le32 :: "u32 \<Rightarrow> byte list" where
  "le32 w = [ucast w, ucast (drop_bit 8 w), ucast (drop_bit 16 w), ucast (drop_bit 24 w)]"

definition get_u16 :: "bytes \<Rightarrow> nat \<Rightarrow> u16" where
  "get_u16 d off = ucast (d off) OR push_bit 8 (ucast (d (off + 1)))"

definition get_u32 :: "bytes \<Rightarrow> nat \<Rightarrow> u32" where
  "get_u32 d off = ucast (d off) OR push_bit 8 (ucast (d (off + 1)))
     OR push_bit 16 (ucast (d (off + 2))) OR push_bit 24 (ucast (d (off + 3)))"

definition put_u16 :: "bytes \<Rightarrow> nat \<Rightarrow> u16 \<Rightarrow> bytes" where
  "put_u16 d off w = put_bytes d off (le16 w)"

definition put_u32 :: "bytes \<Rightarrow> nat \<Rightarrow> u32 \<Rightarrow> bytes" where
  "put_u32 d off w = put_bytes d off (le32 w)"

lemma length_get_bytes [simp]: "length (get_bytes d off n) = n"
  by (simp add: get_bytes_def)

lemma nth_get_bytes [simp]: "i < n \<Longrightarrow> get_bytes d off n ! i = d (off + i)"
  by (simp add: get_bytes_def)

lemma get_bytes_0 [simp]: "get_bytes d off 0 = []"
  by (simp add: get_bytes_def)

lemma put_bytes_Nil [simp]: "put_bytes d off [] = d"
  by (rule ext) (auto simp: put_bytes_def)

lemma put_bytes_outside [buf_simps]:
  "i < off \<or> off + length bs \<le> i \<Longrightarrow> put_bytes d off bs i = d i"
  by (auto simp: put_bytes_def)

lemma put_bytes_inside [buf_simps]:
  "off \<le> i \<Longrightarrow> i < off + length bs \<Longrightarrow> put_bytes d off bs i = bs ! (i - off)"
  by (auto simp: put_bytes_def)

lemma get_put_bytes [simp]: "get_bytes (put_bytes d off bs) off (length bs) = bs"
  by (rule nth_equalityI) (simp_all add: put_bytes_def)

lemma get_put_bytes_outside [buf_simps]:
  "off + n \<le> off' \<or> off' + length bs \<le> off \<Longrightarrow>
   get_bytes (put_bytes d off' bs) off n = get_bytes d off n"
  by (rule nth_equalityI) (auto simp: put_bytes_def)

lemma clip_inside [simp]: "i < n \<Longrightarrow> clip n d i = d i"
  by (simp add: clip_def)

lemma clip_clip [simp]: "clip n (clip n d) = clip n d"
  by (auto simp: clip_def)

lemma length_le16 [simp]: "length (le16 w) = 2"
  by (simp add: le16_def)

lemma length_le32 [simp]: "length (le32 w) = 4"
  by (simp add: le32_def)

lemma get_put_u32 [simp]: "get_u32 (put_u32 d off w) off = w"
proof (rule bit_word_eqI)
  fix n assume n: "n < LENGTH(32)"
  consider "n < 8" | "8 \<le> n" "n < 16" | "16 \<le> n" "n < 24" | "24 \<le> n" "n < 32"
    using n by fastforce
  then show "bit (get_u32 (put_u32 d off w) off) n = bit w n"
    by cases (auto simp: get_u32_def put_u32_def put_bytes_def le32_def bit_simps)
qed

lemma get_put_u16 [simp]: "get_u16 (put_u16 d off w) off = w"
proof (rule bit_word_eqI)
  fix n assume n: "n < LENGTH(16)"
  consider "n < 8" | "8 \<le> n" "n < 16"
    using n by fastforce
  then show "bit (get_u16 (put_u16 d off w) off) n = bit w n"
    by cases (auto simp: get_u16_def put_u16_def put_bytes_def le16_def bit_simps)
qed

lemma get_u32_cong:
  assumes "\<And>i. off \<le> i \<Longrightarrow> i < off + 4 \<Longrightarrow> d i = d' i"
  shows "get_u32 d off = get_u32 d' off"
  by (simp add: get_u32_def assms)

lemma get_put_u32_other [buf_simps]:
  "off + 4 \<le> off' \<or> off' + 4 \<le> off \<Longrightarrow> get_u32 (put_u32 d off' w) off = get_u32 d off"
  by (rule get_u32_cong) (auto simp: put_u32_def put_bytes_outside)

lemma get_u16_cong:
  assumes "\<And>i. off \<le> i \<Longrightarrow> i < off + 2 \<Longrightarrow> d i = d' i"
  shows "get_u16 d off = get_u16 d' off"
  by (simp add: get_u16_def assms)

lemma put_u32_outside [buf_simps]: "i < off \<or> off + 4 \<le> i \<Longrightarrow> put_u32 d off w i = d i"
  by (simp add: put_u32_def put_bytes_outside)

lemma put_u16_outside [buf_simps]: "i < off \<or> off + 2 \<le> i \<Longrightarrow> put_u16 d off w i = d i"
  by (simp add: put_u16_def put_bytes_outside)

lemma get_put_mixed [buf_simps]:
  "off + 4 \<le> off' \<or> off' + 2 \<le> off \<Longrightarrow> get_u32 (put_u16 d off' v) off = get_u32 d off"
  "off + 2 \<le> off' \<or> off' + 4 \<le> off \<Longrightarrow> get_u16 (put_u32 d off' w) off = get_u16 d off"
  "off + 2 \<le> off' \<or> off' + 2 \<le> off \<Longrightarrow> get_u16 (put_u16 d off' v) off = get_u16 d off"
  by (rule get_u32_cong get_u16_cong; auto simp: put_u16_outside put_u32_outside)+

section \<open>Records and arrays of records in a buffer\<close>

text \<open>
  \<open>sz\<close> is the size of a record, \<open>put d off x\<close> stores it at an offset and \<open>get d off\<close> reads it.
  \<open>array_bytes sz put f\<close> is the buffer that holds record \<open>f k\<close> at offset \<open>k * sz\<close>.
\<close>

definition array_bytes :: "nat \<Rightarrow> (bytes \<Rightarrow> nat \<Rightarrow> 'a \<Rightarrow> bytes) \<Rightarrow> (nat \<Rightarrow> 'a) \<Rightarrow> bytes" where
  "array_bytes sz put f = (\<lambda>i. put (\<lambda>_. 0) 0 (f (i div sz)) (i mod sz))"

locale codec =
  fixes sz :: nat
    and put :: "bytes \<Rightarrow> nat \<Rightarrow> 'a \<Rightarrow> bytes"
    and get :: "bytes \<Rightarrow> nat \<Rightarrow> 'a"
    and wf :: "'a \<Rightarrow> bool"
  assumes sz_pos: "0 < sz"
    and get_put: "wf x \<Longrightarrow> get (put d off x) off = x"
    and put_outside: "i < off \<or> off + sz \<le> i \<Longrightarrow> put d off x i = d i"
    and get_local: "(\<And>i. i < sz \<Longrightarrow> d (off + i) = d' (off' + i)) \<Longrightarrow> get d off = get d' off'"
begin

lemma get_put_other:
  assumes "off + sz \<le> off' \<or> off' + sz \<le> off"
  shows "get (put d off' x) off = get d off"
  using assms by (intro get_local) (auto simp: put_outside)

lemma get_array_bytes:
  assumes "wf (f k)"
  shows "get (array_bytes sz put f) (k * sz) = f k"
proof -
  have "get (array_bytes sz put f) (k * sz) = get (put (\<lambda>_. 0) 0 (f k)) 0"
    by (rule get_local) (simp add: array_bytes_def div_add1_eq)
  with assms show ?thesis by (simp add: get_put)
qed

text \<open>Reading the array back through a clipped buffer that begins at some base offset.\<close>

lemma get_array_shifted:
  assumes "wf (f k)" "\<And>i. i < n * sz \<Longrightarrow> d (base + i) = array_bytes sz put f i" "k < n"
  shows "get d (base + k * sz) = f k"
proof -
  have "get d (base + k * sz) = get (array_bytes sz put f) (k * sz)"
  proof (rule get_local)
    fix i assume "i < sz"
    then have "k * sz + i < Suc k * sz" by simp
    also have "\<dots> \<le> n * sz" using assms(3) by (intro mult_le_mono1) simp
    finally show "d (base + k * sz + i) = array_bytes sz put f (k * sz + i)"
      using assms(2) [of "k * sz + i"] by (simp add: add.assoc)
  qed
  with assms(1) show ?thesis by (simp add: get_array_bytes)
qed

end

lemma get_u32_local:
  assumes "\<And>i. i < 4 \<Longrightarrow> d (off + i) = d' (off' + i)"
  shows "get_u32 d off = get_u32 d' off'"
  using assms [of 0] assms [of 1] assms [of 2] assms [of 3] by (simp add: get_u32_def)

lemma get_u16_local:
  assumes "\<And>i. i < 2 \<Longrightarrow> d (off + i) = d' (off' + i)"
  shows "get_u16 d off = get_u16 d' off'"
  using assms [of 0] assms [of 1] by (simp add: get_u16_def)

interpretation u32c: codec 4 put_u32 get_u32 "\<lambda>_. True"
  by unfold_locales (auto simp: put_u32_outside intro: get_u32_local)

interpretation u16c: codec 2 put_u16 get_u16 "\<lambda>_. True"
  by unfold_locales (auto simp: put_u16_outside intro: get_u16_local)

text \<open>An array of \<open>n\<close> records embedded in a buffer at an offset.\<close>

definition put_array ::
  "nat \<Rightarrow> (bytes \<Rightarrow> nat \<Rightarrow> 'a \<Rightarrow> bytes) \<Rightarrow> nat \<Rightarrow> bytes \<Rightarrow> nat \<Rightarrow> (nat \<Rightarrow> 'a) \<Rightarrow> bytes" where
  "put_array sz put n d off f =
     (\<lambda>i. if off \<le> i \<and> i < off + n * sz then array_bytes sz put f (i - off) else d i)"

lemma put_array_outside [buf_simps]:
  "i < off \<or> off + n * sz \<le> i \<Longrightarrow> put_array sz put n d off f i = d i"
  by (auto simp: put_array_def)

context codec
begin

lemma get_put_array: "wf (f k) \<Longrightarrow> k < n \<Longrightarrow> get (put_array sz put n d off f) (off + k * sz) = f k"
  by (rule get_array_shifted [where n = n]) (auto simp: put_array_def)

end

lemma get_u32_put_array_other [buf_simps]:
  "off + 4 \<le> off' \<or> off' + n * sz \<le> off \<Longrightarrow> get_u32 (put_array sz put n d off' f) off = get_u32 d off"
  by (rule get_u32_cong) (auto simp: put_array_def)

lemma get_u16_put_array_other [buf_simps]:
  "off + 2 \<le> off' \<or> off' + n * sz \<le> off \<Longrightarrow> get_u16 (put_array sz put n d off' f) off = get_u16 d off"
  by (rule get_u16_cong) (auto simp: put_array_def)

section \<open>Ordered maps\<close>

text \<open>
  \<open>std::map\<close> as an association list in key order, so that iterating over the list visits the
  entries as the range-for loops of the code do. Lookup is \<^const>\<open>map_of\<close>.
\<close>

fun omap_put :: "'k::linorder \<Rightarrow> 'v \<Rightarrow> ('k \<times> 'v) list \<Rightarrow> ('k \<times> 'v) list" where
  "omap_put k v [] = [(k, v)]"
| "omap_put k v ((k', v') # m) =
     (if k < k' then (k, v) # (k', v') # m
      else if k = k' then (k, v) # m
      else (k', v') # omap_put k v m)"

definition omap_ok :: "('k::linorder \<times> 'v) list \<Rightarrow> bool" where
  "omap_ok m \<longleftrightarrow> sorted_wrt (<) (map fst m)"

lemma map_of_omap_put [simp]: "map_of (omap_put k v m) = (map_of m)(k \<mapsto> v)"
  by (induction m rule: omap_put.induct) auto

lemma keys_omap_put: "fst ` set (omap_put k v m) = insert k (fst ` set m)"
  by (simp flip: dom_map_of_conv_image_fst)

lemma omap_ok_put: "omap_ok m \<Longrightarrow> omap_ok (omap_put k v m)"
proof (induction m)
  case (Cons x m)
  obtain k' v' where x: "x = (k', v')" by force
  from Cons.prems have m: "omap_ok m" "\<forall>y \<in> fst ` set m. k' < y"
    by (auto simp: omap_ok_def x)
  with Cons.IH keys_omap_put [of k v m] show ?case
    by (auto simp: omap_ok_def x)
qed (simp add: omap_ok_def)

lemma omap_ok_distinct: "omap_ok m \<Longrightarrow> distinct (map fst m)"
  by (auto simp: omap_ok_def strict_sorted_iff)

lemma omap_ok_Nil [simp]: "omap_ok []"
  by (simp add: omap_ok_def)

section \<open>Sequences of operations\<close>

text \<open>Operations one after the other, with the list of their results.\<close>

fun run_ops :: "('o \<Rightarrow> 's \<Rightarrow> ('r \<times> 's) option) \<Rightarrow> 'o list \<Rightarrow> 's \<Rightarrow> ('r list \<times> 's) option" where
  "run_ops step [] s = Some ([], s)"
| "run_ops step (c # cs) s = do { (r, s) \<leftarrow> step c s; (rs, s) \<leftarrow> run_ops step cs s; Some (r # rs, s) }"

end
