(* ===== verification/Common.thy ===== *)
theory Common
  imports Prelude
begin

text \<open>
  \<open>include/common.h\<close> and the size macros of \<open>include/block.h\<close>: the geometry of the file
  system, the return codes of the \<open>FileSystem\<close> class and their translation to errno values.
\<close>

section \<open>Configuration\<close>

definition BLOCK_SIZE :: nat where [simp]: "BLOCK_SIZE = 4096"
definition LOG_BLOCK_SIZE :: nat where [simp]: "LOG_BLOCK_SIZE = 2"
definition BLOCKS_PER_GROUP :: nat where [simp]: "BLOCKS_PER_GROUP = BLOCK_SIZE * 8"
definition INODES_PER_GROUP :: nat where [simp]: "INODES_PER_GROUP = BLOCK_SIZE * 8"

text \<open>Sizes of the on-disk structures of \<open>include/ext2\<close>.\<close>

definition sizeof_inode :: nat where [simp]: "sizeof_inode = 128"
definition sizeof_super_block :: nat where [simp]: "sizeof_super_block = 1024"
definition sizeof_group_desc :: nat where [simp]: "sizeof_group_desc = 32"
definition sizeof_dir_entry :: nat where [simp]: "sizeof_dir_entry = 8"

definition INODES_PER_BLOCK :: nat where [simp]: "INODES_PER_BLOCK = BLOCK_SIZE div sizeof_inode"
definition NUM_INODE_TABLE_BLOCKS :: nat where
  [simp]: "NUM_INODE_TABLE_BLOCKS = INODES_PER_GROUP div INODES_PER_BLOCK"
definition TOTAL_BLOCKS_PER_GROUP :: nat where
  [simp]: "TOTAL_BLOCKS_PER_GROUP = BLOCKS_PER_GROUP + NUM_INODE_TABLE_BLOCKS + 2"
definition MAX_BLOCK_GROUP_SIZE :: nat where
  [simp]: "MAX_BLOCK_GROUP_SIZE = TOTAL_BLOCKS_PER_GROUP * BLOCK_SIZE"

definition ROOT_INODE :: u32 where [simp]: "ROOT_INODE = 0"
definition BLOCK_CACHE_SIZE :: nat where [simp]: "BLOCK_CACHE_SIZE = 1024"

text \<open>File system state kept in \<open>s_state\<close>.\<close>

definition UNINIT :: u16 where [simp]: "UNINIT = 0"
definition NORMAL :: u16 where [simp]: "NORMAL = 1"

text \<open>Block pointers of an inode: direct, indirect, double and triple indirect.\<close>

definition EXT2_NDIR_BLOCKS :: nat where [simp]: "EXT2_NDIR_BLOCKS = 12"
definition EXT2_IND_BLOCK :: nat where [simp]: "EXT2_IND_BLOCK = EXT2_NDIR_BLOCKS"
definition EXT2_DIND_BLOCK :: nat where [simp]: "EXT2_DIND_BLOCK = EXT2_IND_BLOCK + 1"
definition EXT2_TIND_BLOCK :: nat where [simp]: "EXT2_TIND_BLOCK = EXT2_DIND_BLOCK + 1"
definition EXT2_N_BLOCKS :: nat where [simp]: "EXT2_N_BLOCKS = EXT2_TIND_BLOCK + 1"
definition NUM_INDIRECT_BLOCKS :: nat where [simp]: "NUM_INDIRECT_BLOCKS = BLOCK_SIZE div 4"
definition MAX_DIR_BLOCKS :: nat where [simp]: "MAX_DIR_BLOCKS = EXT2_NDIR_BLOCKS"
definition MAX_IND_BLOCKS :: nat where [simp]: "MAX_IND_BLOCKS = NUM_INDIRECT_BLOCKS"
definition MAX_DIND_BLOCKS :: nat where
  [simp]: "MAX_DIND_BLOCKS = MAX_IND_BLOCKS * NUM_INDIRECT_BLOCKS"
definition MAX_TIND_BLOCKS :: nat where
  [simp]: "MAX_TIND_BLOCKS = MAX_DIND_BLOCKS * NUM_INDIRECT_BLOCKS"

definition EXT2_NAME_LEN :: nat where [simp]: "EXT2_NAME_LEN = 255"

text \<open>File type bits of \<open>i_mode\<close> and the tests \<open>S_ISDIR\<close>, \<open>S_ISREG\<close> of \<open>sys/stat.h\<close>.\<close>

definition EXT2_S_IFLINK :: u16 where "EXT2_S_IFLINK = 0xA000"
definition EXT2_S_IFREG :: u16 where "EXT2_S_IFREG = 0x8000"
definition EXT2_S_IFDIR :: u16 where "EXT2_S_IFDIR = 0x4000"
definition EXT2_S_IRUSR :: u16 where "EXT2_S_IRUSR = 0x0100"
definition EXT2_S_IRGRP :: u16 where "EXT2_S_IRGRP = 0x0020"
definition EXT2_S_IROTH :: u16 where "EXT2_S_IROTH = 0x0004"

definition S_IFMT :: "'a::len word" where "S_IFMT = 0xF000"

definition S_ISDIR :: "'a::len word \<Rightarrow> bool" where
  "S_ISDIR m \<longleftrightarrow> m AND S_IFMT = 0x4000"

definition S_ISREG :: "'a::len word \<Rightarrow> bool" where
  "S_ISREG m \<longleftrightarrow> m AND S_IFMT = 0x8000"

section \<open>Size arithmetic\<close>

text \<open>The macro \<open>ALIGN_TO(n, align)\<close>; \<open>typeof(n)\<close> is any unsigned type.\<close>

definition ALIGN_TO :: "'a::len word \<Rightarrow> 'a word \<Rightarrow> 'a word" where
  "ALIGN_TO n align =
     (if n mod align \<noteq> 0 then (n AND NOT (align - 1)) + align else n)"

definition BLOCKS2BYTES :: "nat \<Rightarrow> nat" where
  "BLOCKS2BYTES blks = blks * BLOCK_SIZE"

definition BYTES2BLOCKS :: "nat \<Rightarrow> nat" where
  "BYTES2BLOCKS bs = bs div BLOCK_SIZE + (if bs mod BLOCK_SIZE \<noteq> 0 then 1 else 0)"

section \<open>Return codes\<close>

datatype RetCode =
  FS_SUCCESS | FS_NOT_FOUND | FS_ALLOC_ERR | FS_DUP_ERR | FS_NULL_ERR | FS_NDIR_ERR
| FS_DIR_ERR | FS_INVALID

definition ENOENT :: int where "ENOENT = 2"
definition EIO :: int where "EIO = 5"
definition EBADF :: int where "EBADF = 9"
definition EACCES :: int where "EACCES = 13"
definition EFAULT :: int where "EFAULT = 14"
definition EEXIST :: int where "EEXIST = 17"
definition ENOTDIR :: int where "ENOTDIR = 20"
definition EISDIR :: int where "EISDIR = 21"
definition EINVAL :: int where "EINVAL = 22"
definition ENOTEMPTY :: int where "ENOTEMPTY = 39"

lemmas errno_defs = ENOENT_def EIO_def EBADF_def EACCES_def EFAULT_def EEXIST_def
  ENOTDIR_def EISDIR_def EINVAL_def ENOTEMPTY_def

fun Code2Errno :: "RetCode \<Rightarrow> int" where
  "Code2Errno FS_NOT_FOUND = - ENOENT"
| "Code2Errno FS_ALLOC_ERR = - EIO"
| "Code2Errno FS_DUP_ERR = - EEXIST"
| "Code2Errno FS_NULL_ERR = - EFAULT"
| "Code2Errno FS_NDIR_ERR = - ENOTDIR"
| "Code2Errno FS_DIR_ERR = - EISDIR"
| "Code2Errno FS_INVALID = - EINVAL"
| "Code2Errno FS_SUCCESS = 0"

section \<open>Facts about the size arithmetic\<close>

lemma ceil_div_bounds:
  fixes m n :: nat
  assumes "0 < n"
  shows "m \<le> (m div n + (if m mod n \<noteq> 0 then 1 else 0)) * n"
    and "(m div n + (if m mod n \<noteq> 0 then 1 else 0)) * n < m + n"
proof -
  define q r where "q = m div n" and "r = m mod n"
  have m: "m = q * n + r" and r: "r < n"
    using assms by (simp_all add: q_def r_def)
  have "m \<le> (q + (if r \<noteq> 0 then 1 else 0)) * n \<and> (q + (if r \<noteq> 0 then 1 else 0)) * n < m + n"
    using r assms unfolding m by (cases "r = 0") (simp_all add: distrib_right)
  then show "m \<le> (m div n + (if m mod n \<noteq> 0 then 1 else 0)) * n"
    and "(m div n + (if m mod n \<noteq> 0 then 1 else 0)) * n < m + n"
    unfolding q_def r_def by blast+
qed

lemma BYTES2BLOCKS_bounds:
  "bs \<le> BLOCKS2BYTES (BYTES2BLOCKS bs)"
  "BLOCKS2BYTES (BYTES2BLOCKS bs) < bs + BLOCK_SIZE"
  using ceil_div_bounds [of BLOCK_SIZE bs] unfolding BLOCKS2BYTES_def BYTES2BLOCKS_def by auto

lemma BYTES2BLOCKS_BLOCKS2BYTES [simp]: "BYTES2BLOCKS (BLOCKS2BYTES n) = n"
  by (simp add: BLOCKS2BYTES_def BYTES2BLOCKS_def)

lemma Code2Errno_eq_0 [simp]: "Code2Errno c = 0 \<longleftrightarrow> c = FS_SUCCESS"
  by (cases c) (simp_all add: errno_defs)

lemma inj_Code2Errno: "inj Code2Errno"
proof (rule injI)
  fix x y assume "Code2Errno x = Code2Errno y"
  then show "x = y" by (cases x; cases y) (simp_all add: errno_defs)
qed

end
