(* ===== verification/Ext2.thy ===== *)
theory Ext2
  imports Common
begin

text \<open>
  The on-disk structures of \<open>include/ext2\<close>: inode, group descriptor and super block as records,
  with the functions that store them in a buffer and read them back. The code gets the same
  effect by casting a pointer into the buffer; the round trips below show that the record view
  and the bytes agree. Fields of the super block that the program never reads or writes stay
  together in \<open>s_rest\<close>.
\<close>

section \<open>Inode\<close>

record ext2_inode =
  i_mode :: u16
  i_uid :: u16
  i_size :: u32
  i_atime :: u32
  i_ctime :: u32
  i_mtime :: u32
  i_dtime :: u32
  i_gid :: u16
  i_links_count :: u16
  i_blocks :: u32
  i_flags :: u32
  i_osd1 :: u32
  i_block :: "nat \<Rightarrow> u32"
  i_generation :: u32
  i_file_acl :: u32
  i_dir_acl :: u32
  i_faddr :: u32
  i_osd2 :: bytes

definition put_inode :: "bytes \<Rightarrow> nat \<Rightarrow> ext2_inode \<Rightarrow> bytes" where
  "put_inode d off x =
     (let d = put_u16 d off (i_mode x);
          d = put_u16 d (off + 2) (i_uid x);
          d = put_u32 d (off + 4) (i_size x);
          d = put_u32 d (off + 8) (i_atime x);
          d = put_u32 d (off + 12) (i_ctime x);
          d = put_u32 d (off + 16) (i_mtime x);
          d = put_u32 d (off + 20) (i_dtime x);
          d = put_u16 d (off + 24) (i_gid x);
          d = put_u16 d (off + 26) (i_links_count x);
          d = put_u32 d (off + 28) (i_blocks x);
          d = put_u32 d (off + 32) (i_flags x);
          d = put_u32 d (off + 36) (i_osd1 x);
          d = put_array 4 put_u32 EXT2_N_BLOCKS d (off + 40) (i_block x);
          d = put_u32 d (off + 100) (i_generation x);
          d = put_u32 d (off + 104) (i_file_acl x);
          d = put_u32 d (off + 108) (i_dir_acl x);
          d = put_u32 d (off + 112) (i_faddr x)
      in put_bytes d (off + 116) (get_bytes (i_osd2 x) 0 12))"

definition get_inode_at :: "bytes \<Rightarrow> nat \<Rightarrow> ext2_inode" where
  "get_inode_at d off =
     \<lparr>i_mode = get_u16 d off, i_uid = get_u16 d (off + 2), i_size = get_u32 d (off + 4),
      i_atime = get_u32 d (off + 8), i_ctime = get_u32 d (off + 12), i_mtime = get_u32 d (off + 16),
      i_dtime = get_u32 d (off + 20), i_gid = get_u16 d (off + 24),
      i_links_count = get_u16 d (off + 26), i_blocks = get_u32 d (off + 28),
      i_flags = get_u32 d (off + 32), i_osd1 = get_u32 d (off + 36),
      i_block = (\<lambda>k. if k < EXT2_N_BLOCKS then get_u32 d (off + 40 + k * 4) else 0),
      i_generation = get_u32 d (off + 100), i_file_acl = get_u32 d (off + 104),
      i_dir_acl = get_u32 d (off + 108), i_faddr = get_u32 d (off + 112),
      i_osd2 = (\<lambda>k. if k < 12 then d (off + 116 + k) else 0)\<rparr>"

text \<open>Arrays of the structure hold nothing past their length.\<close>

definition wf_inode :: "ext2_inode \<Rightarrow> bool" where
  "wf_inode x \<longleftrightarrow> (\<forall>k \<ge> EXT2_N_BLOCKS. i_block x k = 0) \<and> (\<forall>k \<ge> 12. i_osd2 x k = 0)"

section \<open>Group descriptor\<close>

record ext2_group_desc =
  bg_block_bitmap :: u32
  bg_inode_bitmap :: u32
  bg_inode_table :: u32
  bg_free_blocks_count :: u16
  bg_free_inodes_count :: u16
  bg_used_dirs_count :: u16
  bg_pad :: u16
  bg_reserved :: "nat \<Rightarrow> u32"

definition put_desc :: "bytes \<Rightarrow> nat \<Rightarrow> ext2_group_desc \<Rightarrow> bytes" where
  "put_desc d off x =
     (let d = put_u32 d off (bg_block_bitmap x);
          d = put_u32 d (off + 4) (bg_inode_bitmap x);
          d = put_u32 d (off + 8) (bg_inode_table x);
          d = put_u16 d (off + 12) (bg_free_blocks_count x);
          d = put_u16 d (off + 14) (bg_free_inodes_count x);
          d = put_u16 d (off + 16) (bg_used_dirs_count x);
          d = put_u16 d (off + 18) (bg_pad x)
      in put_array 4 put_u32 3 d (off + 20) (bg_reserved x))"

definition get_desc_at :: "bytes \<Rightarrow> nat \<Rightarrow> ext2_group_desc" where
  "get_desc_at d off =
     \<lparr>bg_block_bitmap = get_u32 d off, bg_inode_bitmap = get_u32 d (off + 4),
      bg_inode_table = get_u32 d (off + 8), bg_free_blocks_count = get_u16 d (off + 12),
      bg_free_inodes_count = get_u16 d (off + 14), bg_used_dirs_count = get_u16 d (off + 16),
      bg_pad = get_u16 d (off + 18),
      bg_reserved = (\<lambda>k. if k < 3 then get_u32 d (off + 20 + k * 4) else 0)\<rparr>"

definition wf_desc :: "ext2_group_desc \<Rightarrow> bool" where
  "wf_desc x \<longleftrightarrow> (\<forall>k \<ge> 3. bg_reserved x k = 0)"

section \<open>Super block\<close>

record ext2_super_block =
  s_inodes_count :: u32
  s_blocks_count :: u32
  s_free_blocks_count :: u32
  s_free_inodes_count :: u32
  s_log_block_size :: u32
  s_blocks_per_group :: u32
  s_inodes_per_group :: u32
  s_state :: u16
  s_first_ino :: u32
  s_inode_size :: u16
  s_rest :: bytes

definition put_super :: "bytes \<Rightarrow> nat \<Rightarrow> ext2_super_block \<Rightarrow> bytes" where
  "put_super d off x =
     (let d = put_bytes d off (get_bytes (s_rest x) 0 sizeof_super_block);
          d = put_u32 d off (s_inodes_count x);
          d = put_u32 d (off + 4) (s_blocks_count x);
          d = put_u32 d (off + 12) (s_free_blocks_count x);
          d = put_u32 d (off + 16) (s_free_inodes_count x);
          d = put_u32 d (off + 24) (s_log_block_size x);
          d = put_u32 d (off + 32) (s_blocks_per_group x);
          d = put_u32 d (off + 40) (s_inodes_per_group x);
          d = put_u16 d (off + 58) (s_state x);
          d = put_u32 d (off + 84) (s_first_ino x)
      in put_u16 d (off + 88) (s_inode_size x))"

text \<open>The offsets of the ten fields, and the bytes of the structure that belong to no field.\<close>

definition super_field_byte :: "nat \<Rightarrow> bool" where
  "super_field_byte i \<longleftrightarrow> i < 8 \<or> (12 \<le> i \<and> i < 20) \<or> (24 \<le> i \<and> i < 28) \<or> (32 \<le> i \<and> i < 36)
     \<or> (40 \<le> i \<and> i < 44) \<or> (58 \<le> i \<and> i < 60) \<or> (84 \<le> i \<and> i < 90)"

definition get_super_at :: "bytes \<Rightarrow> nat \<Rightarrow> ext2_super_block" where
  "get_super_at d off =
     \<lparr>s_inodes_count = get_u32 d off, s_blocks_count = get_u32 d (off + 4),
      s_free_blocks_count = get_u32 d (off + 12), s_free_inodes_count = get_u32 d (off + 16),
      s_log_block_size = get_u32 d (off + 24), s_blocks_per_group = get_u32 d (off + 32),
      s_inodes_per_group = get_u32 d (off + 40), s_state = get_u16 d (off + 58),
      s_first_ino = get_u32 d (off + 84), s_inode_size = get_u16 d (off + 88),
      s_rest = (\<lambda>i. if i < sizeof_super_block \<and> \<not> super_field_byte i then d (off + i) else 0)\<rparr>"

definition wf_super :: "ext2_super_block \<Rightarrow> bool" where
  "wf_super x \<longleftrightarrow> (\<forall>i. super_field_byte i \<or> sizeof_super_block \<le> i \<longrightarrow> s_rest x i = 0)"

section \<open>The encodings are faithful\<close>

lemma get_u32_put_bytes_other [buf_simps]:
  "off + 4 \<le> off' \<or> off' + length bs \<le> off \<Longrightarrow> get_u32 (put_bytes d off' bs) off = get_u32 d off"
  by (rule get_u32_cong) (auto simp: put_bytes_def)

lemma get_u16_put_bytes_other [buf_simps]:
  "off + 2 \<le> off' \<or> off' + length bs \<le> off \<Longrightarrow> get_u16 (put_bytes d off' bs) off = get_u16 d off"
  by (rule get_u16_cong) (auto simp: put_bytes_def)

lemma put_inode_outside: "i < off \<or> off + sizeof_inode \<le> i \<Longrightarrow> put_inode d off x i = d i"
  by (auto simp: put_inode_def Let_def buf_simps)

lemma get_put_inode:
  assumes "wf_inode x"
  shows "get_inode_at (put_inode d off x) off = x"
proof (rule ext2_inode.equality)
  have blk: "(\<lambda>k. if k < 15 then get_u32 (put_inode d off x) (off + 40 + k * 4) else 0) = i_block x"
  proof (rule ext)
    fix k
    show "(if k < 15 then get_u32 (put_inode d off x) (off + 40 + k * 4) else 0) = i_block x k"
      using assms u32c.get_put_array [where f = "i_block x" and k = k and n = 15 and off = "off + 40"]
      by (auto simp: put_inode_def Let_def buf_simps wf_inode_def)
  qed
  have osd2: "(\<lambda>k. if k < 12 then put_inode d off x (off + 116 + k) else 0) = i_osd2 x"
    using assms by (auto simp: put_inode_def Let_def put_bytes_def wf_inode_def)
  show "i_block (get_inode_at (put_inode d off x) off) = i_block x"
    using blk by (simp add: get_inode_at_def)
  show "i_osd2 (get_inode_at (put_inode d off x) off) = i_osd2 x"
    using osd2 by (simp add: get_inode_at_def)
qed (simp_all add: get_inode_at_def put_inode_def Let_def buf_simps)

lemma get_inode_at_local:
  assumes "\<And>i. i < sizeof_inode \<Longrightarrow> d (off + i) = d' (off' + i)"
  shows "get_inode_at d off = get_inode_at d' off'"
proof -
  have w: "get_u32 d (off + k) = get_u32 d' (off' + k)" if "k \<le> 124" for k
    using assms that by (intro get_u32_local) (simp add: add.assoc)
  have h: "get_u16 d (off + k) = get_u16 d' (off' + k)" if "k \<le> 126" for k
    using assms that by (intro get_u16_local) (simp add: add.assoc)
  have b: "d (off + k) = d' (off' + k)" if "k < 128" for k
    using assms that by simp
  have blk: "get_u32 d (off + 40 + k * 4) = get_u32 d' (off' + 40 + k * 4)" if "k < 15" for k
    using w [of "40 + k * 4"] that by (simp add: add.assoc)
  have osd2: "d (off + 116 + k) = d' (off' + 116 + k)" if "k < 12" for k
    using b [of "116 + k"] that by (simp add: add.assoc)
  show ?thesis
    using h [of 0] h [of 2] by (simp add: get_inode_at_def w h blk osd2 cong: if_cong)
qed

interpretation inodec: codec sizeof_inode put_inode get_inode_at wf_inode
  by unfold_locales
    (simp, erule get_put_inode, erule put_inode_outside, rule get_inode_at_local, blast)

lemma put_desc_outside: "i < off \<or> off + sizeof_group_desc \<le> i \<Longrightarrow> put_desc d off x i = d i"
  by (auto simp: put_desc_def Let_def buf_simps)

lemma get_put_desc:
  assumes "wf_desc x"
  shows "get_desc_at (put_desc d off x) off = x"
proof (rule ext2_group_desc.equality)
  have "(if k < 3 then get_u32 (put_desc d off x) (off + 20 + k * 4) else 0) = bg_reserved x k" for k
    using assms u32c.get_put_array [where f = "bg_reserved x" and k = k and n = 3 and off = "off + 20"]
    by (auto simp: put_desc_def Let_def buf_simps wf_desc_def)
  then show "bg_reserved (get_desc_at (put_desc d off x) off) = bg_reserved x"
    by (simp add: get_desc_at_def)
qed (simp_all add: get_desc_at_def put_desc_def Let_def buf_simps)

lemma get_desc_at_local:
  assumes "\<And>i. i < sizeof_group_desc \<Longrightarrow> d (off + i) = d' (off' + i)"
  shows "get_desc_at d off = get_desc_at d' off'"
proof -
  have w: "get_u32 d (off + k) = get_u32 d' (off' + k)" if "k \<le> 28" for k
    using assms that by (intro get_u32_local) (simp add: add.assoc)
  have h: "get_u16 d (off + k) = get_u16 d' (off' + k)" if "k \<le> 30" for k
    using assms that by (intro get_u16_local) (simp add: add.assoc)
  have r: "get_u32 d (off + 20 + k * 4) = get_u32 d' (off' + 20 + k * 4)" if "k < 3" for k
    using w [of "20 + k * 4"] that by (simp add: add.assoc)
  show ?thesis
    using w [of 0] by (simp add: get_desc_at_def w h r cong: if_cong)
qed

interpretation descc: codec sizeof_group_desc put_desc get_desc_at wf_desc
  by unfold_locales
    (simp, erule get_put_desc, erule put_desc_outside, rule get_desc_at_local, blast)

lemma put_super_outside: "i < off \<or> off + sizeof_super_block \<le> i \<Longrightarrow> put_super d off x i = d i"
  by (auto simp: put_super_def Let_def buf_simps)

lemma get_put_super:
  assumes "wf_super x"
  shows "get_super_at (put_super d off x) off = x"
proof (rule ext2_super_block.equality)
  have "put_super d off x (off + i) = s_rest x i" if "i < 1024" "\<not> super_field_byte i" for i
    using that by (auto simp: put_super_def Let_def put_u32_outside put_u16_outside put_bytes_def super_field_byte_def)
  then show "s_rest (get_super_at (put_super d off x) off) = s_rest x"
    using assms by (fastforce simp: get_super_at_def wf_super_def)
qed (simp_all add: get_super_at_def put_super_def Let_def buf_simps)

lemma get_super_at_local:
  assumes "\<And>i. i < sizeof_super_block \<Longrightarrow> d (off + i) = d' (off' + i)"
  shows "get_super_at d off = get_super_at d' off'"
proof -
  have w: "get_u32 d (off + k) = get_u32 d' (off' + k)" if "k \<le> 84" for k
    using assms that by (intro get_u32_local) (simp add: add.assoc)
  have h: "get_u16 d (off + k) = get_u16 d' (off' + k)" if "k \<le> 88" for k
    using assms that by (intro get_u16_local) (simp add: add.assoc)
  show ?thesis
    using w [of 0] assms by (simp add: get_super_at_def w h cong: if_cong conj_cong)
qed

interpretation superc: codec sizeof_super_block put_super get_super_at wf_super
  by unfold_locales
    (simp, erule get_put_super, erule put_super_outside, rule get_super_at_local, blast)

end
