(* ===== verification/Bitmap.thy ===== *)
theory Bitmap
  imports Common
begin

text \<open>
  \<open>include/utils/bitmap.h\<close> and \<open>src/utils/bitmap.cpp\<close>: a bitmap laid over a buffer of 32-bit
  words. The class keeps a pointer only; the model also keeps the length of the buffer in
  words, and an access outside it is undefined (\<^term>\<open>None\<close>).
\<close>

section \<open>The class\<close>

record bitmap =
  bm_words :: nat
  bm_data :: "nat \<Rightarrow> u32"

definition BIT_SHIFT :: nat where "BIT_SHIFT = 5"
definition BIT_MASK :: nat where "BIT_MASK = 0x1f"
definition BIT_MAX :: u32 where "BIT_MAX = NOT 0"

definition BIT_GET :: "nat \<Rightarrow> u32" where
  "BIT_GET i = push_bit (i AND BIT_MASK) 1"

definition bitmap_set :: "nat \<Rightarrow> bitmap \<Rightarrow> bitmap option" where
  "bitmap_set i b = do {
     let w = drop_bit BIT_SHIFT i;
     defined_if (w < bm_words b);
     Some (b\<lparr>bm_data := (bm_data b)(w := bm_data b w OR BIT_GET i)\<rparr>)
   }"

definition bitmap_test :: "nat \<Rightarrow> bitmap \<Rightarrow> bool option" where
  "bitmap_test i b = do {
     let w = drop_bit BIT_SHIFT i;
     defined_if (w < bm_words b);
     Some (bm_data b w AND BIT_GET i \<noteq> 0)
   }"

definition bitmap_clear :: "nat \<Rightarrow> bitmap \<Rightarrow> bitmap option" where
  "bitmap_clear i b = do {
     let w = drop_bit BIT_SHIFT i;
     defined_if (w < bm_words b);
     Some (b\<lparr>bm_data := (bm_data b)(w := bm_data b w AND NOT (BIT_GET i))\<rparr>)
   }"

text \<open>
  \<open>Bitmap::find\<close>. The inner loop shifts a signed \<open>int\<close>, so the sign bit is replicated; on a
  word of ones it would not end, which is why it is a partial function.
\<close>

partial_function (option) count_low_ones :: "u32 \<Rightarrow> nat \<Rightarrow> nat option" where
  "count_low_ones cur_bits k =
     (if cur_bits AND 1 \<noteq> 0 then count_low_ones (signed_drop_bit 1 cur_bits) (k + 1)
      else Some k)"

function bitmap_find_from :: "bitmap \<Rightarrow> nat \<Rightarrow> nat \<Rightarrow> nat \<Rightarrow> int option" where
  "bitmap_find_from b sz max_index i =
     (if i < max_index then do {
        defined_if (i < bm_words b);
        if bm_data b i \<noteq> BIT_MAX then do {
          k \<leftarrow> count_low_ones (bm_data b i) 0;
          let ret = push_bit BIT_SHIFT i + k;
          Some (if ret \<ge> sz then -1 else int ret)
        } else bitmap_find_from b sz max_index (i + 1)
      } else Some (-1))"
  by pat_completeness auto
termination
  by (relation "measure (\<lambda>(b, sz, max_index, i). max_index - i)") auto

definition bitmap_find :: "nat \<Rightarrow> bitmap \<Rightarrow> int option" where
  "bitmap_find sz b =
     bitmap_find_from b sz
       (drop_bit BIT_SHIFT sz + (if sz AND BIT_MASK \<noteq> 0 then 1 else 0)) 0"

declare bitmap_find_from.simps [simp del]

section \<open>Bit by bit\<close>

text \<open>The bit at position \<open>i\<close> of the buffer, and the number of bits it holds.\<close>

definition bit_at :: "bitmap \<Rightarrow> nat \<Rightarrow> bool" where
  "bit_at b i = bit (bm_data b (i div 32)) (i mod 32)"

definition bm_cap :: "bitmap \<Rightarrow> nat" where
  "bm_cap b = 32 * bm_words b"

lemma drop_bit_BIT_SHIFT [simp]: "drop_bit BIT_SHIFT (i::nat) = i div 32"
  by (simp add: BIT_SHIFT_def drop_bit_eq_div)

lemma push_bit_BIT_SHIFT [simp]: "push_bit BIT_SHIFT (i::nat) = 32 * i"
  by (simp add: BIT_SHIFT_def push_bit_eq_mult)

lemma and_BIT_MASK [simp]: "(i::nat) AND BIT_MASK = i mod 32"
  using and_mask_nat [of i 5] by (simp add: BIT_MASK_def mask_eq_exp_minus_1)

lemma bit_BIT_GET [simp]: "bit (BIT_GET i) j \<longleftrightarrow> j = i mod 32"
proof -
  have "i mod 32 < 32" by simp
  then show ?thesis by (auto simp: BIT_GET_def bit_simps)
qed

lemma and_BIT_GET: "w AND BIT_GET i \<noteq> 0 \<longleftrightarrow> bit w (i mod 32)"
proof -
  have "w AND BIT_GET i \<noteq> 0 \<longleftrightarrow> (\<exists>n. bit (w AND BIT_GET i) n)"
    by (metis bit_0_eq bit_eqI bot_apply bot_bool_def)
  then show ?thesis by (simp add: bit_simps)
qed

lemma bitmap_test_eq: "bitmap_test i b = (if i < bm_cap b then Some (bit_at b i) else None)"
  by (auto simp: bitmap_test_def Let_def defined_if_def bm_cap_def bit_at_def and_BIT_GET)

lemma bitmap_set_cases:
  obtains (out) "bm_cap b \<le> i" "bitmap_set i b = None"
  | (ok) b' where "i < bm_cap b" "bitmap_set i b = Some b'" "bm_words b' = bm_words b"
      "bit_at b' = (bit_at b)(i := True)"
proof (cases "i < bm_cap b")
  case False
  then show ?thesis
    by (intro out) (auto simp: bitmap_set_def Let_def defined_if_def bm_cap_def)
next
  case True
  define b' where "b' = b\<lparr>bm_data := (bm_data b)(i div 32 := bm_data b (i div 32) OR BIT_GET i)\<rparr>"
  have "bit_at b' j = ((bit_at b)(i := True)) j" for j
    by (auto simp: b'_def bit_at_def bit_simps dest: div_mod_eqD)
  then show ?thesis using True
    by (intro ok [of b']) (auto simp: b'_def bitmap_set_def Let_def defined_if_def bm_cap_def fun_eq_iff)
qed

lemma bitmap_clear_cases:
  obtains (out) "bm_cap b \<le> i" "bitmap_clear i b = None"
  | (ok) b' where "i < bm_cap b" "bitmap_clear i b = Some b'" "bm_words b' = bm_words b"
      "bit_at b' = (bit_at b)(i := False)"
proof (cases "i < bm_cap b")
  case False
  then show ?thesis
    by (intro out) (auto simp: bitmap_clear_def Let_def defined_if_def bm_cap_def)
next
  case True
  define b' where "b' = b\<lparr>bm_data := (bm_data b)(i div 32 := bm_data b (i div 32) AND NOT (BIT_GET i))\<rparr>"
  have "bit_at b' j = ((bit_at b)(i := False)) j" for j
    by (auto simp: b'_def bit_at_def bit_simps dest: div_mod_eqD)
  then show ?thesis using True
    by (intro ok [of b']) (auto simp: b'_def bitmap_clear_def Let_def defined_if_def bm_cap_def fun_eq_iff)
qed

section \<open>The contract of a bit table\<close>

text \<open>
  What the allocators rely on: positions up to a capacity, each set or clear, and operations
  that change one position. The client lemmas are about the set of positions in use.
\<close>

locale bit_table =
  fixes cap :: "'t \<Rightarrow> nat"
    and test :: "nat \<Rightarrow> 't \<Rightarrow> bool option"
    and set1 :: "nat \<Rightarrow> 't \<Rightarrow> 't option"
    and clear1 :: "nat \<Rightarrow> 't \<Rightarrow> 't option"
    and used :: "'t \<Rightarrow> nat set"
  assumes test_used: "i < cap t \<Longrightarrow> test i t = Some (i \<in> used t)"
    and test_out: "cap t \<le> i \<Longrightarrow> test i t = None"
    and set1_ok: "i < cap t \<Longrightarrow> \<exists>t'. set1 i t = Some t' \<and> cap t' = cap t \<and> used t' = insert i (used t)"
    and clear1_ok: "i < cap t \<Longrightarrow> \<exists>t'. clear1 i t = Some t' \<and> cap t' = cap t \<and> used t' = used t - {i}"
    and used_cap: "used t \<subseteq> {..<cap t}"
begin

definition free_count :: "'t \<Rightarrow> nat" where
  "free_count t = card ({..<cap t} - used t)"

lemma finite_used [simp]: "finite (used t)"
  using used_cap finite_subset by blast

lemma set1_D:
  assumes "set1 i t = Some t'" "i < cap t"
  shows "cap t' = cap t" "used t' = insert i (used t)"
  using set1_ok [OF assms(2)] assms(1) by auto

lemma clear1_D:
  assumes "clear1 i t = Some t'" "i < cap t"
  shows "cap t' = cap t" "used t' = used t - {i}"
  using clear1_ok [OF assms(2)] assms(1) by auto

lemma free_count_set1:
  assumes "i < cap t" "i \<notin> used t" "set1 i t = Some t'"
  shows "free_count t = Suc (free_count t')"
proof -
  note t' = set1_D [OF assms(3,1)]
  have "{..<cap t} - used t = insert i ({..<cap t} - insert i (used t))"
    using assms(1,2) by blast
  moreover have "card (insert i ({..<cap t} - insert i (used t))) = Suc (card ({..<cap t} - insert i (used t)))"
    by (rule card_insert_disjoint) auto
  ultimately show ?thesis
    unfolding free_count_def t' by (rule ssubst)
qed

lemma free_count_clear1:
  assumes "i \<in> used t" "clear1 i t = Some t'"
  shows "free_count t' = Suc (free_count t)"
proof -
  have i: "i < cap t" using assms used_cap by blast
  note t' = clear1_D [OF assms(2) i]
  have "{..<cap t} - (used t - {i}) = insert i ({..<cap t} - used t)"
    using i by blast
  moreover have "card (insert i ({..<cap t} - used t)) = Suc (card ({..<cap t} - used t))"
    using assms(1) by (intro card_insert_disjoint) auto
  ultimately show ?thesis
    unfolding free_count_def t' by (rule ssubst)
qed

lemma free_count_eq_0: "free_count t = 0 \<longleftrightarrow> used t = {..<cap t}"
  using used_cap by (auto simp: free_count_def)

lemma set1_clear1_used:
  assumes "i \<notin> used t" "set1 i t = Some t'" "clear1 i t' = Some t''" "i < cap t"
  shows "used t'' = used t"
proof -
  note t' = set1_D [OF assms(2,4)]
  then show ?thesis
    using clear1_D [OF assms(3)] assms(1,4) by auto
qed

end

definition bm_used :: "bitmap \<Rightarrow> nat set" where
  "bm_used b = {i. i < bm_cap b \<and> bit_at b i}"

interpretation bm: bit_table bm_cap bitmap_test bitmap_set bitmap_clear bm_used
proof unfold_locales
  fix i t
  assume i: "i < bm_cap t"
  show "bitmap_test i t = Some (i \<in> bm_used t)"
    using i by (simp add: bitmap_test_eq bm_used_def)
  show "\<exists>t'. bitmap_set i t = Some t' \<and> bm_cap t' = bm_cap t \<and> bm_used t' = insert i (bm_used t)"
    by (cases rule: bitmap_set_cases [of t i]) (use i in \<open>auto simp: bm_used_def bm_cap_def\<close>)
  show "\<exists>t'. bitmap_clear i t = Some t' \<and> bm_cap t' = bm_cap t \<and> bm_used t' = bm_used t - {i}"
    by (cases rule: bitmap_clear_cases [of t i]) (use i in \<open>auto simp: bm_used_def bm_cap_def\<close>)
qed (auto simp: bitmap_test_eq bm_used_def)

section \<open>Search for a clear bit\<close>

lemma bit_BIT_MAX [simp]: "bit BIT_MAX j \<longleftrightarrow> j < 32"
  by (simp add: BIT_MAX_def bit_simps)

lemma and_1_neq_0: "(w::u32) AND 1 \<noteq> 0 \<longleftrightarrow> bit w 0"
  by (simp add: and_one_eq odd_iff_mod_2_eq_one bit_0)

lemma count_low_ones_eq:
  "\<not> bit w k \<Longrightarrow> k < 32 \<Longrightarrow> (\<And>j. j < k \<Longrightarrow> bit w j) \<Longrightarrow> count_low_ones w n = Some (n + k)"
proof (induction k arbitrary: w n)
  case 0
  then show ?case
    using and_1_neq_0 [of w] by (simp add: count_low_ones.simps [of w n])
next
  case (Suc k)
  let ?w = "signed_drop_bit 1 w"
  have "count_low_ones ?w (n + 1) = Some (n + 1 + k)"
    using Suc.prems by (intro Suc.IH) (auto simp: bit_signed_drop_bit_iff)
  moreover have "w AND 1 \<noteq> 0"
    using Suc.prems(3) [of 0] and_1_neq_0 [of w] by simp
  ultimately show ?case
    by (simp add: count_low_ones.simps [of w n])
qed

lemma low_clear_bit:
  assumes "w \<noteq> BIT_MAX"
  obtains k where "k < 32" "\<not> bit w k" "\<And>j. j < k \<Longrightarrow> bit w j"
proof -
  have "\<exists>n. \<not> bit w n \<and> n < 32"
  proof (rule ccontr)
    assume "\<nexists>n. \<not> bit w n \<and> n < 32"
    then have "w = BIT_MAX" by (intro bit_word_eqI) auto
    with assms show False ..
  qed
  then obtain k where "\<not> bit w k \<and> k < 32" "\<forall>j<k. \<not> (\<not> bit w j \<and> j < 32)"
    using exists_least_iff [of "\<lambda>n. \<not> bit w n \<and> n < 32"] by blast
  then show ?thesis by (intro that [of k]) auto
qed

definition first_clear :: "bitmap \<Rightarrow> nat \<Rightarrow> int" where
  "first_clear b sz = (if \<exists>p < sz. \<not> bit_at b p then int (LEAST p. \<not> bit_at b p) else -1)"

lemma first_clearI:
  assumes "\<not> bit_at b p" "\<And>j. j < p \<Longrightarrow> bit_at b j"
  shows "first_clear b sz = (if p < sz then int p else -1)"
proof -
  have "(LEAST p. \<not> bit_at b p) = p"
    using assms by (intro Least_equality) (auto simp flip: not_less)
  moreover have "(\<exists>p < sz. \<not> bit_at b p) \<longleftrightarrow> p < sz"
    using assms by (metis less_trans linorder_neqE_nat)
  ultimately show ?thesis
    by (simp add: first_clear_def)
qed

lemma bitmap_find_from_eq:
  assumes "max_index \<le> bm_words b" "sz \<le> 32 * max_index"
    and "\<And>j. j < i \<Longrightarrow> bm_data b j = BIT_MAX"
  shows "bitmap_find_from b sz max_index i = Some (first_clear b sz)"
  using assms
proof (induction b sz max_index i rule: bitmap_find_from.induct)
  case (1 b sz max_index i)
  have full: "bit_at b p" if "p < 32 * i" for p
    using "1.prems"(3) [of "p div 32"] that by (auto simp: bit_at_def)
  show ?case
  proof (cases "i < max_index")
    case False
    then have "\<forall>p < sz. bit_at b p"
      using "1.prems"(2) by (auto intro!: full)
    then have "first_clear b sz = -1"
      by (auto simp: first_clear_def)
    with False show ?thesis by (simp add: bitmap_find_from.simps [of b sz max_index i])
  next
    case True
    show ?thesis
    proof (cases "bm_data b i = BIT_MAX")
      case True
      have "bitmap_find_from b sz max_index (i + 1) = Some (first_clear b sz)"
        using "1.prems" \<open>i < max_index\<close> True
        by (intro "1.IH" [of "()"]) (auto simp: less_Suc_eq)
      with True \<open>i < max_index\<close> "1.prems"(1) show ?thesis
        by (simp add: bitmap_find_from.simps [of b sz max_index i])
    next
      case False
      then obtain k where k: "k < 32" "\<not> bit (bm_data b i) k" "\<And>j. j < k \<Longrightarrow> bit (bm_data b i) j"
        by (rule low_clear_bit) blast
      then have cnt: "count_low_ones (bm_data b i) 0 = Some k"
        using count_low_ones_eq [of _ k 0] by simp
      have "first_clear b sz = (if 32 * i + k < sz then int (32 * i + k) else -1)"
      proof (rule first_clearI)
        show "\<not> bit_at b (32 * i + k)" using k by (simp add: bit_at_def)
        fix j assume j: "j < 32 * i + k"
        show "bit_at b j"
        proof (cases "j < 32 * i")
          case False
          define m where "m = j - 32 * i"
          with False j have "j = 32 * i + m" "m < k" by simp_all
          then show ?thesis using k by (simp add: bit_at_def)
        qed (rule full)
      qed
      with False cnt \<open>i < max_index\<close> "1.prems"(1) show ?thesis
        by (simp add: bitmap_find_from.simps [of b sz max_index i])
    qed
  qed
qed

lemma bitmap_find_eq: "sz \<le> bm_cap b \<Longrightarrow> bitmap_find sz b = Some (first_clear b sz)"
  unfolding bitmap_find_def
  using ceil_div_bounds(1) [of 32 sz] ceil_div_bounds(2) [of 32 sz]
  by (intro bitmap_find_from_eq) (auto simp: bm_cap_def)

lemma first_clear_neg: "first_clear b sz < 0 \<longleftrightarrow> (\<forall>p < sz. bit_at b p)"
  by (auto simp: first_clear_def)

lemma first_clear_pos:
  assumes "first_clear b sz = int p"
  shows "p < sz" "\<not> bit_at b p" "\<And>j. j < p \<Longrightarrow> bit_at b j"
proof -
  from assms have ex: "\<exists>p < sz. \<not> bit_at b p" and p: "p = (LEAST p. \<not> bit_at b p)"
    by (auto simp: first_clear_def split: if_splits)
  from ex show "\<not> bit_at b p" unfolding p by (metis LeastI)
  show "bit_at b j" if "j < p" for j
    using that unfolding p by (metis not_less_Least)
  with ex \<open>\<not> bit_at b p\<close> show "p < sz"
    by (metis linorder_neqE_nat order_less_trans)
qed

section \<open>Properties\<close>

text \<open>
  C19 (functional): \<open>Bitmap::find(sz)\<close> on a buffer of at least \<open>sz\<close> bits returns, without
  running off the buffer or looping on the signed shift, the least position whose bit is clear,
  and -1 exactly when all \<open>sz\<close> bits are set.
\<close>

theorem bitmap_find_least_clear:
  assumes "sz \<le> bm_cap b"
  shows "\<exists>r. bitmap_find sz b = Some r \<and> (r = -1 \<longleftrightarrow> (\<forall>p < sz. bitmap_test p b = Some True)) \<and>
    (r \<noteq> -1 \<longrightarrow> 0 \<le> r \<and> nat r < sz \<and> bitmap_test (nat r) b = Some False \<and>
       (\<forall>j < nat r. bitmap_test j b = Some True))"
proof (cases "first_clear b sz < 0")
  case True
  then have "first_clear b sz = -1" "\<forall>p < sz. bit_at b p"
    by (auto simp: first_clear_def split: if_splits)
  with assms show ?thesis by (simp add: bitmap_find_eq bitmap_test_eq)
next
  case False
  then obtain p where p: "first_clear b sz = int p" by (metis nonneg_int_cases not_less)
  note c = first_clear_pos [OF p]
  have "\<not> (\<forall>p < sz. bitmap_test p b = Some True)"
    using c(1,2) assms by (auto simp: bitmap_test_eq)
  with c assms show ?thesis by (auto simp: bitmap_find_eq bitmap_test_eq p)
qed

theorem bitmap_find_least_clear_witness:
  "let b = \<lparr>bm_words = 2, bm_data = (\<lambda>_. 0)(0 := BIT_MAX, 1 := 0xFFFF0003)\<rparr>
   in bitmap_find 64 b = Some 34 \<and> bitmap_test 34 b = Some False \<and> bitmap_test 33 b = Some True"
proof -
  let ?b = "\<lparr>bm_words = 2, bm_data = (\<lambda>_. 0)(0 := BIT_MAX, 1 := 0xFFFF0003)\<rparr>"
  have cap: "64 \<le> bm_cap ?b" by (simp add: bm_cap_def)
  have r: "bitmap_find 64 ?b = Some 34"
    by (simp add: bitmap_find_def bitmap_find_from.simps count_low_ones.simps BIT_MAX_def BIT_SHIFT_def)
  have "bitmap_test (nat 34) ?b = Some False \<and> (\<forall>j < nat 34. bitmap_test j ?b = Some True)"
    using bitmap_find_least_clear [OF cap] unfolding r by fastforce
  then show ?thesis using r by (simp add: Let_def)
qed

end
