(* ===== verification/Block_Store.thy ===== *)
theory Block_Store
  imports Common
begin

text \<open>
  \<open>src/utils/disk.cpp\<close> and the class \<open>Block\<close> of \<open>include/block.h\<close>. The device is the file
  \<open>/tmp/disk\<close>, opened: a size and its bytes, the value of \<open>errno\<close>, and what the coming calls of \<open>write\<close>
  will do. \<open>Block\<close> objects live on a heap: \<open>new\<close> takes the next fresh address, \<open>delete\<close> removes the
  object, and any use of an address that holds no object is undefined. Memory allocation does not
  fail in the model, and a read inside the device succeeds.
\<close>

section \<open>The device\<close>

text \<open>
  A call of \<open>write\<close> may write fewer bytes than it was asked for, or fail and set \<open>errno\<close>. The list
  \<open>dk_faults\<close> says what the next calls do, one entry each; the calls after the last entry write
  everything. A device with an empty list is sound. A call that succeeds leaves \<open>errno\<close> as it is, and
  nothing is assumed about the value it has.
\<close>

datatype write_call = Writes nat | Fails int

record disk =
  dk_size :: nat
  dk_bytes :: bytes
  dk_errno :: int
  dk_faults :: "write_call list"

abbreviation sound_disk :: "nat \<Rightarrow> bytes \<Rightarrow> disk" where
  "sound_disk n f \<equiv> \<lparr>dk_size = n, dk_bytes = f, dk_errno = 0, dk_faults = []\<rparr>"

definition disk_put :: "nat \<Rightarrow> nat \<Rightarrow> bytes \<Rightarrow> disk \<Rightarrow> disk" where
  "disk_put pos n buf d =
     d\<lparr>dk_size := (if n = 0 then dk_size d else max (dk_size d) (pos + n)),
       dk_bytes := (\<lambda>i. if pos \<le> i \<and> i < pos + n then buf (i - pos) else dk_bytes d i)\<rparr>"

definition sys_write :: "nat \<Rightarrow> nat \<Rightarrow> bytes \<Rightarrow> disk \<Rightarrow> int \<times> disk" where
  "sys_write pos sz buf d =
     (case dk_faults d of
        [] \<Rightarrow> (int sz, disk_put pos sz buf d)
      | Writes n # cs \<Rightarrow> (int (min n sz), disk_put pos (min n sz) buf (d\<lparr>dk_faults := cs\<rparr>))
      | Fails e # cs \<Rightarrow> (-1, d\<lparr>dk_errno := e, dk_faults := cs\<rparr>))"

text \<open>
  \<open>__disk_write\<close> keeps the results of \<open>lseek\<close> and \<open>write\<close>, which have 64 bits, in an \<open>int\<close>: they are
  truncated to 32 bits and read as signed before the test for an error. The number of bytes written
  is not compared with the size.
\<close>

definition as_int :: "int \<Rightarrow> int" where
  "as_int x = sint (word_of_int x :: 32 word)"

definition disk_write :: "nat \<Rightarrow> nat \<Rightarrow> bytes \<Rightarrow> disk \<Rightarrow> int \<times> disk" where
  "disk_write pos sz buf d =
     (let ret = as_int (int pos)
      in if ret < 0 then (- dk_errno d, d)
         else let (r, d) = sys_write pos sz buf d; ret = as_int r
              in if ret < 0 then (- dk_errno d, d) else (0, d))"

text \<open>
  \<open>__disk_read\<close>: a read past the end of the device comes back short and fails the assertion
  (in a release build it leaves the buffer uninitialised, which has no defined value either).
\<close>

definition disk_read :: "nat \<Rightarrow> nat \<Rightarrow> disk \<Rightarrow> bytes option" where
  "disk_read pos sz d = do {
     defined_if (pos + sz \<le> dk_size d);
     Some (clip sz (\<lambda>i. dk_bytes d (pos + i)))
   }"

section \<open>Blocks\<close>

record block =
  blk_offset :: nat
  blk_data :: bytes

record store =
  ndebug :: bool
  device :: disk
  heap :: "addr \<Rightarrow> block option"
  brk :: addr

text \<open>\<open>Block(offset, alloc)\<close>: zeroed when newly allocated, otherwise read from the device.\<close>

definition block_data :: "nat \<Rightarrow> bool \<Rightarrow> disk \<Rightarrow> bytes option" where
  "block_data off alloc d = (if \<not> alloc then disk_read off BLOCK_SIZE d else Some (\<lambda>_. 0))"

definition block_new :: "nat \<Rightarrow> bool \<Rightarrow> store \<Rightarrow> (addr \<times> store) option" where
  "block_new off alloc st = do {
     data \<leftarrow> block_data off alloc (device st);
     Some (brk st, st\<lparr>heap := (heap st)(brk st \<mapsto> \<lparr>blk_offset = off, blk_data = data\<rparr>),
                      brk := Suc (brk st)\<rparr>)
   }"

definition block_delete :: "addr \<Rightarrow> store \<Rightarrow> store option" where
  "block_delete a st = do {
     _ \<leftarrow> heap st a;
     Some (st\<lparr>heap := (heap st)(a := None)\<rparr>)
   }"

definition block_flush :: "addr \<Rightarrow> store \<Rightarrow> (int \<times> store) option" where
  "block_flush a st = do {
     b \<leftarrow> heap st a;
     let (r, d) = disk_write (blk_offset b) BLOCK_SIZE (blk_data b) (device st);
     Some (r, st\<lparr>device := d\<rparr>)
   }"

text \<open>\<open>get()\<close>: reading and mutating the data behind a block pointer.\<close>

definition block_get :: "addr \<Rightarrow> store \<Rightarrow> bytes option" where
  "block_get a st = map_option blk_data (heap st a)"

definition block_put :: "addr \<Rightarrow> bytes \<Rightarrow> store \<Rightarrow> store option" where
  "block_put a d st = do {
     b \<leftarrow> heap st a;
     Some (st\<lparr>heap := (heap st)(a \<mapsto> b\<lparr>blk_data := d\<rparr>)\<rparr>)
   }"

section \<open>Reads over writes\<close>

text \<open>Offsets below 2 GiB, the range in which the truncation in \<open>__disk_write\<close> is harmless.\<close>

definition seekable :: "nat \<Rightarrow> bool" where
  "seekable pos \<longleftrightarrow> pos < 2 ^ 31"

lemma sint_word_of_nat32:
  "sint (word_of_nat pos :: 32 word) < 0 \<longleftrightarrow> 2 ^ 31 \<le> pos mod 2 ^ 32"
proof -
  have "sint (word_of_nat pos :: 32 word) < 0 \<longleftrightarrow> bit pos 31"
    using bit_last_iff [of "word_of_nat pos :: 32 word"] by (simp add: bit_simps)
  also have "\<dots> \<longleftrightarrow> odd (pos div 2 ^ 31)"
    by (simp add: bit_iff_odd)
  also have "\<dots> \<longleftrightarrow> 2 ^ 31 \<le> pos mod (2 ^ 31 * 2)"
    unfolding mod_mult2_eq by (cases "even (pos div 2 ^ 31)") (simp_all add: even_iff_mod_2_eq_zero odd_iff_mod_2_eq_one not_le)
  finally show ?thesis by simp
qed

lemma as_int_negative: "as_int (int n) < 0 \<longleftrightarrow> 2 ^ 31 \<le> n mod 2 ^ 32"
  using sint_word_of_nat32 [of n] by (simp add: as_int_def)

lemma disk_put_same [simp]:
  "dk_errno (disk_put pos n buf d) = dk_errno d" "dk_faults (disk_put pos n buf d) = dk_faults d"
  by (simp_all add: disk_put_def)

lemma disk_write_seekable:
  "seekable pos \<Longrightarrow> seekable sz \<Longrightarrow> dk_faults d = [] \<Longrightarrow> disk_write pos sz buf d = (0, disk_put pos sz buf d)"
  by (simp add: disk_write_def sys_write_def as_int_negative Let_def seekable_def)

lemma seekable_block [simp]: "seekable 4096"
  by (simp add: seekable_def)

lemma dk_faults_write [simp]: "dk_faults d = [] \<Longrightarrow> dk_faults (snd (disk_write pos sz buf d)) = []"
  by (simp add: disk_write_def sys_write_def Let_def)

text \<open>The same block is read back; a block that does not overlap is not disturbed.\<close>

lemma disk_read_write_same:
  assumes "seekable pos" "dk_faults d = []"
  shows "disk_read pos BLOCK_SIZE (snd (disk_write pos BLOCK_SIZE buf d)) = Some (clip BLOCK_SIZE buf)"
  using assms by (auto simp: disk_write_seekable disk_put_def disk_read_def defined_if_def clip_def)

text \<open>Whatever the device does, a write changes nothing outside its range and never shrinks the device.\<close>

lemma sys_write_frame:
  "dk_size d \<le> dk_size (snd (sys_write pos sz buf d))"
  "i < pos \<or> pos + sz \<le> i \<Longrightarrow> dk_bytes (snd (sys_write pos sz buf d)) i = dk_bytes d i"
  by (auto simp: sys_write_def disk_put_def split: list.split write_call.split)

lemma disk_write_frame:
  "dk_size d \<le> dk_size (snd (disk_write pos sz buf d))"
  "i < pos \<or> pos + sz \<le> i \<Longrightarrow> dk_bytes (snd (disk_write pos sz buf d)) i = dk_bytes d i"
  using sys_write_frame(1) [of d pos sz buf] sys_write_frame(2) [of i pos sz buf d] by (auto simp: disk_write_def Let_def split_beta)

lemma disk_read_write_other:
  assumes "pos' + sz' \<le> pos \<or> pos + sz \<le> pos'" "disk_read pos' sz' d = Some x"
  shows "disk_read pos' sz' (snd (disk_write pos sz buf d)) = Some x"
  using assms disk_write_frame(1) [of d pos sz buf]
  by (auto simp: disk_read_def defined_if_def clip_def fun_eq_iff disk_write_frame(2) split: if_splits)

lemmas dk_size_disk_write = disk_write_frame(1)

text \<open>A short write counts as a success: the rest of the buffer is not written and 0 is returned.\<close>

lemma disk_write_short:
  assumes "seekable pos" "seekable sz" "dk_faults d = Writes n # cs" "n < sz"
  shows "fst (disk_write pos sz buf d) = 0"
    and "pos + n \<le> i \<Longrightarrow> dk_bytes (snd (disk_write pos sz buf d)) i = dk_bytes d i"
  using assms as_int_negative [of n] as_int_negative [of pos]
  by (simp_all add: disk_write_def sys_write_def disk_put_def seekable_def Let_def)

section \<open>Properties\<close>

text \<open>
  C28 (error): a write at an offset from 2 GiB up to 4 GiB is skipped. The offset that \<open>lseek\<close> returns
  is negative once it is truncated to an \<open>int\<close>, so \<open>__disk_write\<close> takes the seek for failed, writes
  nothing, leaves the device as it was, and returns minus the value that \<open>errno\<close> happens to have:
  0, the code of success, exactly if \<open>errno\<close> is 0. This holds for every size, buffer and device,
  and whatever \<open>write\<close> would do.
\<close>

theorem disk_write_lost:
  assumes "2 ^ 31 \<le> pos" "pos < 2 ^ 32"
  shows "disk_write pos sz buf d = (- dk_errno d, d)"
proof -
  have "as_int (int pos) < 0" unfolding as_int_negative using assms by simp
  then show ?thesis by (simp add: disk_write_def Let_def)
qed

theorem disk_write_lost_witness:
  "disk_write 2147483648 4096 (\<lambda>_. 1) (sound_disk 17179869184 (\<lambda>_. 0)) = (0, sound_disk 17179869184 (\<lambda>_. 0))"
  using disk_write_lost [of 2147483648] by simp

end
