(* ===== verification/Block_Group.thy ===== *)
theory Block_Group
  imports Ext2 Bitmap Block_Store
begin

text \<open>
  \<open>SuperBlock\<close>, \<open>BitmapBlock\<close>, \<open>InodeTableBlock\<close> and \<open>BlockGroup\<close> of \<open>include/block.h\<close> and
  \<open>src/block.cpp\<close>. These objects own their buffers, so the model keeps the typed view of each
  buffer (records, bitmap words, inode slots) and produces the bytes when it is flushed. A pointer
  to a group descriptor is the number of its slot behind the super block; a pointer to an inode is
  the group and the inode number inside the group.
\<close>

section \<open>SuperBlock\<close>

record super_block =
  sb_super :: ext2_super_block
  sb_descs :: "nat \<Rightarrow> ext2_group_desc"
  desc_table :: "nat list"

definition NUM_DESC_SLOTS :: nat where
  [simp]: "NUM_DESC_SLOTS = (BLOCK_SIZE - sizeof_super_block) div sizeof_group_desc"

definition super_bytes :: "super_block \<Rightarrow> bytes" where
  "super_bytes sb = (\<lambda>i.
     if i < sizeof_super_block then put_super (\<lambda>_. 0) 0 (sb_super sb) i
     else if i < BLOCK_SIZE then array_bytes sizeof_group_desc put_desc (sb_descs sb) (i - sizeof_super_block)
     else 0)"

definition super_flush :: "super_block \<Rightarrow> disk \<Rightarrow> disk" where
  "super_flush sb d = snd (disk_write 0 BLOCK_SIZE (super_bytes sb) d)"

definition num_block_groups :: "ext2_super_block \<Rightarrow> u32 option" where
  "num_block_groups s = do {
     defined_if (s_blocks_per_group s \<noteq> 0 \<and> s_inodes_per_group s \<noteq> 0);
     let block_n = (s_blocks_count s + s_blocks_per_group s - 1) div s_blocks_per_group s;
     let inode_n = (s_inodes_count s + s_inodes_per_group s - 1) div s_inodes_per_group s;
     let n = max inode_n block_n;
     Some (if n \<noteq> 0 then n else 1)
   }"

definition num_aligned_blocks :: "ext2_super_block \<Rightarrow> u32 \<Rightarrow> u32 option" where
  "num_aligned_blocks s iblocks = do {
     defined_if (unat (s_log_block_size s) < 30);
     Some (iblocks div push_bit (unat (s_log_block_size s)) 2)
   }"

definition init_super_block :: "super_block \<Rightarrow> disk \<Rightarrow> (super_block \<times> disk) option" where
  "init_super_block sb d =
     (if s_state (sb_super sb) = UNINIT then do {
        let s = (sb_super sb)\<lparr>s_log_block_size := word_of_nat LOG_BLOCK_SIZE,
              s_blocks_per_group := word_of_nat TOTAL_BLOCKS_PER_GROUP,
              s_inodes_per_group := word_of_nat INODES_PER_GROUP,
              s_blocks_count := 3, s_inodes_count := 1, s_first_ino := ROOT_INODE,
              s_inode_size := word_of_nat sizeof_inode, s_state := NORMAL\<rparr>;
        let x = (sb_descs sb 0)\<lparr>bg_inode_bitmap := word_of_nat BLOCK_SIZE\<rparr>;
        let x = x\<lparr>bg_block_bitmap := bg_inode_bitmap x + word_of_nat BLOCK_SIZE\<rparr>;
        let x = x\<lparr>bg_inode_table := bg_block_bitmap x + word_of_nat BLOCK_SIZE\<rparr>;
        let x = x\<lparr>bg_free_blocks_count := word_of_nat BLOCKS_PER_GROUP,
                  bg_free_inodes_count := word_of_nat (INODES_PER_GROUP - 1),
                  bg_used_dirs_count := 0\<rparr>;
        let sb = \<lparr>sb_super = s, sb_descs = (sb_descs sb)(0 := x), desc_table = desc_table sb @ [0]\<rparr>;
        Some (sb, super_flush sb d)
      }
      else if s_state (sb_super sb) = NORMAL then do {
        n \<leftarrow> num_block_groups (sb_super sb);
        Some (sb\<lparr>desc_table := desc_table sb @ [0..<unat n]\<rparr>, d)
      }
      else None)"

definition SuperBlock_new :: "disk \<Rightarrow> (super_block \<times> disk) option" where
  "SuperBlock_new d = do {
     data \<leftarrow> disk_read 0 BLOCK_SIZE d;
     init_super_block
       \<lparr>sb_super = get_super_at data 0,
        sb_descs = (\<lambda>k. get_desc_at data (sizeof_super_block + k * sizeof_group_desc)),
        desc_table = []\<rparr> d
   }"

definition get_group_desc :: "super_block \<Rightarrow> nat \<Rightarrow> nat option" where
  "get_group_desc sb index = (if index \<ge> length (desc_table sb) then None else Some (desc_table sb ! index))"

definition put_group_desc :: "super_block \<Rightarrow> nat \<Rightarrow> super_block" where
  "put_group_desc sb slot = sb\<lparr>desc_table := desc_table sb @ [slot]\<rparr>"

text \<open>Dereferencing a descriptor pointer: the slot has to lie inside the block.\<close>

definition desc_at :: "super_block \<Rightarrow> nat \<Rightarrow> ext2_group_desc option" where
  "desc_at sb slot = (if slot < NUM_DESC_SLOTS then Some (sb_descs sb slot) else None)"

definition desc_upd :: "super_block \<Rightarrow> nat \<Rightarrow> (ext2_group_desc \<Rightarrow> ext2_group_desc) \<Rightarrow> super_block option" where
  "desc_upd sb slot f = do {
     x \<leftarrow> desc_at sb slot;
     Some (sb\<lparr>sb_descs := (sb_descs sb)(slot := f x)\<rparr>)
   }"

section \<open>BitmapBlock\<close>

record bitmap_block =
  bb_offset :: nat
  bb_bitmap :: bitmap

definition bitmap_of_bytes :: "bytes \<Rightarrow> bitmap" where
  "bitmap_of_bytes d = \<lparr>bm_words = BLOCK_SIZE div 4,
     bm_data = (\<lambda>k. if k < BLOCK_SIZE div 4 then get_u32 d (k * 4) else 0)\<rparr>"

definition bitmap_bytes :: "bitmap \<Rightarrow> bytes" where
  "bitmap_bytes b = clip BLOCK_SIZE (array_bytes 4 put_u32 (bm_data b))"

definition BitmapBlock_new :: "nat \<Rightarrow> bool \<Rightarrow> disk \<Rightarrow> bitmap_block option" where
  "BitmapBlock_new off alloc d = do {
     data \<leftarrow> block_data off alloc d;
     Some \<lparr>bb_offset = off, bb_bitmap = bitmap_of_bytes data\<rparr>
   }"

definition alloc_new :: "bitmap_block \<Rightarrow> (int \<times> bitmap_block) option" where
  "alloc_new bb = do {
     i \<leftarrow> bitmap_find (BLOCK_SIZE * 8) (bb_bitmap bb);
     if i < 0 then Some (i, bb)
     else do {
       b \<leftarrow> bitmap_set (nat i) (bb_bitmap bb);
       Some (i, bb\<lparr>bb_bitmap := b\<rparr>)
     }
   }"

definition bitmap_block_flush :: "bitmap_block \<Rightarrow> disk \<Rightarrow> disk" where
  "bitmap_block_flush bb d = snd (disk_write (bb_offset bb) BLOCK_SIZE (bitmap_bytes (bb_bitmap bb)) d)"

section \<open>InodeTableBlock\<close>

record inode_table_block =
  itb_offset :: nat
  itb_inodes :: "nat \<Rightarrow> ext2_inode"

definition InodeTableBlock_new :: "nat \<Rightarrow> disk \<Rightarrow> inode_table_block option" where
  "InodeTableBlock_new off d = do {
     data \<leftarrow> disk_read off BLOCK_SIZE d;
     Some \<lparr>itb_offset = off, itb_inodes = (\<lambda>k. get_inode_at data (k * sizeof_inode))\<rparr>
   }"

definition inode_table_bytes :: "inode_table_block \<Rightarrow> bytes" where
  "inode_table_bytes t = clip BLOCK_SIZE (array_bytes sizeof_inode put_inode (itb_inodes t))"

definition inode_table_flush :: "inode_table_block \<Rightarrow> disk \<Rightarrow> disk" where
  "inode_table_flush t d = snd (disk_write (itb_offset t) BLOCK_SIZE (inode_table_bytes t) d)"

section \<open>BlockGroup\<close>

record block_group =
  grp_desc :: nat
  block_bitmap :: bitmap_block
  inode_bitmap :: bitmap_block
  inode_table :: "(u32 \<times> inode_table_block) list"

definition BlockGroup_new :: "nat option \<Rightarrow> bool \<Rightarrow> super_block \<Rightarrow> disk \<Rightarrow> block_group option" where
  "BlockGroup_new desc alloc sb d = do {
     slot \<leftarrow> desc;
     x \<leftarrow> desc_at sb slot;
     bb \<leftarrow> BitmapBlock_new (unat (bg_block_bitmap x)) alloc d;
     ib \<leftarrow> BitmapBlock_new (unat (bg_inode_bitmap x)) alloc d;
     Some \<lparr>grp_desc = slot, block_bitmap = bb, inode_bitmap = ib, inode_table = []\<rparr>
   }"

definition group_flush :: "block_group \<Rightarrow> disk \<Rightarrow> disk" where
  "group_flush g d =
     fold (\<lambda>(_, t). inode_table_flush t) (inode_table g)
       (bitmap_block_flush (inode_bitmap g) (bitmap_block_flush (block_bitmap g) d))"

definition inode_block_offset :: "block_group \<Rightarrow> u32 \<Rightarrow> nat" where
  "inode_block_offset g inode_block_index =
     bb_offset (block_bitmap g) + unat ((inode_block_index + 1) * word_of_nat BLOCK_SIZE)"

definition data_block_offset :: "block_group \<Rightarrow> u32 \<Rightarrow> nat" where
  "data_block_offset g data_block_index =
     bb_offset (block_bitmap g) + NUM_INODE_TABLE_BLOCKS * BLOCK_SIZE
       + unat (data_block_index * word_of_nat BLOCK_SIZE)"

text \<open>\<open>get_inode\<close>: the flag it returns, and the group with the table block loaded.\<close>

definition group_get_inode :: "u32 \<Rightarrow> block_group \<Rightarrow> disk \<Rightarrow> (bool \<times> block_group) option" where
  "group_get_inode index g d = do {
     t \<leftarrow> bitmap_test (unat index) (bb_bitmap (inode_bitmap g));
     if \<not> t then Some (False, g)
     else do {
       let block_index = index div word_of_nat INODES_PER_BLOCK;
       tab \<leftarrow> (case map_of (inode_table g) block_index of
                None \<Rightarrow> do {
                  x \<leftarrow> InodeTableBlock_new (inode_block_offset g block_index) d;
                  Some (omap_put block_index x (inode_table g))
                }
              | Some _ \<Rightarrow> Some (inode_table g));
       Some (True, g\<lparr>inode_table := tab\<rparr>)
     }
   }"

text \<open>Dereferencing the inode pointer that \<open>get_inode\<close> hands out, for reading and for writing.\<close>

definition group_inode :: "block_group \<Rightarrow> u32 \<Rightarrow> ext2_inode option" where
  "group_inode g index = do {
     x \<leftarrow> map_of (inode_table g) (index div word_of_nat INODES_PER_BLOCK);
     Some (itb_inodes x (unat (index mod word_of_nat INODES_PER_BLOCK)))
   }"

definition group_put_inode :: "block_group \<Rightarrow> u32 \<Rightarrow> ext2_inode \<Rightarrow> block_group option" where
  "group_put_inode g index v = do {
     x \<leftarrow> map_of (inode_table g) (index div word_of_nat INODES_PER_BLOCK);
     Some (g\<lparr>inode_table := omap_put (index div word_of_nat INODES_PER_BLOCK)
              (x\<lparr>itb_inodes := (itb_inodes x)(unat (index mod word_of_nat INODES_PER_BLOCK) := v)\<rparr>)
              (inode_table g)\<rparr>)
   }"

definition zero_inode :: ext2_inode where
  "zero_inode = \<lparr>i_mode = 0, i_uid = 0, i_size = 0, i_atime = 0, i_ctime = 0, i_mtime = 0,
     i_dtime = 0, i_gid = 0, i_links_count = 0, i_blocks = 0, i_flags = 0, i_osd1 = 0,
     i_block = (\<lambda>_. 0), i_generation = 0, i_file_acl = 0, i_dir_acl = 0, i_faddr = 0,
     i_osd2 = (\<lambda>_. 0)\<rparr>"

definition group_get_block :: "u32 \<Rightarrow> block_group \<Rightarrow> store \<Rightarrow> (addr option \<times> store) option" where
  "group_get_block index g st = do {
     t \<leftarrow> bitmap_test (unat index) (bb_bitmap (block_bitmap g));
     if \<not> t then Some (None, st)
     else do {
       (a, st) \<leftarrow> block_new (data_block_offset g index) False st;
       Some (Some a, st)
     }
   }"

definition group_alloc_inode ::
  "u32 \<Rightarrow> block_group \<Rightarrow> super_block \<Rightarrow> disk \<Rightarrow> (u32 option \<times> block_group \<times> super_block) option" where
  "group_alloc_inode mode g sb d = do {
     (ret, ib) \<leftarrow> alloc_new (inode_bitmap g);
     let g = g\<lparr>inode_bitmap := ib\<rparr>;
     if ret = -1 then Some (None, g, sb)
     else do {
       sb \<leftarrow> desc_upd sb (grp_desc g) (\<lambda>x. x\<lparr>bg_free_inodes_count := bg_free_inodes_count x - 1\<rparr>);
       sb \<leftarrow> (if S_ISDIR mode
              then desc_upd sb (grp_desc g) (\<lambda>x. x\<lparr>bg_used_dirs_count := bg_used_dirs_count x + 1\<rparr>)
              else Some sb);
       let index = word_of_int ret;
       (ok, g) \<leftarrow> group_get_inode index g d;
       defined_if ok;
       g \<leftarrow> group_put_inode g index (zero_inode\<lparr>i_mode := ucast mode\<rparr>);
       Some (Some index, g, sb)
     }
   }"

definition group_alloc_block ::
  "block_group \<Rightarrow> super_block \<Rightarrow> store \<Rightarrow> ((addr \<times> u32) option \<times> block_group \<times> super_block \<times> store) option" where
  "group_alloc_block g sb st = do {
     (ret, bb) \<leftarrow> alloc_new (block_bitmap g);
     let g = g\<lparr>block_bitmap := bb\<rparr>;
     if ret = -1 then Some (None, g, sb, st)
     else do {
       sb \<leftarrow> desc_upd sb (grp_desc g) (\<lambda>x. x\<lparr>bg_free_blocks_count := bg_free_blocks_count x - 1\<rparr>);
       let index = word_of_int ret;
       (a, st) \<leftarrow> block_new (data_block_offset g index) True st;
       Some (Some (a, index), g, sb, st)
     }
   }"

definition group_free_inode ::
  "u32 \<Rightarrow> block_group \<Rightarrow> super_block \<Rightarrow> disk \<Rightarrow> (bool \<times> block_group \<times> super_block) option" where
  "group_free_inode index g sb d = do {
     (ok, g) \<leftarrow> group_get_inode index g d;
     if \<not> ok then Some (False, g, sb)
     else do {
       inode \<leftarrow> group_inode g index;
       b \<leftarrow> bitmap_clear (unat index) (bb_bitmap (inode_bitmap g));
       let g = g\<lparr>inode_bitmap := (inode_bitmap g)\<lparr>bb_bitmap := b\<rparr>\<rparr>;
       sb \<leftarrow> desc_upd sb (grp_desc g) (\<lambda>x. x\<lparr>bg_free_inodes_count := bg_free_inodes_count x + 1\<rparr>);
       sb \<leftarrow> (if S_ISDIR (i_mode inode)
              then desc_upd sb (grp_desc g) (\<lambda>x. x\<lparr>bg_used_dirs_count := bg_used_dirs_count x - 1\<rparr>)
              else Some sb);
       Some (True, g, sb)
     }
   }"

definition group_free_block ::
  "u32 \<Rightarrow> block_group \<Rightarrow> super_block \<Rightarrow> (bool \<times> block_group \<times> super_block) option" where
  "group_free_block index g sb = do {
     t \<leftarrow> bitmap_test (unat index) (bb_bitmap (block_bitmap g));
     if \<not> t then Some (False, g, sb)
     else do {
       b \<leftarrow> bitmap_clear (unat index) (bb_bitmap (block_bitmap g));
       let g = g\<lparr>block_bitmap := (block_bitmap g)\<lparr>bb_bitmap := b\<rparr>\<rparr>;
       sb \<leftarrow> desc_upd sb (grp_desc g) (\<lambda>x. x\<lparr>bg_free_blocks_count := bg_free_blocks_count x + 1\<rparr>);
       Some (True, g, sb)
     }
   }"

section \<open>Allocation in a bitmap block\<close>

lemma bm_used_iff: "i \<in> bm_used b \<longleftrightarrow> i < bm_cap b \<and> bit_at b i"
  by (simp add: bm_used_def)

lemma alloc_new_cases:
  assumes "bm_words (bb_bitmap bb) = 1024"
  obtains (full) "bm_used (bb_bitmap bb) = {..<32768}" "alloc_new bb = Some (-1, bb)"
  | (ok) i b where "i < 32768" "i \<notin> bm_used (bb_bitmap bb)" "{..<i} \<subseteq> bm_used (bb_bitmap bb)"
      "alloc_new bb = Some (int i, bb\<lparr>bb_bitmap := b\<rparr>)" "bm_words b = 1024"
      "bm_used b = insert i (bm_used (bb_bitmap bb))" "bitmap_set i (bb_bitmap bb) = Some b"
proof -
  let ?b = "bb_bitmap bb"
  have cap: "bm_cap ?b = 32768" using assms by (simp add: bm_cap_def)
  have find: "bitmap_find (BLOCK_SIZE * 8) ?b = Some (first_clear ?b 32768)"
    using bitmap_find_eq [of 32768 ?b] cap by simp
  show ?thesis
  proof (cases "first_clear ?b 32768 < 0")
    case True
    then have "first_clear ?b 32768 = -1" "bm_used ?b = {..<32768}"
      using first_clear_neg [of ?b 32768] cap by (auto simp: first_clear_def bm_used_def split: if_splits)
    then show ?thesis using find by (intro full) (simp_all add: alloc_new_def)
  next
    case False
    then obtain i where i: "first_clear ?b 32768 = int i" by (metis nonneg_int_cases not_less)
    note c = first_clear_pos [OF i]
    show ?thesis
    proof (cases rule: bitmap_set_cases [of ?b i])
      case out
      then show ?thesis using c(1) cap by simp
    next
      case (ok b)
      have "bm_used b = insert i (bm_used ?b)"
        using bm.set1_D(2) [OF ok(2,1)] .
      then show ?thesis
        using find i c cap ok assms by (intro that(2) [of i b]) (auto simp: alloc_new_def bm_used_def)
    qed
  qed
qed

lemma bitmap_clear_used:
  assumes "i \<in> bm_used b"
  obtains b' where "bitmap_clear i b = Some b'" "bm_words b' = bm_words b" "bm_used b' = bm_used b - {i}"
proof (cases rule: bitmap_clear_cases [of b i])
  case out
  then show ?thesis using assms by (simp add: bm_used_def)
next
  case (ok b')
  then show ?thesis using bm.clear1_D(2) [OF ok(2,1)] by (intro that [of b'])
qed

section \<open>The contract of an allocator\<close>

text \<open>
  \<open>FileSystem\<close> allocates and frees inodes and blocks through the block groups in the same way: a
  request, which may carry an argument, gives an unused number, or nothing when all numbers are in
  use, and freeing tells whether the number was in use. \<open>legal\<close> replays a sequence of requests with their answers on the
  set of numbers in use, and is \<open>None\<close> when an answer breaks this contract.
\<close>

datatype 'm alloc_op = Alloc 'm | Free nat
datatype alloc_answer = Got "nat option" | Freed bool

fun legal :: "nat \<Rightarrow> ('m alloc_op \<times> alloc_answer) list \<Rightarrow> nat set \<Rightarrow> nat set option" where
  "legal cap [] U = Some U"
| "legal cap ((Alloc m, Got None) # xs) U = (if U = {..<cap} then legal cap xs U else None)"
| "legal cap ((Alloc m, Got (Some i)) # xs) U =
     (if i < cap \<and> i \<notin> U then legal cap xs (insert i U) else None)"
| "legal cap ((Free i, Freed r) # xs) U = (if r = (i \<in> U) then legal cap xs (U - {i}) else None)"
| "legal cap _ U = None"

fun alloc_run :: "('m \<Rightarrow> 's \<Rightarrow> (nat option \<times> 's) option) \<Rightarrow> (nat \<Rightarrow> 's \<Rightarrow> (bool \<times> 's) option) \<Rightarrow>
    'm alloc_op list \<Rightarrow> 's \<Rightarrow> (alloc_answer list \<times> 's) option" where
  "alloc_run al fr [] s = Some ([], s)"
| "alloc_run al fr (Alloc m # xs) s = do {
     (r, s) \<leftarrow> al m s;
     (rs, s) \<leftarrow> alloc_run al fr xs s;
     Some (Got r # rs, s)
   }"
| "alloc_run al fr (Free i # xs) s = do {
     (r, s) \<leftarrow> fr i s;
     (rs, s) \<leftarrow> alloc_run al fr xs s;
     Some (Freed r # rs, s)
   }"

locale allocator =
  fixes ok :: "'s \<Rightarrow> bool"
    and used :: "'s \<Rightarrow> nat set"
    and cap :: nat
    and al :: "'m \<Rightarrow> 's \<Rightarrow> (nat option \<times> 's) option"
    and fr :: "nat \<Rightarrow> 's \<Rightarrow> (bool \<times> 's) option"
  assumes used_cap: "ok s \<Longrightarrow> used s \<subseteq> {..<cap}"
    and al_full: "ok s \<Longrightarrow> used s = {..<cap} \<Longrightarrow> \<exists>s'. al m s = Some (None, s') \<and> ok s' \<and> used s' = used s"
    and al_some: "ok s \<Longrightarrow> used s \<noteq> {..<cap} \<Longrightarrow>
      \<exists>i s'. al m s = Some (Some i, s') \<and> i < cap \<and> i \<notin> used s \<and> ok s' \<and> used s' = insert i (used s)"
    and fr_used: "ok s \<Longrightarrow> i < cap \<Longrightarrow>
      \<exists>s'. fr i s = Some (i \<in> used s, s') \<and> ok s' \<and> used s' = used s - {i}"
begin

lemma run_legal:
  assumes "ok s" "\<forall>i. Free i \<in> set xs \<longrightarrow> i < cap"
  shows "\<exists>rs s'. alloc_run al fr xs s = Some (rs, s') \<and> ok s' \<and> legal cap (zip xs rs) (used s) = Some (used s')"
  using assms
proof (induction xs arbitrary: s)
  case (Cons x xs)
  show ?case
  proof (cases x)
    case (Alloc m)
    show ?thesis
    proof (cases "used s = {..<cap}")
      case True
      from al_full [OF Cons.prems(1) this, of m] obtain s1 where s1: "al m s = Some (None, s1)" "ok s1" "used s1 = used s" by blast
      with Cons.IH [OF s1(2)] Cons.prems(2) show ?thesis using True by (fastforce simp: Alloc)
    next
      case False
      from al_some [OF Cons.prems(1) this, of m] obtain i s1 where
        s1: "al m s = Some (Some i, s1)" "i < cap" "i \<notin> used s" "ok s1" "used s1 = insert i (used s)" by blast
      with Cons.IH [OF s1(4)] Cons.prems(2) show ?thesis by (fastforce simp: Alloc)
    qed
  next
    case (Free i)
    with Cons.prems(2) have "i < cap" by simp
    from fr_used [OF Cons.prems(1) this] obtain s1 where
      s1: "fr i s = Some (i \<in> used s, s1)" "ok s1" "used s1 = used s - {i}" by blast
    with Cons.IH [OF s1(2)] Cons.prems(2) show ?thesis by (fastforce simp: Free)
  qed
qed simp

end

text \<open>
  An allocator that also keeps the set of the numbers allocated with an argument of a certain kind;
  \<open>replay\<close> is that set after a sequence of requests with their answers.
\<close>

fun replay :: "('m \<Rightarrow> bool) \<Rightarrow> ('m alloc_op \<times> alloc_answer) list \<Rightarrow> nat set \<Rightarrow> nat set" where
  "replay P [] D = D"
| "replay P ((Alloc m, Got (Some i)) # xs) D = replay P xs (if P m then insert i D else D)"
| "replay P ((Free i, _) # xs) D = replay P xs (D - {i})"
| "replay P (_ # xs) D = replay P xs D"

locale kind_allocator = allocator ok used cap al fr
  for ok :: "'s \<Rightarrow> bool" and used cap and al :: "'m \<Rightarrow> 's \<Rightarrow> (nat option \<times> 's) option" and fr +
  fixes kind :: "'m \<Rightarrow> bool" and marked_set :: "'s \<Rightarrow> nat set"
  assumes al_marks: "ok s \<Longrightarrow> al m s = Some (r, s') \<Longrightarrow> marked_set s' = replay kind [(Alloc m, Got r)] (marked_set s)"
    and fr_marks: "ok s \<Longrightarrow> i < cap \<Longrightarrow> fr i s = Some (f, s') \<Longrightarrow> marked_set s' = marked_set s - {i}"
begin

lemma run_ok: "ok s \<Longrightarrow> \<exists>r s'. al m s = Some (r, s') \<and> ok s'"
  using al_full [of s m] al_some [of s m] by metis

lemma run_marks:
  assumes "ok s" "\<forall>i. Free i \<in> set xs \<longrightarrow> i < cap" "alloc_run al fr xs s = Some (rs, s')"
  shows "marked_set s' = replay kind (zip xs rs) (marked_set s)"
  using assms
proof (induction xs arbitrary: s rs)
  case (Cons x xs)
  show ?case
  proof (cases x)
    case (Alloc m)
    obtain r s1 where s1: "al m s = Some (r, s1)" "ok s1" using run_ok [OF Cons.prems(1), of m] by blast
    then obtain rs1 where r: "alloc_run al fr xs s1 = Some (rs1, s')" "rs = Got r # rs1" using Cons.prems(3) by (auto simp: Alloc split: bind_splits)
    have "marked_set s' = replay kind (zip xs rs1) (marked_set s1)" using Cons.IH [OF s1(2) _ r(1)] Cons.prems(2) by simp
    then show ?thesis using al_marks [OF Cons.prems(1) s1(1)] by (cases r) (simp_all add: Alloc r(2))
  next
    case (Free i)
    then have i: "i < cap" using Cons.prems(2) by simp
    from fr_used [OF Cons.prems(1) this] obtain s1 where s1: "fr i s = Some (i \<in> used s, s1)" "ok s1" by blast
    then obtain rs1 where r: "alloc_run al fr xs s1 = Some (rs1, s')" "rs = Freed (i \<in> used s) # rs1" using Cons.prems(3) by (auto simp: Free split: bind_splits)
    have "marked_set s' = replay kind (zip xs rs1) (marked_set s1)" using Cons.IH [OF s1(2) _ r(1)] Cons.prems(2) by simp
    then show ?thesis using fr_marks [OF Cons.prems(1) i s1(1)] by (simp add: Free r(2))
  qed
qed simp

end

section \<open>Blocks of a group\<close>

type_synonym group_state = "block_group \<times> super_block \<times> store"

definition blocks_ok :: "group_state \<Rightarrow> bool" where
  "blocks_ok = (\<lambda>(g, sb, st). bm_words (bb_bitmap (block_bitmap g)) = 1024 \<and> grp_desc g < NUM_DESC_SLOTS \<and>
     unat (bg_free_blocks_count (sb_descs sb (grp_desc g))) = bm.free_count (bb_bitmap (block_bitmap g)))"

definition blocks_used :: "group_state \<Rightarrow> nat set" where
  "blocks_used = (\<lambda>(g, sb, st). bm_used (bb_bitmap (block_bitmap g)))"

definition blocks_alloc :: "group_state \<Rightarrow> (nat option \<times> group_state) option" where
  "blocks_alloc = (\<lambda>(g, sb, st). do {
     (r, g, sb, st) \<leftarrow> group_alloc_block g sb st;
     Some (map_option (unat \<circ> snd) r, g, sb, st)
   })"

definition blocks_free :: "nat \<Rightarrow> group_state \<Rightarrow> (bool \<times> group_state) option" where
  "blocks_free i = (\<lambda>(g, sb, st). do {
     (r, g, sb) \<leftarrow> group_free_block (word_of_nat i) g sb;
     Some (r, g, sb, st)
   })"

lemma free_count_bound: "bm_words b = 1024 \<Longrightarrow> bm.free_count b \<le> 32768"
proof -
  assume "bm_words b = 1024"
  then have "card ({..<bm_cap b} - bm_used b) \<le> card {..<32768::nat}"
    by (intro card_mono) (auto simp: bm_cap_def)
  then show ?thesis by (simp add: bm.free_count_def)
qed

lemma unat_dec16: "unat (w :: u16) = Suc n \<Longrightarrow> unat (w - 1) = n"
  by (metis One_nat_def Suc_neq_Zero diff_Suc_1 unat_eq_zero unat_minus_one)

lemma unat_inc16: "unat (w :: u16) = n \<Longrightarrow> n \<le> 32767 \<Longrightarrow> unat (w + 1) = Suc n"
  by (simp add: unat_word_ariths)

definition desc_set :: "super_block \<Rightarrow> nat \<Rightarrow> (ext2_group_desc \<Rightarrow> ext2_group_desc) \<Rightarrow> super_block" where
  "desc_set sb k f = sb\<lparr>sb_descs := (sb_descs sb)(k := f (sb_descs sb k))\<rparr>"

lemma desc_upd_eq: "k < NUM_DESC_SLOTS \<Longrightarrow> desc_upd sb k f = Some (desc_set sb k f)"
  by (simp add: desc_upd_def desc_at_def desc_set_def)

lemma desc_set_simps [simp]:
  "sb_super (desc_set sb k f) = sb_super sb" "desc_table (desc_set sb k f) = desc_table sb"
  "sb_descs (desc_set sb k f) k = f (sb_descs sb k)"
  "j \<noteq> k \<Longrightarrow> sb_descs (desc_set sb k f) j = sb_descs sb j"
  by (simp_all add: desc_set_def)

definition with_blocks :: "bitmap \<Rightarrow> block_group \<Rightarrow> block_group" where
  "with_blocks b g = g\<lparr>block_bitmap := (block_bitmap g)\<lparr>bb_bitmap := b\<rparr>\<rparr>"

lemma with_blocks_simps [simp]:
  "grp_desc (with_blocks b g) = grp_desc g" "bb_bitmap (block_bitmap (with_blocks b g)) = b"
  "bb_offset (block_bitmap (with_blocks b g)) = bb_offset (block_bitmap g)"
  "inode_bitmap (with_blocks b g) = inode_bitmap g" "inode_table (with_blocks b g) = inode_table g"
  "data_block_offset (with_blocks b g) = data_block_offset g"
  "inode_block_offset (with_blocks b g) = inode_block_offset g"
  by (simp_all add: with_blocks_def data_block_offset_def inode_block_offset_def fun_eq_iff)

lemma group_alloc_block_cases:
  assumes "blocks_ok (g, sb, st)"
  obtains (full) "blocks_used (g, sb, st) = {..<32768}" "group_alloc_block g sb st = Some (None, g, sb, st)"
  | (ok) i a b sb' st' where "i < 32768" "i \<notin> blocks_used (g, sb, st)" "{..<i} \<subseteq> blocks_used (g, sb, st)"
      "group_alloc_block g sb st = Some (Some (a, word_of_nat i), with_blocks b g, sb', st')"
      "sb' = desc_set sb (grp_desc g) (\<lambda>x. x\<lparr>bg_free_blocks_count := bg_free_blocks_count x - 1\<rparr>)"
      "block_new (data_block_offset g (word_of_nat i)) True st = Some (a, st')"
      "blocks_ok (with_blocks b g, sb', st')" "bm_used b = insert i (blocks_used (g, sb, st))" "bm_words b = 1024"
proof -
  let ?b = "bb_bitmap (block_bitmap g)"
  have w: "bm_words ?b = 1024" and s: "grp_desc g < NUM_DESC_SLOTS"
    and n: "unat (bg_free_blocks_count (sb_descs sb (grp_desc g))) = bm.free_count ?b"
    using assms by (auto simp: blocks_ok_def)
  show ?thesis
  proof (cases rule: alloc_new_cases [OF w])
    case 1
    show ?thesis by (rule full) (use 1 in \<open>simp_all add: blocks_used_def group_alloc_block_def Let_def\<close>)
  next
    case (2 i b)
    have "bm.free_count ?b = Suc (bm.free_count b)"
      using bm.free_count_set1 [OF _ 2(2,7)] 2(1) w by (simp add: bm_cap_def)
    then have n': "unat (bg_free_blocks_count (sb_descs sb (grp_desc g)) - 1) = bm.free_count b"
      using n by (intro unat_dec16) simp
    obtain a st' where a: "block_new (data_block_offset g (word_of_nat i)) True st = Some (a, st')"
      by (auto simp: block_new_def block_data_def)
    have wb: "g\<lparr>block_bitmap := (block_bitmap g)\<lparr>bb_bitmap := b\<rparr>\<rparr> = with_blocks b g" by (simp add: with_blocks_def)
    show ?thesis
    proof (rule ok [of i a b "desc_set sb (grp_desc g) (\<lambda>x. x\<lparr>bg_free_blocks_count := bg_free_blocks_count x - 1\<rparr>)" st'])
      show "group_alloc_block g sb st = Some (Some (a, word_of_nat i), with_blocks b g,
          desc_set sb (grp_desc g) (\<lambda>x. x\<lparr>bg_free_blocks_count := bg_free_blocks_count x - 1\<rparr>), st')"
        using s a unfolding group_alloc_block_def 2(4) by (simp add: wb desc_upd_eq)
    qed (use 2 s w n' a in \<open>simp_all add: blocks_used_def blocks_ok_def\<close>)
  qed
qed

lemma group_free_block_cases:
  assumes "blocks_ok (g, sb, st)" "i < 32768"
  obtains (unused) "i \<notin> blocks_used (g, sb, st)" "group_free_block (word_of_nat i) g sb = Some (False, g, sb)"
  | (ok) b sb' where "i \<in> blocks_used (g, sb, st)"
      "group_free_block (word_of_nat i) g sb = Some (True, with_blocks b g, sb')"
      "sb' = desc_set sb (grp_desc g) (\<lambda>x. x\<lparr>bg_free_blocks_count := bg_free_blocks_count x + 1\<rparr>)"
      "blocks_ok (with_blocks b g, sb', st)" "bm_used b = blocks_used (g, sb, st) - {i}" "bm_words b = 1024"
proof -
  let ?b = "bb_bitmap (block_bitmap g)"
  have w: "bm_words ?b = 1024" and s: "grp_desc g < NUM_DESC_SLOTS"
    and n: "unat (bg_free_blocks_count (sb_descs sb (grp_desc g))) = bm.free_count ?b"
    using assms by (auto simp: blocks_ok_def)
  have u: "unat (word_of_nat i :: u32) = i" using assms(2) by (simp add: unat_of_nat)
  have t: "bitmap_test i ?b = Some (i \<in> bm_used ?b)"
    using assms(2) w by (simp add: bitmap_test_eq bm_used_def bm_cap_def)
  show ?thesis
  proof (cases "i \<in> bm_used ?b")
    case False
    then show ?thesis using t u by (intro unused) (simp_all add: blocks_used_def group_free_block_def)
  next
    case True
    then obtain b where b: "bitmap_clear i ?b = Some b" "bm_words b = bm_words ?b" "bm_used b = bm_used ?b - {i}"
      by (rule bitmap_clear_used)
    have "bm.free_count b = Suc (bm.free_count ?b)" using bm.free_count_clear1 [OF True b(1)] .
    moreover have "bm.free_count b \<le> 32768" using free_count_bound b(2) w by simp
    ultimately have n': "unat (bg_free_blocks_count (sb_descs sb (grp_desc g)) + 1) = bm.free_count b"
      using n unat_inc16 [OF n] by simp
    have wb: "g\<lparr>block_bitmap := (block_bitmap g)\<lparr>bb_bitmap := b\<rparr>\<rparr> = with_blocks b g" by (simp add: with_blocks_def)
    show ?thesis
    proof (rule ok [of b "desc_set sb (grp_desc g) (\<lambda>x. x\<lparr>bg_free_blocks_count := bg_free_blocks_count x + 1\<rparr>)"])
      show "group_free_block (word_of_nat i) g sb = Some (True, with_blocks b g,
          desc_set sb (grp_desc g) (\<lambda>x. x\<lparr>bg_free_blocks_count := bg_free_blocks_count x + 1\<rparr>))"
        using s True unfolding group_free_block_def u t by (simp add: b(1) wb desc_upd_eq)
    qed (use True b s w n' in \<open>simp_all add: blocks_used_def blocks_ok_def\<close>)
  qed
qed

interpretation blocks: allocator blocks_ok blocks_used 32768 "\<lambda>_::unit. blocks_alloc" blocks_free
proof
  fix s i
  assume ok: "blocks_ok s"
  obtain g sb st where s: "s = (g, sb, st)" by (cases s)
  note ok = ok [unfolded s]
  have used: "blocks_used (with_blocks b g, sb', st') = bm_used b" for b sb' st'
    by (simp add: blocks_used_def)
  show "blocks_used s \<subseteq> {..<32768}"
    using ok by (auto simp: s blocks_used_def blocks_ok_def bm_used_def bm_cap_def)
  show "\<exists>s'. blocks_alloc s = Some (None, s') \<and> blocks_ok s' \<and> blocks_used s' = blocks_used s"
    if "blocks_used s = {..<32768}"
    by (cases rule: group_alloc_block_cases [OF ok]) (use ok that in \<open>auto simp: s blocks_alloc_def\<close>)
  show "\<exists>i s'. blocks_alloc s = Some (Some i, s') \<and> i < 32768 \<and> i \<notin> blocks_used s \<and> blocks_ok s' \<and>
      blocks_used s' = insert i (blocks_used s)" if "blocks_used s \<noteq> {..<32768}"
    by (cases rule: group_alloc_block_cases [OF ok]) (use that in \<open>simp_all add: s blocks_alloc_def unat_of_nat used\<close>)
  show "\<exists>s'. blocks_free i s = Some (i \<in> blocks_used s, s') \<and> blocks_ok s' \<and> blocks_used s' = blocks_used s - {i}"
    if "i < 32768"
    by (cases rule: group_free_block_cases [OF ok that]) (use ok in \<open>simp_all add: s blocks_free_def used\<close>)
qed

section \<open>Inodes of a group\<close>

definition inodes_ok :: "disk \<Rightarrow> block_group \<times> super_block \<Rightarrow> bool" where
  "inodes_ok d = (\<lambda>(g, sb). bm_words (bb_bitmap (inode_bitmap g)) = 1024 \<and> grp_desc g < NUM_DESC_SLOTS \<and>
     bb_offset (block_bitmap g) + (NUM_INODE_TABLE_BLOCKS + 1) * BLOCK_SIZE \<le> dk_size d \<and>
     unat (bg_free_inodes_count (sb_descs sb (grp_desc g))) = bm.free_count (bb_bitmap (inode_bitmap g)))"

definition inodes_used :: "block_group \<times> super_block \<Rightarrow> nat set" where
  "inodes_used = (\<lambda>(g, sb). bm_used (bb_bitmap (inode_bitmap g)))"

definition inodes_alloc :: "u32 \<Rightarrow> disk \<Rightarrow> block_group \<times> super_block \<Rightarrow> (nat option \<times> block_group \<times> super_block) option" where
  "inodes_alloc mode d = (\<lambda>(g, sb). do {
     (r, g, sb) \<leftarrow> group_alloc_inode mode g sb d;
     Some (map_option unat r, g, sb)
   })"

definition inodes_free :: "disk \<Rightarrow> nat \<Rightarrow> block_group \<times> super_block \<Rightarrow> (bool \<times> block_group \<times> super_block) option" where
  "inodes_free d i = (\<lambda>(g, sb). do {
     (r, g, sb) \<leftarrow> group_free_inode (word_of_nat i) g sb d;
     Some (r, g, sb)
   })"

definition with_inodes :: "bitmap \<Rightarrow> (u32 \<times> inode_table_block) list \<Rightarrow> block_group \<Rightarrow> block_group" where
  "with_inodes b tab g = g\<lparr>inode_bitmap := (inode_bitmap g)\<lparr>bb_bitmap := b\<rparr>, inode_table := tab\<rparr>"

lemma with_inodes_simps [simp]:
  "grp_desc (with_inodes b t g) = grp_desc g" "bb_bitmap (inode_bitmap (with_inodes b t g)) = b"
  "bb_offset (inode_bitmap (with_inodes b t g)) = bb_offset (inode_bitmap g)"
  "block_bitmap (with_inodes b t g) = block_bitmap g" "inode_table (with_inodes b t g) = t"
  "data_block_offset (with_inodes b t g) = data_block_offset g"
  "inode_block_offset (with_inodes b t g) = inode_block_offset g"
  by (simp_all add: with_inodes_def data_block_offset_def inode_block_offset_def fun_eq_iff)

lemma inode_block_offset_eq:
  assumes "i < 32768"
  shows "inode_block_offset g (word_of_nat i div 32) = bb_offset (block_bitmap g) + (i div 32 + 1) * BLOCK_SIZE"
proof -
  define n where "n = (i div 32 + 1) * 4096"
  have "i div 32 < 1024" using assms by (simp add: less_mult_imp_div_less)
  then have n: "n < 2 ^ 32" by (simp add: n_def)
  have "(word_of_nat i div 32 + 1 :: u32) * 4096 = word_of_nat n"
    using assms by (simp add: n_def word_arith_nat_div unat_of_nat)
  then have "unat ((word_of_nat i div 32 + 1 :: u32) * 4096) = n"
    using n by (simp add: unat_of_nat)
  then show ?thesis by (simp add: inode_block_offset_def n_def)
qed

text \<open>Loading the table block of an inode that is in use.\<close>

lemma group_get_inode_used:
  assumes "i \<in> bm_used (bb_bitmap (inode_bitmap g))" "i < 32768"
    and "bb_offset (block_bitmap g) + (NUM_INODE_TABLE_BLOCKS + 1) * BLOCK_SIZE \<le> dk_size d"
  obtains tab where "group_get_inode (word_of_nat i) g d = Some (True, g\<lparr>inode_table := tab\<rparr>)"
    "map_of tab (word_of_nat i div 32) \<noteq> None"
proof -
  have u: "unat (word_of_nat i :: u32) = i" using assms(2) by (simp add: unat_of_nat)
  have t: "bitmap_test i (bb_bitmap (inode_bitmap g)) = Some True"
    using assms(1) by (simp add: bitmap_test_eq bm_used_def)
  show ?thesis
  proof (cases "map_of (inode_table g) (word_of_nat i div 32)")
    case None
    have "i div 32 + 1 \<le> 1024" using assms(2) by (simp add: less_mult_imp_div_less Suc_le_eq)
    then have "(i div 32 + 1) * BLOCK_SIZE + BLOCK_SIZE \<le> (NUM_INODE_TABLE_BLOCKS + 1) * BLOCK_SIZE" by simp
    then have "inode_block_offset g (word_of_nat i div 32) + BLOCK_SIZE \<le> dk_size d"
      using assms(3) unfolding inode_block_offset_eq [OF assms(2)] by linarith
    then obtain x where x: "InodeTableBlock_new (inode_block_offset g (word_of_nat i div 32)) d = Some x"
      by (auto simp: InodeTableBlock_new_def disk_read_def)
    show ?thesis
      by (rule that [of "omap_put (word_of_nat i div 32) x (inode_table g)"])
        (use u t None x in \<open>simp_all add: group_get_inode_def\<close>)
  next
    case (Some x)
    show ?thesis
      by (rule that [of "inode_table g"]) (use u t Some in \<open>simp_all add: group_get_inode_def\<close>)
  qed
qed

lemma group_put_inode_Some:
  "map_of (inode_table g) (w div 32) \<noteq> None \<Longrightarrow>
   \<exists>t. group_put_inode g w v = Some (g\<lparr>inode_table := t\<rparr>) \<and> map_of t (w div 32) \<noteq> None"
  by (auto simp: group_put_inode_def)

definition count_dir :: "bool \<Rightarrow> nat \<Rightarrow> (u16 \<Rightarrow> u16) \<Rightarrow> super_block \<Rightarrow> super_block" where
  "count_dir dir k f sb = (if dir then desc_set sb k (\<lambda>x. x\<lparr>bg_used_dirs_count := f (bg_used_dirs_count x)\<rparr>) else sb)"

lemma count_dir_simps [simp]:
  "sb_super (count_dir dir k f sb) = sb_super sb" "desc_table (count_dir dir k f sb) = desc_table sb"
  "bg_free_inodes_count (sb_descs (count_dir dir k f sb) j) = bg_free_inodes_count (sb_descs sb j)"
  "bg_free_blocks_count (sb_descs (count_dir dir k f sb) j) = bg_free_blocks_count (sb_descs sb j)"
  by (auto simp: count_dir_def desc_set_def)

lemma group_alloc_inode_cases:
  assumes "inodes_ok d (g, sb)"
  obtains (full) "inodes_used (g, sb) = {..<32768}" "group_alloc_inode mode g sb d = Some (None, g, sb)"
  | (ok) i b tab sb' where "i < 32768" "i \<notin> inodes_used (g, sb)" "{..<i} \<subseteq> inodes_used (g, sb)"
      "group_alloc_inode mode g sb d = Some (Some (word_of_nat i), with_inodes b tab g, sb')"
      "sb' = count_dir (S_ISDIR mode) (grp_desc g) (\<lambda>n. n + 1)
         (desc_set sb (grp_desc g) (\<lambda>x. x\<lparr>bg_free_inodes_count := bg_free_inodes_count x - 1\<rparr>))"
      "inodes_ok d (with_inodes b tab g, sb')" "bm_used b = insert i (inodes_used (g, sb))"
proof -
  let ?b = "bb_bitmap (inode_bitmap g)"
  have w: "bm_words ?b = 1024" and s: "grp_desc g < NUM_DESC_SLOTS"
    and sz: "bb_offset (block_bitmap g) + (NUM_INODE_TABLE_BLOCKS + 1) * BLOCK_SIZE \<le> dk_size d"
    and n: "unat (bg_free_inodes_count (sb_descs sb (grp_desc g))) = bm.free_count ?b"
    using assms by (auto simp: inodes_ok_def)
  show ?thesis
  proof (cases rule: alloc_new_cases [OF w])
    case 1
    show ?thesis by (rule full) (use 1 in \<open>simp_all add: inodes_used_def group_alloc_inode_def Let_def\<close>)
  next
    case (2 i b)
    have "bm.free_count ?b = Suc (bm.free_count b)"
      using bm.free_count_set1 [OF _ 2(2,7)] 2(1) w by (simp add: bm_cap_def)
    then have n': "unat (bg_free_inodes_count (sb_descs sb (grp_desc g)) - 1) = bm.free_count b"
      using n by (intro unat_dec16) simp
    let ?g = "g\<lparr>inode_bitmap := (inode_bitmap g)\<lparr>bb_bitmap := b\<rparr>\<rparr>"
    obtain tab where tab: "group_get_inode (word_of_nat i) ?g d = Some (True, ?g\<lparr>inode_table := tab\<rparr>)"
      "map_of tab (word_of_nat i div 32) \<noteq> None"
      by (rule group_get_inode_used [of i ?g d]) (use 2 sz in simp_all)
    obtain tab' where tab': "group_put_inode (?g\<lparr>inode_table := tab\<rparr>) (word_of_nat i) (zero_inode\<lparr>i_mode := ucast mode\<rparr>)
        = Some (?g\<lparr>inode_table := tab'\<rparr>)"
      using group_put_inode_Some [of "?g\<lparr>inode_table := tab\<rparr>"] tab(2) by fastforce
    let ?sb1 = "desc_set sb (grp_desc g) (\<lambda>x. x\<lparr>bg_free_inodes_count := bg_free_inodes_count x - 1\<rparr>)"
    have wi: "?g\<lparr>inode_table := tab'\<rparr> = with_inodes b tab' g" by (simp add: with_inodes_def)
    have m: "int i \<noteq> -1" by simp
    show ?thesis
    proof (rule ok [of i b tab' "count_dir (S_ISDIR mode) (grp_desc g) (\<lambda>n. n + 1) ?sb1"])
      show "group_alloc_inode mode g sb d = Some (Some (word_of_nat i), with_inodes b tab' g,
          count_dir (S_ISDIR mode) (grp_desc g) (\<lambda>n. n + 1) ?sb1)"
        using s tab(1) tab' m unfolding group_alloc_inode_def 2(4) by (simp add: desc_upd_eq wi Let_def count_dir_def)
    qed (use 2 s w n' sz in \<open>simp_all add: inodes_used_def inodes_ok_def\<close>)
  qed
qed

lemma group_free_inode_cases:
  assumes "inodes_ok d (g, sb)" "i < 32768"
  obtains (unused) "i \<notin> inodes_used (g, sb)" "group_free_inode (word_of_nat i) g sb d = Some (False, g, sb)"
  | (ok) b tab sb' and v :: ext2_inode where "i \<in> inodes_used (g, sb)"
      "group_free_inode (word_of_nat i) g sb d = Some (True, with_inodes b tab g, sb')"
      "sb' = count_dir (S_ISDIR (i_mode v)) (grp_desc g) (\<lambda>n. n - 1)
         (desc_set sb (grp_desc g) (\<lambda>x. x\<lparr>bg_free_inodes_count := bg_free_inodes_count x + 1\<rparr>))"
      "inodes_ok d (with_inodes b tab g, sb')" "bm_used b = inodes_used (g, sb) - {i}"
proof -
  let ?b = "bb_bitmap (inode_bitmap g)"
  have w: "bm_words ?b = 1024" and s: "grp_desc g < NUM_DESC_SLOTS"
    and sz: "bb_offset (block_bitmap g) + (NUM_INODE_TABLE_BLOCKS + 1) * BLOCK_SIZE \<le> dk_size d"
    and n: "unat (bg_free_inodes_count (sb_descs sb (grp_desc g))) = bm.free_count ?b"
    using assms by (auto simp: inodes_ok_def)
  have u: "unat (word_of_nat i :: u32) = i" using assms(2) by (simp add: unat_of_nat)
  show ?thesis
  proof (cases "i \<in> bm_used ?b")
    case False
    then have "bitmap_test i ?b = Some False"
      using assms(2) w by (simp add: bitmap_test_eq bm_used_def bm_cap_def)
    then show ?thesis using u False
      by (intro unused) (simp_all add: inodes_used_def group_free_inode_def group_get_inode_def)
  next
    case True
    obtain tab where tab: "group_get_inode (word_of_nat i) g d = Some (True, g\<lparr>inode_table := tab\<rparr>)"
      "map_of tab (word_of_nat i div 32) \<noteq> None"
      by (rule group_get_inode_used [OF True assms(2) sz])
    obtain v where v: "group_inode (g\<lparr>inode_table := tab\<rparr>) (word_of_nat i) = Some v"
      using tab(2) by (auto simp: group_inode_def)
    from True obtain b where b: "bitmap_clear i ?b = Some b" "bm_words b = bm_words ?b" "bm_used b = bm_used ?b - {i}"
      by (rule bitmap_clear_used)
    have "bm.free_count b = Suc (bm.free_count ?b)" using bm.free_count_clear1 [OF True b(1)] .
    moreover have "bm.free_count b \<le> 32768" using free_count_bound b(2) w by simp
    ultimately have n': "unat (bg_free_inodes_count (sb_descs sb (grp_desc g)) + 1) = bm.free_count b"
      using n unat_inc16 [OF n] by simp
    let ?sb1 = "desc_set sb (grp_desc g) (\<lambda>x. x\<lparr>bg_free_inodes_count := bg_free_inodes_count x + 1\<rparr>)"
    have wi: "g\<lparr>inode_bitmap := (inode_bitmap g)\<lparr>bb_bitmap := b\<rparr>, inode_table := tab\<rparr> = with_inodes b tab g"
      by (simp add: with_inodes_def)
    show ?thesis
    proof (rule ok [of b tab "count_dir (S_ISDIR (i_mode v)) (grp_desc g) (\<lambda>n. n - 1) ?sb1" v])
      show "group_free_inode (word_of_nat i) g sb d = Some (True, with_inodes b tab g,
          count_dir (S_ISDIR (i_mode v)) (grp_desc g) (\<lambda>n. n - 1) ?sb1)"
        using s v b(1) u unfolding group_free_inode_def tab(1) by (simp add: desc_upd_eq Let_def count_dir_def flip: wi)
    qed (use True b s w n' sz in \<open>simp_all add: inodes_used_def inodes_ok_def\<close>)
  qed
qed

text \<open>
  The directories of a group: the inodes in use whose mode, in the loaded table or on the device, is
  that of a directory. The descriptor counts them.
\<close>

definition table_block :: "disk \<Rightarrow> block_group \<Rightarrow> u32 \<Rightarrow> inode_table_block option" where
  "table_block d g k =
     (case map_of (inode_table g) k of None \<Rightarrow> InodeTableBlock_new (inode_block_offset g k) d | Some x \<Rightarrow> Some x)"

definition table_inode :: "disk \<Rightarrow> block_group \<Rightarrow> nat \<Rightarrow> ext2_inode option" where
  "table_inode d g i = map_option (\<lambda>x. itb_inodes x (i mod 32)) (table_block d g (word_of_nat i div 32))"

definition group_dirs :: "disk \<Rightarrow> block_group \<Rightarrow> nat set" where
  "group_dirs d g = {i \<in> bm_used (bb_bitmap (inode_bitmap g)). map_option (\<lambda>v. S_ISDIR (i_mode v)) (table_inode d g i) = Some True}"

definition inodes_exact :: "disk \<Rightarrow> block_group \<times> super_block \<Rightarrow> bool" where
  "inodes_exact d = (\<lambda>(g, sb). inodes_ok d (g, sb) \<and>
     unat (bg_used_dirs_count (sb_descs sb (grp_desc g))) = card (group_dirs d g))"

lemma word_div_32: "i < 32768 \<Longrightarrow> (word_of_nat i :: u32) div 32 = word_of_nat (i div 32)"
  by (simp add: word_arith_nat_div unat_of_nat)

lemma word_mod_32: "i < 32768 \<Longrightarrow> unat ((word_of_nat i :: u32) mod 32) = i mod 32"
  by (simp add: unat_mod unat_of_nat)

lemma inode_slot_inj:
  assumes "i < 32768" "j < 32768" "(word_of_nat i :: u32) div 32 = word_of_nat j div 32" "i mod 32 = j mod 32"
  shows "i = j"
proof -
  have "unat (word_of_nat (i div 32) :: u32) = unat (word_of_nat (j div 32) :: u32)"
    using assms(1-3) by (simp add: word_div_32)
  then have "i div 32 = j div 32" using assms(1,2) by (simp add: unat_of_nat)
  with assms(4) show ?thesis by (metis div_mod_decomp)
qed

lemma S_ISDIR_ucast: "S_ISDIR (ucast (m :: u32) :: u16) \<longleftrightarrow> S_ISDIR m"
proof -
  have "uint (ucast m AND (0xF000 :: u16)) = take_bit 16 (uint m) AND 0xF000"
    by (simp add: unsigned_and_eq unsigned_ucast_eq)
  also have "\<dots> = uint m AND (mask 16 AND 0xF000)" by (simp only: take_bit_eq_mask and.assoc)
  also have "\<dots> = uint (m AND 0xF000)" by (simp add: unsigned_and_eq mask_eq_exp_minus_1)
  finally show ?thesis by (simp add: S_ISDIR_def S_IFMT_def word_uint_eq_iff)
qed

text \<open>Loading a block of the table changes no inode; storing an inode changes this one.\<close>

lemma inode_block_offset_upd [simp]:
  "inode_block_offset (g\<lparr>inode_bitmap := x\<rparr>) = inode_block_offset g" "inode_block_offset (g\<lparr>inode_table := t\<rparr>) = inode_block_offset g"
  by (simp_all add: inode_block_offset_def fun_eq_iff)

lemma table_block_bitmap [simp]: "table_block d (g\<lparr>inode_bitmap := x\<rparr>) k = table_block d g k"
  by (simp add: table_block_def split: option.split)

lemma table_inode_bitmap [simp]: "table_inode d (g\<lparr>inode_bitmap := x\<rparr>) = table_inode d g"
  by (simp add: table_inode_def fun_eq_iff)

lemma table_block_upd:
  "map_of tab = (map_of (inode_table g))(k \<mapsto> x) \<Longrightarrow>
   table_block d (g\<lparr>inode_table := tab\<rparr>) j = (if j = k then Some x else table_block d g j)"
  by (simp add: table_block_def split: option.split)

lemma group_get_inode_loads:
  assumes "group_get_inode w g d = Some (True, g')"
  obtains tab x where "g' = g\<lparr>inode_table := tab\<rparr>" "map_of tab = (map_of (inode_table g))(w div 32 \<mapsto> x)" "table_block d g (w div 32) = Some x"
proof -
  obtain tab where t: "g' = g\<lparr>inode_table := tab\<rparr>"
    "(case map_of (inode_table g) (w div 32) of
        None \<Rightarrow> do { x \<leftarrow> InodeTableBlock_new (inode_block_offset g (w div 32)) d; Some (omap_put (w div 32) x (inode_table g)) }
      | Some _ \<Rightarrow> Some (inode_table g)) = Some tab"
    using assms by (auto simp: group_get_inode_def Let_def split: bind_splits if_splits)
  show ?thesis
  proof (cases "map_of (inode_table g) (w div 32)")
    case None
    then obtain x where "InodeTableBlock_new (inode_block_offset g (w div 32)) d = Some x" "tab = omap_put (w div 32) x (inode_table g)"
      using t(2) by (auto split: bind_splits)
    then show ?thesis by (intro that [of tab x]) (use t(1) None in \<open>simp_all add: table_block_def\<close>)
  next
    case (Some x)
    then show ?thesis using t by (intro that [of tab x]) (simp_all add: table_block_def fun_upd_idem)
  qed
qed

lemma table_inode_load:
  assumes "group_get_inode (word_of_nat i) g d = Some (True, g')" "i < 32768"
  shows "table_inode d g' = table_inode d g" "group_inode g' (word_of_nat i) = table_inode d g i" "grp_desc g' = grp_desc g"
proof -
  obtain tab x where t: "g' = g\<lparr>inode_table := tab\<rparr>" "map_of tab = (map_of (inode_table g))(word_of_nat i div 32 \<mapsto> x)"
    "table_block d g (word_of_nat i div 32) = Some x" by (rule group_get_inode_loads [OF assms(1)])
  have "table_block d g' k = table_block d g k" for k using table_block_upd [OF t(2)] t(1,3) by simp
  then show "table_inode d g' = table_inode d g" by (simp add: table_inode_def fun_eq_iff)
  show "group_inode g' (word_of_nat i) = table_inode d g i" "grp_desc g' = grp_desc g"
    using t word_mod_32 [OF assms(2)] by (simp_all add: group_inode_def table_inode_def)
qed

lemma table_inode_put:
  assumes "group_put_inode g (word_of_nat i) v = Some g'" "i < 32768" "j < 32768"
  shows "table_inode d g' j = (if j = i then Some v else table_inode d g j)"
proof -
  obtain x where x: "map_of (inode_table g) (word_of_nat i div 32) = Some x"
    "g' = g\<lparr>inode_table := omap_put (word_of_nat i div 32) (x\<lparr>itb_inodes := (itb_inodes x)(i mod 32 := v)\<rparr>) (inode_table g)\<rparr>"
    using assms(1) word_mod_32 [OF assms(2)] by (auto simp: group_put_inode_def split: bind_splits)
  have "table_block d g (word_of_nat i div 32) = Some x" using x(1) by (simp add: table_block_def)
  moreover have "table_block d g' k = (if k = word_of_nat i div 32 then Some (x\<lparr>itb_inodes := (itb_inodes x)(i mod 32 := v)\<rparr>) else table_block d g k)" for k
    unfolding x(2) by (rule table_block_upd) simp
  ultimately show ?thesis using inode_slot_inj [OF assms(2,3)] by (auto simp: table_inode_def)
qed

lemma used_bound: "bm_words b = 1024 \<Longrightarrow> bm_used b \<subseteq> {..<32768}"
  by (auto simp: bm_used_def bm_cap_def)

lemma group_dirs_bound: "inodes_ok d (g, sb) \<Longrightarrow> group_dirs d g \<subseteq> {..<32768}"
  using used_bound [of "bb_bitmap (inode_bitmap g)"] by (auto simp: inodes_ok_def group_dirs_def)

lemma group_alloc_inode_dirs:
  assumes ok: "inodes_ok d (g, sb)" and al: "group_alloc_inode mode g sb d = Some (Some w, g', sb')"
    and w: "w = word_of_nat i" "i < 32768" "i \<notin> inodes_used (g, sb)"
    and used: "bm_used (bb_bitmap (inode_bitmap g')) = insert i (inodes_used (g, sb))"
  shows "group_dirs d g' = (if S_ISDIR mode then insert i (group_dirs d g) else group_dirs d g)"
proof -
  obtain g1 ib where g1: "group_get_inode (word_of_nat i) (g\<lparr>inode_bitmap := ib\<rparr>) d = Some (True, g1)"
    "group_put_inode g1 (word_of_nat i) (zero_inode\<lparr>i_mode := ucast mode\<rparr>) = Some g'"
    using al w(1) by (auto simp: group_alloc_inode_def Let_def split: bind_splits if_splits)
  have t: "table_inode d g' j = (if j = i then Some (zero_inode\<lparr>i_mode := ucast mode\<rparr>) else table_inode d g j)" if "j < 32768" for j
    using table_inode_put(1) [OF g1(2) w(2) that, of d] table_inode_load(1) [OF g1(1) w(2)] by simp
  have "inodes_used (g, sb) \<subseteq> {..<32768}" using ok used_bound by (simp add: inodes_ok_def inodes_used_def)
  then have b: "j < 32768" if "j \<in> inodes_used (g, sb)" for j using that by auto
  have "j \<in> group_dirs d g' \<longleftrightarrow> j \<in> (if S_ISDIR mode then insert i (group_dirs d g) else group_dirs d g)" for j
  proof (cases "j = i")
    case True
    then show ?thesis using t [OF w(2)] w(3) used by (simp add: group_dirs_def inodes_used_def S_ISDIR_ucast)
  next
    case False
    then have "j \<in> group_dirs d g' \<longleftrightarrow> j \<in> group_dirs d g"
    proof (cases "j \<in> inodes_used (g, sb)")
      case True
      then have "table_inode d g' j = table_inode d g j" using t [OF b [OF True]] False by simp
      then show ?thesis using True False used by (simp add: group_dirs_def inodes_used_def)
    qed (use used in \<open>simp add: group_dirs_def inodes_used_def\<close>)
    then show ?thesis using False by simp
  qed
  then show ?thesis by blast
qed

lemma used_dirs_set [simp]:
  "bg_used_dirs_count (sb_descs (desc_set sb k (\<lambda>x. x\<lparr>bg_free_inodes_count := f x\<rparr>)) j) = bg_used_dirs_count (sb_descs sb j)"
  by (simp add: desc_set_def)

lemma group_free_inode_dirs:
  assumes ok: "inodes_ok d (g, sb)" and fr: "group_free_inode (word_of_nat i) g sb d = Some (True, g', sb')"
    and i: "i < 32768" "i \<in> inodes_used (g, sb)" and used: "bm_used (bb_bitmap (inode_bitmap g')) = inodes_used (g, sb) - {i}"
  shows "group_dirs d g' = group_dirs d g - {i}"
    and "bg_used_dirs_count (sb_descs sb' (grp_desc g)) =
      (if i \<in> group_dirs d g then bg_used_dirs_count (sb_descs sb (grp_desc g)) - 1 else bg_used_dirs_count (sb_descs sb (grp_desc g)))"
proof -
  obtain g1 where g1: "group_get_inode (word_of_nat i) g d = Some (True, g1)"
    using fr by (auto simp: group_free_inode_def split: bind_splits if_splits)
  note load = table_inode_load [OF g1 i(1)]
  obtain v where v: "group_inode g1 (word_of_nat i) = Some v"
    using fr by (auto simp: group_free_inode_def g1 split: bind_splits)
  obtain b where b: "bitmap_clear (unat (word_of_nat i :: u32)) (bb_bitmap (inode_bitmap g1)) = Some b"
    using fr by (auto simp: group_free_inode_def g1 v split: bind_splits)
  have s: "grp_desc g < NUM_DESC_SLOTS" using ok by (simp add: inodes_ok_def)
  have g': "g' = g1\<lparr>inode_bitmap := (inode_bitmap g1)\<lparr>bb_bitmap := b\<rparr>\<rparr>"
    and sb': "sb' = count_dir (S_ISDIR (i_mode v)) (grp_desc g) (\<lambda>n. n - 1)
      (desc_set sb (grp_desc g) (\<lambda>x. x\<lparr>bg_free_inodes_count := bg_free_inodes_count x + 1\<rparr>))"
    using fr s load(3) by (simp_all add: group_free_inode_def g1 v b Let_def desc_upd_eq count_dir_def split: if_splits)
  have "table_inode d g' = table_inode d g" using load(1) g' by simp
  then show "group_dirs d g' = group_dirs d g - {i}" using used by (auto simp: group_dirs_def inodes_used_def)
  have "i \<in> group_dirs d g \<longleftrightarrow> S_ISDIR (i_mode v)" using load(2) i(2) by (simp add: group_dirs_def inodes_used_def flip: load(2)) (simp add: v)
  then show "bg_used_dirs_count (sb_descs sb' (grp_desc g)) =
      (if i \<in> group_dirs d g then bg_used_dirs_count (sb_descs sb (grp_desc g)) - 1 else bg_used_dirs_count (sb_descs sb (grp_desc g)))"
    by (simp add: sb' count_dir_def)
qed

lemma inodes_alloc_exact:
  assumes "inodes_exact d s" "inodes_used s \<noteq> {..<32768}"
  obtains i s' where "inodes_alloc mode d s = Some (Some i, s')" "i < 32768" "i \<notin> inodes_used s" "inodes_exact d s'"
    "inodes_used s' = insert i (inodes_used s)"
    "group_dirs d (fst s') = (if S_ISDIR mode then insert i (group_dirs d (fst s)) else group_dirs d (fst s))"
proof -
  obtain g sb where s: "s = (g, sb)" by (cases s)
  have ok: "inodes_ok d (g, sb)" and n: "unat (bg_used_dirs_count (sb_descs sb (grp_desc g))) = card (group_dirs d g)"
    using assms(1) by (simp_all add: inodes_exact_def s)
  show ?thesis
  proof (cases rule: group_alloc_inode_cases [OF ok, of mode])
    case 1
    then show ?thesis using assms(2) by (simp add: s)
  next
    case (2 i b tab sb')
    let ?g = "with_inodes b tab g"
    have d: "group_dirs d ?g = (if S_ISDIR mode then insert i (group_dirs d g) else group_dirs d g)"
      by (rule group_alloc_inode_dirs [OF ok 2(4) refl 2(1,2)]) (simp add: 2(7))
    have i: "i \<notin> group_dirs d g" using 2(2) by (auto simp: group_dirs_def inodes_used_def)
    have fin: "finite (group_dirs d g)" using group_dirs_bound [OF ok] finite_subset by blast
    have "insert i (group_dirs d g) \<subseteq> {..<32768}" using group_dirs_bound [OF ok] 2(1) by simp
    from card_mono [OF _ this] have "card (group_dirs d g) \<le> 32767" using i fin by simp
    then have "unat (bg_used_dirs_count (sb_descs sb' (grp_desc g))) = card (group_dirs d ?g)"
      using unat_inc16 [OF n] n d i fin by (simp add: 2(5) count_dir_def)
    then have "inodes_exact d (?g, sb')" using 2(6) by (simp add: inodes_exact_def)
    then show ?thesis using 2(1,2,4,7) d by (intro that [of i "(?g, sb')"]) (simp_all add: s inodes_alloc_def unat_of_nat inodes_used_def)
  qed
qed

lemma inodes_free_exact:
  assumes "inodes_exact d s" "i < 32768"
  obtains s' where "inodes_free d i s = Some (i \<in> inodes_used s, s')" "inodes_exact d s'"
    "inodes_used s' = inodes_used s - {i}" "group_dirs d (fst s') = group_dirs d (fst s) - {i}"
proof -
  obtain g sb where s: "s = (g, sb)" by (cases s)
  have ok: "inodes_ok d (g, sb)" and n: "unat (bg_used_dirs_count (sb_descs sb (grp_desc g))) = card (group_dirs d g)"
    using assms(1) by (simp_all add: inodes_exact_def s)
  show ?thesis
  proof (cases rule: group_free_inode_cases [OF ok assms(2)])
    case 1
    then have "i \<notin> group_dirs d g" by (auto simp: group_dirs_def inodes_used_def)
    with 1 assms(1) show ?thesis by (intro that [of s]) (simp_all add: s inodes_free_def)
  next
    case (2 b tab sb' v)
    let ?g = "with_inodes b tab g"
    have u: "bm_used (bb_bitmap (inode_bitmap ?g)) = inodes_used (g, sb) - {i}" by (simp add: 2(5))
    note d = group_free_inode_dirs [OF ok 2(2) assms(2) 2(1) u]
    have fin: "finite (group_dirs d g)" using group_dirs_bound [OF ok] finite_subset by blast
    have "unat (bg_used_dirs_count (sb_descs sb' (grp_desc g))) = card (group_dirs d ?g)"
    proof (cases "i \<in> group_dirs d g")
      case True
      then have "unat (bg_used_dirs_count (sb_descs sb (grp_desc g))) = Suc (card (group_dirs d g - {i}))"
        using n card_Suc_Diff1 [OF fin True] by (simp only:)
      from unat_dec16 [OF this] show ?thesis using True d by simp
    next
      case False
      then show ?thesis using n d by simp
    qed
    then have "inodes_exact d (?g, sb')" using 2(4) by (simp add: inodes_exact_def)
    then show ?thesis using 2(1,2,5) d(1) by (intro that [of "(?g, sb')"]) (simp_all add: s inodes_free_def inodes_used_def)
  qed
qed

lemma inodes_alloc_full:
  "inodes_exact d s \<Longrightarrow> inodes_used s = {..<32768} \<Longrightarrow> inodes_alloc mode d s = Some (None, s)"
  by (cases s, cases rule: group_alloc_inode_cases [of d "fst s" "snd s" mode])
    (auto simp: inodes_exact_def inodes_alloc_def)

interpretation inodes: kind_allocator "inodes_exact d" inodes_used 32768 "\<lambda>mode. inodes_alloc mode d" "inodes_free d"
  S_ISDIR "\<lambda>s. group_dirs d (fst s)" for d
proof
  fix s i m s' r f
  assume ok: "inodes_exact d s"
  show "inodes_used s \<subseteq> {..<32768}"
    using ok used_bound by (cases s) (simp add: inodes_exact_def inodes_used_def inodes_ok_def)
  show "\<exists>s'. inodes_alloc m d s = Some (None, s') \<and> inodes_exact d s' \<and> inodes_used s' = inodes_used s"
    if "inodes_used s = {..<32768}"
    using inodes_alloc_full [OF ok that] ok by simp
  show "\<exists>i s'. inodes_alloc m d s = Some (Some i, s') \<and> i < 32768 \<and> i \<notin> inodes_used s \<and> inodes_exact d s' \<and>
      inodes_used s' = insert i (inodes_used s)" if "inodes_used s \<noteq> {..<32768}"
    by (rule inodes_alloc_exact [OF ok that, of m]) blast
  show "\<exists>s'. inodes_free d i s = Some (i \<in> inodes_used s, s') \<and> inodes_exact d s' \<and> inodes_used s' = inodes_used s - {i}"
    if "i < 32768"
    by (rule inodes_free_exact [OF ok that]) blast
  show "group_dirs d (fst s') = replay S_ISDIR [(Alloc m, Got r)] (group_dirs d (fst s))" if "inodes_alloc m d s = Some (r, s')"
  proof (cases "inodes_used s = {..<32768}")
    case True
    then show ?thesis using inodes_alloc_full [OF ok True] that by simp
  next
    case False
    show ?thesis by (rule inodes_alloc_exact [OF ok False, of m]) (use that in simp)
  qed
  show "group_dirs d (fst s') = group_dirs d (fst s) - {i}" if "i < 32768" "inodes_free d i s = Some (f, s')"
    by (rule inodes_free_exact [OF ok that(1)]) (use that(2) in simp)
qed

section \<open>Properties\<close>

text \<open>
  C12 (invariant): allocation of blocks in a group is exact. Any sequence of \<open>alloc_block\<close> and
  \<open>free_block\<close> completes; a block that is handed out is in range and not in use, none is handed out
  exactly when all are in use, \<open>free_block\<close> succeeds exactly on blocks in use, and the descriptor's
  count of free blocks stays the number of clear bits.
\<close>

theorem group_blocks_exact:
  assumes "blocks_ok (g, sb, st)" "\<forall>i. Free i \<in> set xs \<longrightarrow> i < 32768"
  shows "\<exists>rs g' sb' st'. alloc_run (\<lambda>_::unit. blocks_alloc) blocks_free xs (g, sb, st) = Some (rs, g', sb', st') \<and>
     legal 32768 (zip xs rs) (bm_used (bb_bitmap (block_bitmap g))) = Some (bm_used (bb_bitmap (block_bitmap g'))) \<and>
     unat (bg_free_blocks_count (sb_descs sb' (grp_desc g'))) = card ({..<32768} - bm_used (bb_bitmap (block_bitmap g')))"
  using blocks.run_legal [OF assms]
  by (auto simp: blocks_used_def blocks_ok_def bm.free_count_def bm_cap_def)

definition empty_group :: block_group where
  "empty_group = \<lparr>grp_desc = 0,
     block_bitmap = \<lparr>bb_offset = 8192, bb_bitmap = \<lparr>bm_words = 1024, bm_data = (\<lambda>_. 0)\<rparr>\<rparr>,
     inode_bitmap = \<lparr>bb_offset = 4096, bb_bitmap = \<lparr>bm_words = 1024, bm_data = (\<lambda>_. 0)\<rparr>\<rparr>, inode_table = []\<rparr>"

definition empty_super :: super_block where
  "empty_super = \<lparr>sb_super = get_super_at (\<lambda>_. 0) 0,
     sb_descs = (\<lambda>_. (get_desc_at (\<lambda>_. 0) 0)\<lparr>bg_free_blocks_count := 32768, bg_free_inodes_count := 32768\<rparr>),
     desc_table = [0]\<rparr>"

definition empty_store :: store where
  "empty_store = \<lparr>ndebug = False, device = sound_disk 8388608 (\<lambda>_. 0), heap = (\<lambda>_. None), brk = 0\<rparr>"

lemma free_count_empty: "bm.free_count \<lparr>bm_words = 1024, bm_data = (\<lambda>_. 0)\<rparr> = 32768"
  by (simp add: bm.free_count_def bm_used_def bm_cap_def bit_at_def)

theorem group_blocks_exact_witness:
  "\<exists>rs g' sb' st'. alloc_run (\<lambda>_. blocks_alloc) blocks_free [Alloc (), Alloc (), Free 0, Free 7] (empty_group, empty_super, empty_store) =
     Some (rs, g', sb', st') \<and>
     legal 32768 (zip [Alloc (), Alloc (), Free 0, Free 7] rs) {} = Some (bm_used (bb_bitmap (block_bitmap g')))"
proof -
  have "blocks_ok (empty_group, empty_super, empty_store)"
    by (simp add: blocks_ok_def empty_group_def empty_super_def free_count_empty)
  from group_blocks_exact [OF this, of "[Alloc (), Alloc (), Free 0, Free 7]"]
  show ?thesis by (auto simp: empty_group_def bm_used_def bit_at_def)
qed

text \<open>
  C15 (invariant): the same for inodes, on a device that holds the group's inode table. Any sequence of
  \<open>alloc_inode\<close>, each with a mode of its own, and \<open>free_inode\<close> completes; a number that is handed out is
  in range and not in use, none is handed out exactly when all are in use, and \<open>free_inode\<close> succeeds
  exactly on numbers in use. The inodes in use that are directories are those the sequence leaves:
  a number joins them when it is handed out for the mode of a directory and leaves them when it is
  freed. Both counts of the descriptor stay right: that of free inodes is the number of clear bits, and
  that of directories the number of directories.
\<close>

theorem group_inodes_exact:
  assumes "inodes_exact d (g, sb)" "\<forall>i. Free i \<in> set xs \<longrightarrow> i < 32768"
  shows "\<exists>rs g' sb'. alloc_run (\<lambda>mode. inodes_alloc mode d) (inodes_free d) xs (g, sb) = Some (rs, g', sb') \<and>
     legal 32768 (zip xs rs) (bm_used (bb_bitmap (inode_bitmap g))) = Some (bm_used (bb_bitmap (inode_bitmap g'))) \<and>
     group_dirs d g' = replay S_ISDIR (zip xs rs) (group_dirs d g) \<and>
     unat (bg_free_inodes_count (sb_descs sb' (grp_desc g'))) = card ({..<32768} - bm_used (bb_bitmap (inode_bitmap g'))) \<and>
     unat (bg_used_dirs_count (sb_descs sb' (grp_desc g'))) = card (group_dirs d g')"
proof -
  obtain rs g' sb' where r: "alloc_run (\<lambda>mode. inodes_alloc mode d) (inodes_free d) xs (g, sb) = Some (rs, g', sb')"
    "inodes_exact d (g', sb')" "legal 32768 (zip xs rs) (inodes_used (g, sb)) = Some (inodes_used (g', sb'))"
    using inodes.run_legal [OF assms] by auto
  have "group_dirs d g' = replay S_ISDIR (zip xs rs) (group_dirs d g)" using inodes.run_marks [OF assms r(1)] by simp
  then show ?thesis using r
    by (auto simp: inodes_used_def inodes_exact_def inodes_ok_def bm.free_count_def bm_cap_def)
qed

theorem group_inodes_exact_witness:
  "\<exists>rs g' sb'. alloc_run (\<lambda>mode. inodes_alloc mode (device empty_store)) (inodes_free (device empty_store))
     [Alloc 0x41FF, Free 3, Alloc 0x81A4, Free 0] (empty_group, empty_super) = Some (rs, g', sb') \<and>
     legal 32768 (zip [Alloc (0x41FF :: u32), Free 3, Alloc 0x81A4, Free 0] rs) {} = Some (bm_used (bb_bitmap (inode_bitmap g'))) \<and>
     unat (bg_used_dirs_count (sb_descs sb' (grp_desc g'))) = card (group_dirs (device empty_store) g')"
proof -
  have u: "bm_used (bb_bitmap (inode_bitmap empty_group)) = {}" by (simp add: empty_group_def bm_used_def bit_at_def)
  have "bg_used_dirs_count (sb_descs empty_super (grp_desc empty_group)) = 0"
    by (simp add: empty_super_def get_desc_at_def get_u16_def)
  then have "inodes_exact (device empty_store) (empty_group, empty_super)" using u
    by (simp add: inodes_exact_def inodes_ok_def group_dirs_def)
      (simp add: empty_group_def empty_super_def empty_store_def free_count_empty)
  moreover have "\<forall>i. Free i \<in> set [Alloc (0x41FF :: u32), Free 3, Alloc 0x81A4, Free 0] \<longrightarrow> i < 32768" by simp
  ultimately show ?thesis using group_inodes_exact unfolding u [symmetric] by blast
qed

end
