(* ===== verification/Block_Cache.thy ===== *)
theory Block_Cache
  imports Block_Store
begin

text \<open>
  \<open>BlockCache\<close> of \<open>include/cache.h\<close> and \<open>src/cache.cpp\<close>: a hash map from block index to node and a
  doubly linked list of nodes in order of use, between the sentinels \<open>head_\<close> and \<open>tail_\<close>. The
  nodes are the array \<open>entries_\<close> (addresses 0 to \<open>size_\<close> - 1) and the two sentinels; the unordered
  map is an association list, whose order stands for the unspecified iteration order.
\<close>

section \<open>The class\<close>

record bc_node =
  bn_dirty :: bool
  bn_index :: u32
  bn_block :: addr
  bn_prev :: "addr option"
  bn_next :: "addr option"

record block_cache =
  bc_map :: "(u32 \<times> addr) list"
  free_entries :: "addr list"
  bc_nodes :: "addr \<Rightarrow> bc_node"
  bc_head :: addr
  bc_tail :: addr
  bc_size :: nat

definition bc_upd :: "addr \<Rightarrow> (bc_node \<Rightarrow> bc_node) \<Rightarrow> block_cache \<Rightarrow> block_cache" where
  "bc_upd n f c = c\<lparr>bc_nodes := (bc_nodes c)(n := f (bc_nodes c n))\<rparr>"

definition BlockCache_new :: "nat \<Rightarrow> block_cache" where
  "BlockCache_new sz =
     (let blank = \<lparr>bn_dirty = False, bn_index = 0, bn_block = 0, bn_prev = None, bn_next = None\<rparr>
      in \<lparr>bc_map = [], free_entries = [0..<sz],
          bc_nodes = (\<lambda>_. blank)(sz := blank\<lparr>bn_next := Some (sz + 1)\<rparr>,
                                 sz + 1 := blank\<lparr>bn_prev := Some sz\<rparr>),
          bc_head = sz, bc_tail = sz + 1, bc_size = sz\<rparr>)"

definition bc_detach :: "addr \<Rightarrow> block_cache \<Rightarrow> block_cache option" where
  "bc_detach n c = do {
     p \<leftarrow> bn_prev (bc_nodes c n);
     let c = bc_upd p (\<lambda>x. x\<lparr>bn_next := bn_next (bc_nodes c n)\<rparr>) c;
     q \<leftarrow> bn_next (bc_nodes c n);
     Some (bc_upd q (\<lambda>x. x\<lparr>bn_prev := bn_prev (bc_nodes c n)\<rparr>) c)
   }"

definition bc_release :: "addr \<Rightarrow> block_cache \<Rightarrow> store \<Rightarrow> (block_cache \<times> store) option" where
  "bc_release n c st = do {
     let node = bc_nodes c n;
     st \<leftarrow> (if bn_dirty node then do {
               (_, st) \<leftarrow> block_flush (bn_block node) st;
               block_delete (bn_block node) st
             }
             else block_delete (bn_block node) st);
     Some (c\<lparr>free_entries := free_entries c @ [n]\<rparr>, st)
   }"

definition bc_attach :: "addr \<Rightarrow> block_cache \<Rightarrow> block_cache option" where
  "bc_attach n c = do {
     let c = bc_upd n (\<lambda>x. x\<lparr>bn_prev := Some (bc_head c)\<rparr>) c;
     let c = bc_upd n (\<lambda>x. x\<lparr>bn_next := bn_next (bc_nodes c (bc_head c))\<rparr>) c;
     let c = bc_upd (bc_head c) (\<lambda>x. x\<lparr>bn_next := Some n\<rparr>) c;
     q \<leftarrow> bn_next (bc_nodes c n);
     Some (bc_upd q (\<lambda>x. x\<lparr>bn_prev := Some n\<rparr>) c)
   }"

text \<open>\<open>flush()\<close> and \<open>flush(inode_index)\<close>: the loop over the map, restricted by a test on the node.\<close>

fun bc_flush_loop ::
  "(bc_node \<Rightarrow> bool) \<Rightarrow> (u32 \<times> addr) list \<Rightarrow> block_cache \<Rightarrow> store \<Rightarrow> (block_cache \<times> store) option" where
  "bc_flush_loop sel [] c st = Some (c, st)"
| "bc_flush_loop sel ((_, n) # m) c st =
     (if sel (bc_nodes c n) \<and> bn_dirty (bc_nodes c n) then do {
        (_, st) \<leftarrow> block_flush (bn_block (bc_nodes c n)) st;
        bc_flush_loop sel m (bc_upd n (\<lambda>x. x\<lparr>bn_dirty := False\<rparr>) c) st
      }
      else bc_flush_loop sel m c st)"

definition bc_flush :: "block_cache \<Rightarrow> store \<Rightarrow> (block_cache \<times> store) option" where
  "bc_flush c st = bc_flush_loop (\<lambda>_. True) (bc_map c) c st"

definition bc_flush_index :: "u32 \<Rightarrow> block_cache \<Rightarrow> store \<Rightarrow> (block_cache \<times> store) option" where
  "bc_flush_index inode_index c st =
     bc_flush_loop (\<lambda>x. bn_index x = inode_index) (bc_map c) c st"

definition bc_insert ::
  "u32 \<Rightarrow> addr \<Rightarrow> bool \<Rightarrow> block_cache \<Rightarrow> store \<Rightarrow> (block_cache \<times> store) option" where
  "bc_insert index blk dirty c st =
     (case map_of (bc_map c) index of
        None \<Rightarrow> do {
          (c, st) \<leftarrow> (if free_entries c = [] then do {
              node \<leftarrow> bn_prev (bc_nodes c (bc_tail c));
              c \<leftarrow> bc_detach node c;
              (c, st) \<leftarrow> bc_release node c st;
              Some (c\<lparr>bc_map := AList.delete (bn_index (bc_nodes c node)) (bc_map c)\<rparr>, st)
            }
            else Some (c, st));
          let node = last (free_entries c);
          let c = c\<lparr>free_entries := butlast (free_entries c)\<rparr>;
          let c = bc_upd node (\<lambda>x. x\<lparr>bn_index := index, bn_block := blk, bn_dirty := dirty\<rparr>) c;
          let c = c\<lparr>bc_map := AList.update index node (bc_map c)\<rparr>;
          c \<leftarrow> bc_attach node c;
          Some (c, st)
        }
      | Some node \<Rightarrow> do {
          let c = bc_upd node (\<lambda>x. x\<lparr>bn_dirty := bn_dirty x \<or> dirty\<rparr>) c;
          ASSERT (ndebug st) (bn_block (bc_nodes c node) = blk);
          c \<leftarrow> bc_detach node c;
          c \<leftarrow> bc_attach node c;
          Some (c, st)
        })"

definition bc_get :: "u32 \<Rightarrow> bool \<Rightarrow> block_cache \<Rightarrow> store \<Rightarrow> (addr option \<times> block_cache) option" where
  "bc_get index dirty c st =
     (case map_of (bc_map c) index of
        None \<Rightarrow> Some (None, c)
      | Some node \<Rightarrow> do {
          ASSERT (ndebug st) (bn_index (bc_nodes c node) = index);
          c \<leftarrow> bc_detach node c;
          c \<leftarrow> bc_attach node c;
          let c = bc_upd node (\<lambda>x. x\<lparr>bn_dirty := bn_dirty x \<or> dirty\<rparr>) c;
          Some (Some (bn_block (bc_nodes c node)), c)
        })"

definition bc_remove :: "u32 \<Rightarrow> block_cache \<Rightarrow> store \<Rightarrow> (block_cache \<times> store) option" where
  "bc_remove index c st =
     (case map_of (bc_map c) index of
        None \<Rightarrow> Some (c, st)
      | Some node \<Rightarrow> do {
          ASSERT (ndebug st) (index = bn_index (bc_nodes c node));
          c \<leftarrow> bc_detach node c;
          (c, st) \<leftarrow> bc_release node c st;
          Some (c\<lparr>bc_map := AList.delete (bn_index (bc_nodes c node)) (bc_map c)\<rparr>, st)
        })"

definition bc_modify :: "u32 \<Rightarrow> block_cache \<Rightarrow> block_cache" where
  "bc_modify index c =
     (case map_of (bc_map c) index of
        None \<Rightarrow> c
      | Some node \<Rightarrow> bc_upd node (\<lambda>x. x\<lparr>bn_dirty := True\<rparr>) c)"

section \<open>Doubly linked lists\<close>

text \<open>\<open>dll f xs\<close>: consecutive nodes of \<open>xs\<close> point to each other.\<close>

fun dll :: "(addr \<Rightarrow> bc_node) \<Rightarrow> addr list \<Rightarrow> bool" where
  "dll f (x # y # zs) \<longleftrightarrow> bn_next (f x) = Some y \<and> bn_prev (f y) = Some x \<and> dll f (y # zs)"
| "dll f _ \<longleftrightarrow> True"

lemma dll_split: "dll f (xs @ y # zs) \<longleftrightarrow> dll f (xs @ [y]) \<and> dll f (y # zs)"
proof (induction xs)
  case (Cons x xs)
  then show ?case by (cases xs) auto
qed simp

lemma dll_cong:
  "(\<And>x. x \<in> set xs \<Longrightarrow> bn_next (f x) = bn_next (g x) \<and> bn_prev (f x) = bn_prev (g x)) \<Longrightarrow> dll f xs = dll g xs"
  by (induction xs rule: induct_list012) auto

text \<open>
  Replacing a node that is not in the list, the \<open>next\<close> pointer of the last node or the \<open>prev\<close>
  pointer of the first leaves a list linked.
\<close>

lemma dll_upd_other [simp]: "n \<notin> set xs \<Longrightarrow> dll (f(n := v)) xs = dll f xs"
  by (rule dll_cong) auto

lemma dll_snoc_next: "distinct (xs @ [p]) \<Longrightarrow> dll (f(p := (f p)\<lparr>bn_next := v\<rparr>)) (xs @ [p]) = dll f (xs @ [p])"
proof (induction xs)
  case (Cons x xs)
  then show ?case by (cases xs) auto
qed simp

lemma dll_Cons_prev: "distinct (q # zs) \<Longrightarrow> dll (f(q := (f q)\<lparr>bn_prev := v\<rparr>)) (q # zs) = dll f (q # zs)"
  by (cases zs) auto

lemma dll_unlink:
  assumes "distinct (xs @ p # n # q # zs)" "dll f (xs @ p # n # q # zs)"
  shows "dll (f(p := (f p)\<lparr>bn_next := Some q\<rparr>, q := (f q)\<lparr>bn_prev := Some p\<rparr>)) (xs @ p # q # zs)"
proof -
  let ?g = "f(p := (f p)\<lparr>bn_next := Some q\<rparr>, q := (f q)\<lparr>bn_prev := Some p\<rparr>)"
  from assms(2) have l: "dll f (xs @ [p])" and r: "dll f (q # zs)"
    using dll_split [of f xs p "n # q # zs"] by simp_all
  have "dll ?g (xs @ [p])"
    using dll_snoc_next [of xs p f "Some q"] l assms(1) by simp
  moreover have "dll ?g (q # zs)"
    using dll_Cons_prev [of q zs "f(p := (f p)\<lparr>bn_next := Some q\<rparr>)" "Some p"] r assms(1) by simp
  ultimately show ?thesis
    using dll_split [of ?g xs p "q # zs"] assms(1) by simp
qed

lemma dll_link:
  assumes "distinct (h # q # zs)" "dll f (h # q # zs)" "n \<notin> set (h # q # zs)"
  shows "dll (f(n := (f n)\<lparr>bn_prev := Some h, bn_next := Some q\<rparr>,
                h := (f h)\<lparr>bn_next := Some n\<rparr>, q := (f q)\<lparr>bn_prev := Some n\<rparr>)) (h # n # q # zs)"
proof -
  let ?f = "f(n := (f n)\<lparr>bn_prev := Some h, bn_next := Some q\<rparr>, h := (f h)\<lparr>bn_next := Some n\<rparr>)"
  have "dll ?f (q # zs)" using assms by simp
  then have "dll (?f(q := (?f q)\<lparr>bn_prev := Some n\<rparr>)) (q # zs)"
    using dll_Cons_prev [of q zs ?f "Some n"] assms(1) by simp
  then show ?thesis using assms by auto
qed

section \<open>The list the nodes represent\<close>

text \<open>
  What a node holds, as an entry of an association list: the block index, the block and whether
  it is dirty. \<open>bc_ok c ns\<close> is the representation invariant, with \<open>ns\<close> the nodes in use from the most
  recently to the least recently used one; \<open>bc_rep c es\<close> says that the cache stands for the
  entries \<open>es\<close> in that order.
\<close>

type_synonym bc_entry = "u32 \<times> addr \<times> bool"

definition payload :: "bc_node \<Rightarrow> bc_entry" where
  "payload x = (bn_index x, bn_block x, bn_dirty x)"

definition bc_ok :: "block_cache \<Rightarrow> addr list \<Rightarrow> bool" where
  "bc_ok c ns \<longleftrightarrow>
     dll (bc_nodes c) (bc_head c # ns @ [bc_tail c]) \<and>
     bc_head c = bc_size c \<and> bc_tail c = bc_size c + 1 \<and>
     distinct (ns @ free_entries c) \<and> set (ns @ free_entries c) = {..<bc_size c} \<and>
     distinct (map fst (bc_map c)) \<and>
     (\<forall>k n. map_of (bc_map c) k = Some n \<longleftrightarrow> n \<in> set ns \<and> bn_index (bc_nodes c n) = k)"

definition bc_rep :: "block_cache \<Rightarrow> bc_entry list \<Rightarrow> bool" where
  "bc_rep c es \<longleftrightarrow> (\<exists>ns. bc_ok c ns \<and> es = map (payload \<circ> bc_nodes c) ns)"

lemma payload_simps [simp]:
  "payload (x\<lparr>bn_prev := p\<rparr>) = payload x"
  "payload (x\<lparr>bn_next := p\<rparr>) = payload x"
  "fst (payload x) = bn_index x"
  by (simp_all add: payload_def)

lemma bc_ok_lt: "bc_ok c ns \<Longrightarrow> n \<in> set ns \<or> n \<in> set (free_entries c) \<Longrightarrow> n < bc_size c"
  unfolding bc_ok_def by (metis Un_iff lessThan_iff set_append)

lemma bc_ok_distinct: "bc_ok c ns \<Longrightarrow> distinct (bc_head c # ns @ [bc_tail c])"
  using bc_ok_lt [of c ns "bc_size c"] bc_ok_lt [of c ns "bc_size c + 1"] unfolding bc_ok_def by auto

lemma bc_rep_new: "bc_rep (BlockCache_new sz) []"
  by (auto simp: bc_rep_def bc_ok_def BlockCache_new_def)

lemma bc_detach_ok:
  assumes "dll (bc_nodes c) (bc_head c # xs @ n # ys @ [bc_tail c])"
    and "distinct (bc_head c # xs @ n # ys @ [bc_tail c])"
  obtains f where "bc_detach n c = Some (c\<lparr>bc_nodes := f\<rparr>)"
    and "dll f (bc_head c # xs @ ys @ [bc_tail c])"
    and "\<And>x. payload (f x) = payload (bc_nodes c x)"
proof -
  obtain ps p where p: "bc_head c # xs = ps @ [p]" by (metis rev_exhaust list.distinct(1))
  obtain q zs where q: "ys @ [bc_tail c] = q # zs" by (cases ys) auto
  have e: "bc_head c # xs @ n # ys @ [bc_tail c] = ps @ p # n # q # zs"
    "bc_head c # xs @ ys @ [bc_tail c] = ps @ p # q # zs"
    using p q by (metis append_Cons append_assoc append_Nil)+
  let ?f = "(bc_nodes c)(p := (bc_nodes c p)\<lparr>bn_next := Some q\<rparr>, q := (bc_nodes c q)\<lparr>bn_prev := Some p\<rparr>)"
  have d: "distinct (ps @ p # n # q # zs)" and l: "dll (bc_nodes c) (ps @ p # n # q # zs)"
    using assms by (simp_all only: e)
  have pq: "bn_prev (bc_nodes c n) = Some p" "bn_next (bc_nodes c n) = Some q"
    using l dll_split [of "bc_nodes c" ps p "n # q # zs"] by simp_all
  have "bc_detach n c = Some (c\<lparr>bc_nodes := ?f\<rparr>)"
    using pq d by (auto simp: bc_detach_def bc_upd_def Let_def)
  moreover have "dll ?f (bc_head c # xs @ ys @ [bc_tail c])"
    unfolding e by (rule dll_unlink [OF d l])
  ultimately show ?thesis by (rule that) simp
qed

lemma bc_attach_ok:
  assumes "dll (bc_nodes c) (bc_head c # ns @ [bc_tail c])"
    and "distinct (bc_head c # ns @ [bc_tail c])" "n \<notin> set (bc_head c # ns @ [bc_tail c])"
  obtains f where "bc_attach n c = Some (c\<lparr>bc_nodes := f\<rparr>)"
    and "dll f (bc_head c # n # ns @ [bc_tail c])"
    and "\<And>x. payload (f x) = payload (bc_nodes c x)"
proof -
  obtain q zs where q: "ns @ [bc_tail c] = q # zs" by (cases ns) auto
  let ?f = "(bc_nodes c)(n := (bc_nodes c n)\<lparr>bn_prev := Some (bc_head c), bn_next := Some q\<rparr>,
      bc_head c := (bc_nodes c (bc_head c))\<lparr>bn_next := Some n\<rparr>, q := (bc_nodes c q)\<lparr>bn_prev := Some n\<rparr>)"
  have "bc_attach n c = Some (c\<lparr>bc_nodes := ?f\<rparr>)"
    using assms unfolding q by (auto simp: bc_attach_def bc_upd_def Let_def fun_upd_twist)
  moreover have "dll ?f (bc_head c # n # ns @ [bc_tail c])"
    using assms unfolding q by (intro dll_link)
  ultimately show ?thesis by (rule that) simp
qed

lemma bc_ok_index:
  assumes "bc_ok c ns" "n \<in> set ns"
  shows "map_of (bc_map c) (bn_index (bc_nodes c n)) = Some n"
  using assms unfolding bc_ok_def by blast

lemma bc_ok_inj: "bc_ok c ns \<Longrightarrow> inj_on (\<lambda>n. bn_index (bc_nodes c n)) (set ns)"
  by (rule inj_onI) (metis bc_ok_index option.inject)

lemma bc_rep_keys: "bc_rep c es \<Longrightarrow> distinct (map fst es)"
  unfolding bc_rep_def by (auto simp: comp_def distinct_map [of "\<lambda>x. bn_index (bc_nodes c x)"] bc_ok_inj)
    (simp add: bc_ok_def)

lemma bc_ok_lookup:
  assumes "bc_ok c ns"
  shows "map_of (map (payload \<circ> bc_nodes c) ns) k =
           map_option (\<lambda>n. (bn_block (bc_nodes c n), bn_dirty (bc_nodes c n))) (map_of (bc_map c) k)"
proof (cases "map_of (bc_map c) k")
  case None
  then have "\<forall>n \<in> set ns. bn_index (bc_nodes c n) \<noteq> k"
    using assms by (auto dest: bc_ok_index)
  then have "map_of (map (payload \<circ> bc_nodes c) ns) k = None"
    by (auto simp: map_of_eq_None_iff)
  then show ?thesis using None by simp
next
  case (Some n)
  then have n: "n \<in> set ns" "bn_index (bc_nodes c n) = k"
    using assms unfolding bc_ok_def by blast+
  have "distinct (map fst (map (payload \<circ> bc_nodes c) ns))"
    using bc_rep_keys assms unfolding bc_rep_def by blast
  then show ?thesis using n Some by (force simp: payload_def)
qed

lemma map_payload_remove1:
  assumes "bc_ok c ns" "n \<in> set ns"
  shows "map (payload \<circ> bc_nodes c) (remove1 n ns) =
           AList.delete (bn_index (bc_nodes c n)) (map (payload \<circ> bc_nodes c) ns)"
proof -
  have d: "distinct ns" using assms by (simp add: bc_ok_def)
  have "bn_index (bc_nodes c n) = bn_index (bc_nodes c m) \<longleftrightarrow> m = n" if "m \<in> set ns" for m
    using assms that by (metis bc_ok_index option.inject)
  then have "filter (\<lambda>m. bn_index (bc_nodes c n) \<noteq> bn_index (bc_nodes c m)) ns = remove1 n ns"
    unfolding distinct_remove1_removeAll [OF d] removeAll_filter_not_eq
    by (intro filter_cong) auto
  then show ?thesis
    by (simp add: AList.delete_eq filter_map payload_def o_def split_beta)
qed

text \<open>Setting the dirty bit of a node, and moving a node to the front.\<close>

definition lru_mark :: "u32 \<Rightarrow> bool \<Rightarrow> bc_entry list \<Rightarrow> bc_entry list" where
  "lru_mark k d es = map (\<lambda>(i, a, b). (i, a, b \<or> i = k \<and> d)) es"

lemma bc_ok_dirty:
  assumes "bc_ok c ns"
  shows "bc_ok (bc_upd n (\<lambda>x. x\<lparr>bn_dirty := h x\<rparr>) c) ns"
proof -
  have "dll (bc_nodes (bc_upd n (\<lambda>x. x\<lparr>bn_dirty := h x\<rparr>) c)) xs = dll (bc_nodes c) xs" for xs
    by (rule dll_cong) (simp add: bc_upd_def)
  with assms show ?thesis by (auto simp: bc_ok_def bc_upd_def)
qed

lemma map_payload_dirty:
  assumes "bc_ok c ns" "n \<in> set ns"
  shows "map (payload \<circ> bc_nodes (bc_upd n (\<lambda>x. x\<lparr>bn_dirty := bn_dirty x \<or> d\<rparr>) c)) ns =
           lru_mark (bn_index (bc_nodes c n)) d (map (payload \<circ> bc_nodes c) ns)"
proof -
  have "bn_index (bc_nodes c m) = bn_index (bc_nodes c n) \<longleftrightarrow> m = n" if "m \<in> set ns" for m
    using assms that by (metis bc_ok_index option.inject)
  then show ?thesis by (auto simp: lru_mark_def bc_upd_def payload_def)
qed

lemma bc_ok_front:
  assumes "bc_ok c ns" "n \<in> set ns"
  obtains f where "bc_detach n c \<bind> bc_attach n = Some (c\<lparr>bc_nodes := f\<rparr>)"
    and "bc_ok (c\<lparr>bc_nodes := f\<rparr>) (n # remove1 n ns)"
    and "\<And>x. payload (f x) = payload (bc_nodes c x)"
proof -
  obtain xs ys where ns: "ns = xs @ n # ys" using assms(2) by (meson split_list)
  have D: "distinct (bc_head c # xs @ n # ys @ [bc_tail c])"
    using bc_ok_distinct [OF assms(1)] ns by simp
  have r: "remove1 n ns = xs @ ys" using D by (simp add: ns remove1_append)
  obtain f where f: "bc_detach n c = Some (c\<lparr>bc_nodes := f\<rparr>)"
    "dll f (bc_head c # xs @ ys @ [bc_tail c])" "\<And>x. payload (f x) = payload (bc_nodes c x)"
    by (rule bc_detach_ok [OF _ D]) (use assms(1) in \<open>auto simp: bc_ok_def ns\<close>)
  let ?c = "c\<lparr>bc_nodes := f\<rparr>"
  obtain g where g: "bc_attach n ?c = Some (?c\<lparr>bc_nodes := g\<rparr>)"
    "dll g (bc_head c # n # (xs @ ys) @ [bc_tail c])" "\<And>x. payload (g x) = payload (f x)"
    by (rule bc_attach_ok [of ?c "xs @ ys" n]) (use f(2) D in auto)
  have P: "payload (g x) = payload (bc_nodes c x)" for x using f(3) g(3) by simp
  have "bn_index (g x) = bn_index (bc_nodes c x)" for x using P [of x] by (simp add: payload_def)
  then have "bc_ok (c\<lparr>bc_nodes := g\<rparr>) (n # remove1 n ns)"
    using assms(1) g(2) unfolding bc_ok_def r by (auto simp: ns)
  then show ?thesis using f(1) g(1) P by (intro that [of g]) auto
qed

text \<open>Taking a node out of the list and the map, and putting a free node in.\<close>

lemma bc_ok_take_out:
  assumes "bc_ok c ns" "n \<in> set ns"
  obtains f where "bc_detach n c = Some (c\<lparr>bc_nodes := f\<rparr>)"
    and "bc_ok (c\<lparr>bc_nodes := f, free_entries := free_entries c @ [n],
                  bc_map := AList.delete (bn_index (bc_nodes c n)) (bc_map c)\<rparr>) (remove1 n ns)"
    and "\<And>x. payload (f x) = payload (bc_nodes c x)"
proof -
  obtain xs ys where ns: "ns = xs @ n # ys" using assms(2) by (meson split_list)
  have D: "distinct (bc_head c # xs @ n # ys @ [bc_tail c])"
    using bc_ok_distinct [OF assms(1)] ns by simp
  have r: "remove1 n ns = xs @ ys" using D by (simp add: ns remove1_append)
  obtain f where f: "bc_detach n c = Some (c\<lparr>bc_nodes := f\<rparr>)"
    "dll f (bc_head c # xs @ ys @ [bc_tail c])" "\<And>x. payload (f x) = payload (bc_nodes c x)"
    by (rule bc_detach_ok [OF _ D]) (use assms(1) in \<open>auto simp: bc_ok_def ns\<close>)
  have i: "bn_index (f x) = bn_index (bc_nodes c x)" for x using f(3) [of x] by (simp add: payload_def)
  have "map_of (AList.delete (bn_index (bc_nodes c n)) (bc_map c)) k = Some m \<longleftrightarrow>
          m \<in> set (remove1 n ns) \<and> bn_index (f m) = k" for k m
  proof -
    have "map_of (bc_map c) k = Some m \<longleftrightarrow> m \<in> set ns \<and> bn_index (bc_nodes c m) = k"
      using assms(1) unfolding bc_ok_def by blast
    moreover have "distinct ns" using assms(1) by (simp add: bc_ok_def)
    ultimately show ?thesis using bc_ok_index [OF assms] i
      by (auto simp: AList.delete_conv' map_of_eq_Some_iff)
  qed
  then have "bc_ok (c\<lparr>bc_nodes := f, free_entries := free_entries c @ [n],
                  bc_map := AList.delete (bn_index (bc_nodes c n)) (bc_map c)\<rparr>) (remove1 n ns)"
    using assms(1) f(2) D unfolding bc_ok_def r
    by (auto simp: AList.distinct_delete ns)
  then show ?thesis using that [OF f(1) _ f(3)] by blast
qed

lemma bc_ok_put_in:
  fixes a :: addr and d :: bool
  assumes "bc_ok c ns" "free_entries c \<noteq> []" "map_of (bc_map c) k = None"
  defines "n \<equiv> last (free_entries c)"
  defines "c1 \<equiv> bc_upd n (\<lambda>x. x\<lparr>bn_index := k, bn_block := a, bn_dirty := d\<rparr>)
                  (c\<lparr>free_entries := butlast (free_entries c)\<rparr>)\<lparr>bc_map := AList.update k n (bc_map c)\<rparr>"
  obtains f where "bc_attach n c1 = Some (c1\<lparr>bc_nodes := f\<rparr>)" and "bc_ok (c1\<lparr>bc_nodes := f\<rparr>) (n # ns)"
    and "payload (f n) = (k, a, d)" and "\<And>x. x \<in> set ns \<Longrightarrow> payload (f x) = payload (bc_nodes c x)"
proof -
  have fr: "free_entries c = butlast (free_entries c) @ [n]" using assms(2) by (simp add: n_def)
  have n: "n \<in> set (free_entries c)" using assms(2) by (simp add: n_def)
  have D: "distinct (bc_head c # ns @ [bc_tail c])" "n \<notin> set (bc_head c # ns @ [bc_tail c])"
    using bc_ok_distinct [OF assms(1)] bc_ok_lt [OF assms(1), of n] n assms(1)
    by (auto simp: bc_ok_def)
  have c1: "bc_head c1 = bc_head c" "bc_tail c1 = bc_tail c" "bc_size c1 = bc_size c"
    "free_entries c1 = butlast (free_entries c)" "bc_map c1 = AList.update k n (bc_map c)"
    "bc_nodes c1 = (bc_nodes c)(n := (bc_nodes c n)\<lparr>bn_index := k, bn_block := a, bn_dirty := d\<rparr>)"
    by (simp_all add: c1_def bc_upd_def)
  have "dll (bc_nodes c1) (bc_head c1 # ns @ [bc_tail c1])"
    using assms(1) D unfolding c1 bc_ok_def by (metis dll_upd_other)
  then obtain f where f: "bc_attach n c1 = Some (c1\<lparr>bc_nodes := f\<rparr>)"
    "dll f (bc_head c1 # n # ns @ [bc_tail c1])" "\<And>x. payload (f x) = payload (bc_nodes c1 x)"
    using bc_attach_ok [of c1 ns n] D [folded c1(1,2)] by metis
  have i: "bn_index (f x) = bn_index (bc_nodes c1 x)" for x using f(3) [of x] by (simp add: payload_def)
  have "map_of (bc_map c1) k' = Some m \<longleftrightarrow> m \<in> set (n # ns) \<and> bn_index (f m) = k'" for k' m
  proof -
    have "map_of (bc_map c) k' = Some m \<longleftrightarrow> m \<in> set ns \<and> bn_index (bc_nodes c m) = k'"
      using assms(1) unfolding bc_ok_def by blast
    then show ?thesis
      using assms(3) D bc_ok_index [OF assms(1), of m] by (auto simp: AList.update_conv' i c1)
  qed
  moreover have "distinct ((n # ns) @ butlast (free_entries c))" "set ((n # ns) @ butlast (free_entries c)) = {..<bc_size c}"
    using assms(1) unfolding bc_ok_def by (subst (asm) (1 2) fr, auto)+
  ultimately have "bc_ok (c1\<lparr>bc_nodes := f\<rparr>) (n # ns)"
    using assms(1) f(2) by (simp add: bc_ok_def c1 AList.distinct_update)
  moreover have "payload (f x) = payload (bc_nodes c x)" if "x \<in> set ns" for x
    using that D by (auto simp: f(3) c1)
  moreover have "payload (f n) = (k, a, d)" by (simp add: f(3) c1) (simp add: payload_def)
  ultimately show ?thesis using f(1) by (intro that [of f])
qed

section \<open>Refinement of an LRU list\<close>

text \<open>
  The specification: an association list in order of use. \<open>retire\<close> is what becomes of the block of
  an entry that leaves the cache.
\<close>

definition lru_touch :: "u32 \<Rightarrow> bool \<Rightarrow> bc_entry list \<Rightarrow> bc_entry list" where
  "lru_touch k d es = (case map_of es k of None \<Rightarrow> es | Some (a, b) \<Rightarrow> (k, a, b \<or> d) # AList.delete k es)"

definition lru_insert :: "nat \<Rightarrow> u32 \<Rightarrow> addr \<Rightarrow> bool \<Rightarrow> bc_entry list \<Rightarrow> bc_entry list" where
  "lru_insert cap k a d es = (k, a, d) # (if length es < cap then es else butlast es)"

definition retire :: "addr \<times> bool \<Rightarrow> store \<Rightarrow> store option" where
  "retire v st = do {
     (_, st) \<leftarrow> (if snd v then block_flush (fst v) st else Some (0, st));
     block_delete (fst v) st
   }"

definition lru_evict :: "nat \<Rightarrow> bc_entry list \<Rightarrow> store \<Rightarrow> store option" where
  "lru_evict cap es st = (if length es < cap then Some st else retire (snd (last es)) st)"

lemma bc_release_eq:
  "bc_release n c st = map_option (\<lambda>st. (c\<lparr>free_entries := free_entries c @ [n]\<rparr>, st))
     (retire (snd (payload (bc_nodes c n))) st)"
  by (auto simp: bc_release_def retire_def payload_def Let_def split: option.splits Option.bind_splits)

lemma bc_rep_size: "bc_rep c es \<Longrightarrow> length es + length (free_entries c) = bc_size c"
  unfolding bc_rep_def bc_ok_def by (metis card_lessThan distinct_card length_append length_map)

lemma bc_rep_lookup: "bc_rep c es \<Longrightarrow> map_of es k = None \<longleftrightarrow> map_of (bc_map c) k = None"
  unfolding bc_rep_def by (auto simp: bc_ok_lookup)

lemma bc_get_refines:
  assumes "bc_rep c es"
  obtains c' where "bc_get k d c st = Some (map_option fst (map_of es k), c')"
    "bc_rep c' (lru_touch k d es)" "bc_size c' = bc_size c"
proof -
  obtain ns where ns: "bc_ok c ns" "es = map (payload \<circ> bc_nodes c) ns"
    using assms unfolding bc_rep_def by blast
  show ?thesis
  proof (cases "map_of (bc_map c) k")
    case None
    then show ?thesis using assms bc_rep_lookup [OF assms, of k]
      by (intro that [of c]) (auto simp: bc_get_def lru_touch_def)
  next
    case (Some n)
    then have n: "n \<in> set ns" "bn_index (bc_nodes c n) = k"
      using ns(1) unfolding bc_ok_def by blast+
    obtain f where f: "bc_detach n c \<bind> bc_attach n = Some (c\<lparr>bc_nodes := f\<rparr>)"
      "bc_ok (c\<lparr>bc_nodes := f\<rparr>) (n # remove1 n ns)" "\<And>x. payload (f x) = payload (bc_nodes c x)"
      using bc_ok_front [OF ns(1) n(1)] by metis
    let ?c = "bc_upd n (\<lambda>x. x\<lparr>bn_dirty := bn_dirty x \<or> d\<rparr>) (c\<lparr>bc_nodes := f\<rparr>)"
    have p: "bn_block (f n) = bn_block (bc_nodes c n)" "bn_dirty (f n) = bn_dirty (bc_nodes c n)"
      "bn_index (f n) = k" using f(3) [of n] n by (simp_all add: payload_def)
    have "n \<notin> set (remove1 n ns)" using ns(1) by (simp add: bc_ok_def)
    then have "map (payload \<circ> bc_nodes ?c) (remove1 n ns) = map (payload \<circ> bc_nodes c) (remove1 n ns)"
      by (intro map_cong) (auto simp: bc_upd_def f(3))
    then have "map (payload \<circ> bc_nodes ?c) (remove1 n ns) = AList.delete k es"
      using map_payload_remove1 [OF ns(1) n(1)] n(2) ns(2) by simp
    moreover have "map_of es k = Some (bn_block (f n), bn_dirty (f n))"
      using Some by (simp add: ns bc_ok_lookup p)
    ultimately have "map (payload \<circ> bc_nodes ?c) (n # remove1 n ns) = lru_touch k d es"
      using p by (simp add: lru_touch_def bc_upd_def payload_def)
    then have "bc_rep ?c (lru_touch k d es)"
      unfolding bc_rep_def by (intro exI [of _ "n # remove1 n ns"] conjI bc_ok_dirty f(2)) simp
    moreover have "bc_get k d c st = Some (map_option fst (map_of es k), ?c)"
    proof -
      obtain c1 where "bc_detach n c = Some c1" "bc_attach n c1 = Some (c\<lparr>bc_nodes := f\<rparr>)"
        using f(1) by (auto elim: bind_eq_SomeE)
      then show ?thesis using Some n(2) p(1)
        by (simp add: bc_get_def Let_def ns(2) bc_ok_lookup [OF ns(1)] bc_upd_def)
    qed
    ultimately show ?thesis by (intro that [of ?c]) (simp_all add: bc_upd_def)
  qed
qed

lemma bc_ok_remove_refines:
  assumes "bc_ok c ns" "n \<in> set ns"
  obtains c1 c2 where "bc_detach n c = Some c1"
    "\<And>st. bc_release n c1 st = map_option (\<lambda>st. (c1\<lparr>free_entries := free_entries c1 @ [n]\<rparr>, st))
               (retire (bn_block (bc_nodes c n), bn_dirty (bc_nodes c n)) st)"
    "c2 = c1\<lparr>free_entries := free_entries c1 @ [n],
            bc_map := AList.delete (bn_index (bc_nodes c1 n)) (bc_map c1)\<rparr>"
    "bc_ok c2 (remove1 n ns)" "bc_size c2 = bc_size c"
    "map (payload \<circ> bc_nodes c2) (remove1 n ns) = map (payload \<circ> bc_nodes c) (remove1 n ns)"
proof -
  obtain f where f: "bc_detach n c = Some (c\<lparr>bc_nodes := f\<rparr>)"
    "bc_ok (c\<lparr>bc_nodes := f, free_entries := free_entries c @ [n],
              bc_map := AList.delete (bn_index (bc_nodes c n)) (bc_map c)\<rparr>) (remove1 n ns)"
    "\<And>x. payload (f x) = payload (bc_nodes c x)"
    using bc_ok_take_out [OF assms] by metis
  have p: "bn_index (f n) = bn_index (bc_nodes c n)" "bn_block (f n) = bn_block (bc_nodes c n)"
    "bn_dirty (f n) = bn_dirty (bc_nodes c n)" using f(3) [of n] by (simp_all add: payload_def)
  show ?thesis
    by (rule that [OF f(1) _ refl]) (use f(2) in \<open>simp_all add: p f(3) bc_release_eq\<close>, simp_all add: payload_def)
qed

lemma bc_remove_refines:
  assumes "bc_rep c es"
  obtains c' where "bc_remove k c st = (case map_of es k of None \<Rightarrow> Some (c', st)
                                        | Some v \<Rightarrow> map_option (\<lambda>st'. (c', st')) (retire v st))"
    "bc_rep c' (AList.delete k es)" "bc_size c' = bc_size c"
proof -
  obtain ns where ns: "bc_ok c ns" "es = map (payload \<circ> bc_nodes c) ns"
    using assms unfolding bc_rep_def by blast
  show ?thesis
  proof (cases "map_of (bc_map c) k")
    case None
    then have e: "map_of es k = None" using bc_rep_lookup [OF assms] by simp
    then have "AList.delete k es = es" by (simp add: map_of_eq_None_iff)
    with None e assms show ?thesis by (intro that [of c]) (simp_all add: bc_remove_def)
  next
    case (Some n)
    then have n: "n \<in> set ns" "bn_index (bc_nodes c n) = k"
      using ns(1) unfolding bc_ok_def by blast+
    obtain c1 c2 where c: "bc_detach n c = Some c1"
      "\<And>st. bc_release n c1 st = map_option (\<lambda>st. (c1\<lparr>free_entries := free_entries c1 @ [n]\<rparr>, st))
               (retire (bn_block (bc_nodes c n), bn_dirty (bc_nodes c n)) st)"
      "c2 = c1\<lparr>free_entries := free_entries c1 @ [n],
              bc_map := AList.delete (bn_index (bc_nodes c1 n)) (bc_map c1)\<rparr>"
      "bc_ok c2 (remove1 n ns)" "bc_size c2 = bc_size c"
      "map (payload \<circ> bc_nodes c2) (remove1 n ns) = map (payload \<circ> bc_nodes c) (remove1 n ns)"
      using bc_ok_remove_refines [OF ns(1) n(1)] by metis
    have "bc_rep c2 (AList.delete k es)"
      unfolding bc_rep_def ns using c(4,6) map_payload_remove1 [OF ns(1) n(1)] n(2) by auto
    moreover have "bc_remove k c st = map_option (\<lambda>st'. (c2, st')) (retire (bn_block (bc_nodes c n), bn_dirty (bc_nodes c n)) st)"
      using Some n(2) c(1-3) by (auto simp: bc_remove_def split: option.splits Option.bind_splits)
    ultimately show ?thesis using Some c(5) by (intro that [of c2]) (simp_all add: ns bc_ok_lookup)
  qed
qed

lemma dll_last: "dll f (h # ns @ [t]) \<Longrightarrow> ns \<noteq> [] \<Longrightarrow> bn_prev (f t) = Some (last ns)"
  by (metis (no_types) append_Cons append_Nil append_assoc append_butlast_last_id dll.simps(1) dll_split)

text \<open>Room for a new entry: the state after the eviction, if one is needed.\<close>

lemma bc_make_room:
  assumes "bc_ok c ns" "0 < bc_size c"
  defines "es \<equiv> map (payload \<circ> bc_nodes c) ns"
  obtains c' ns' where
    "\<And>st. (if free_entries c = [] then do {
              node \<leftarrow> bn_prev (bc_nodes c (bc_tail c));
              c \<leftarrow> bc_detach node c;
              (c, st) \<leftarrow> bc_release node c st;
              Some (c\<lparr>bc_map := AList.delete (bn_index (bc_nodes c node)) (bc_map c)\<rparr>, st)
            }
            else Some (c, st)) = map_option (\<lambda>st. (c', st)) (lru_evict (bc_size c) es st)"
    "bc_ok c' ns'" "free_entries c' \<noteq> []" "bc_size c' = bc_size c"
    "map (payload \<circ> bc_nodes c') ns' = (if length es < bc_size c then es else butlast es)"
proof -
  have "bc_rep c es" using assms(1) unfolding bc_rep_def es_def by blast
  then have len: "length es + length (free_entries c) = bc_size c" by (rule bc_rep_size)
  show ?thesis
  proof (cases "free_entries c = []")
    case False
    then have "length es < bc_size c" using len by (cases "free_entries c") simp_all
    then show ?thesis using assms(1) False
      by (intro that [of c ns]) (auto simp: lru_evict_def es_def)
  next
    case True
    then have ne: "ns \<noteq> []" "length es = bc_size c" using len assms(2) by (auto simp: es_def)
    have l: "last ns \<in> set ns" using ne by simp
    have prev: "bn_prev (bc_nodes c (bc_tail c)) = Some (last ns)"
      using assms(1) dll_last ne(1) unfolding bc_ok_def by blast
    have rm: "remove1 (last ns) ns = butlast ns"
    proof -
      have "distinct ns" using assms(1) by (simp add: bc_ok_def)
      then show ?thesis using ne(1) by (cases ns rule: rev_cases) (auto simp: remove1_append)
    qed
    have v: "snd (last es) = (bn_block (bc_nodes c (last ns)), bn_dirty (bc_nodes c (last ns)))"
      using ne(1) by (simp add: es_def last_map payload_def)
    obtain c1 c2 where c: "bc_detach (last ns) c = Some c1"
      "\<And>st. bc_release (last ns) c1 st = map_option (\<lambda>st. (c1\<lparr>free_entries := free_entries c1 @ [last ns]\<rparr>, st))
               (retire (snd (last es)) st)"
      "c2 = c1\<lparr>free_entries := free_entries c1 @ [last ns],
              bc_map := AList.delete (bn_index (bc_nodes c1 (last ns))) (bc_map c1)\<rparr>"
      "bc_ok c2 (butlast ns)" "bc_size c2 = bc_size c"
      "map (payload \<circ> bc_nodes c2) (butlast ns) = map (payload \<circ> bc_nodes c) (butlast ns)"
      using bc_ok_remove_refines [OF assms(1) l] unfolding rm v by metis
    show ?thesis
    proof (rule that [of c2 "butlast ns"])
      show "map (payload \<circ> bc_nodes c2) (butlast ns) = (if length es < bc_size c then es else butlast es)"
        using c(6) ne(2) by (simp add: es_def map_butlast)
    qed (use True prev c ne(2) in \<open>auto simp: lru_evict_def split: option.splits Option.bind_splits\<close>)
  qed
qed

lemma bc_insert_new_refines:
  assumes "bc_rep c es" "0 < bc_size c" "map_of es k = None"
  obtains c' where "bc_insert k a d c st = map_option (\<lambda>st'. (c', st')) (lru_evict (bc_size c) es st)"
    "bc_rep c' (lru_insert (bc_size c) k a d es)" "bc_size c' = bc_size c"
proof -
  obtain ns where ns: "bc_ok c ns" "es = map (payload \<circ> bc_nodes c) ns"
    using assms(1) unfolding bc_rep_def by blast
  let ?es = "if length es < bc_size c then es else butlast es"
  obtain c1 ns1 where c1: "\<And>st. (if free_entries c = [] then do {
              node \<leftarrow> bn_prev (bc_nodes c (bc_tail c));
              c \<leftarrow> bc_detach node c;
              (c, st) \<leftarrow> bc_release node c st;
              Some (c\<lparr>bc_map := AList.delete (bn_index (bc_nodes c node)) (bc_map c)\<rparr>, st)
            }
            else Some (c, st)) = map_option (\<lambda>st. (c1, st)) (lru_evict (bc_size c) es st)"
    "bc_ok c1 ns1" "free_entries c1 \<noteq> []" "bc_size c1 = bc_size c"
    "map (payload \<circ> bc_nodes c1) ns1 = ?es"
    by (rule bc_make_room [OF ns(1) assms(2)]) (auto simp: ns(2))
  have "bc_rep c1 ?es" unfolding bc_rep_def using c1(2,5) by metis
  moreover have "map_of ?es k = None"
    using assms(3) by (auto simp: map_of_eq_None_iff dest: in_set_butlastD)
  ultimately have k: "map_of (bc_map c1) k = None" by (simp only: bc_rep_lookup)
  let ?n = "last (free_entries c1)"
  let ?c = "bc_upd ?n (\<lambda>x. x\<lparr>bn_index := k, bn_block := a, bn_dirty := d\<rparr>)
                  (c1\<lparr>free_entries := butlast (free_entries c1)\<rparr>)\<lparr>bc_map := AList.update k ?n (bc_map c1)\<rparr>"
  obtain f where f: "bc_attach ?n ?c = Some (?c\<lparr>bc_nodes := f\<rparr>)" "bc_ok (?c\<lparr>bc_nodes := f\<rparr>) (?n # ns1)"
    "payload (f ?n) = (k, a, d)" "\<And>x. x \<in> set ns1 \<Longrightarrow> payload (f x) = payload (bc_nodes c1 x)"
    using bc_ok_put_in [OF c1(2,3) k, where a = a and d = d] by metis
  let ?c' = "?c\<lparr>bc_nodes := f\<rparr>"
  have "map (payload \<circ> f) ns1 = ?es" using c1(5) f(4) by (metis (no_types, lifting) comp_apply map_cong)
  then have "bc_rep ?c' (lru_insert (bc_size c) k a d es)"
    unfolding bc_rep_def using f(2,3) by (intro exI [of _ "?n # ns1"]) (simp add: lru_insert_def)
  moreover have "bc_insert k a d c st = map_option (\<lambda>st'. (?c', st')) (lru_evict (bc_size c) es st)"
    using bc_rep_lookup [OF assms(1), of k] assms(3) f(1)
    by (simp add: bc_insert_def c1(1) Let_def bc_upd_def del: map_of_eq_None_iff)
       (cases "lru_evict (bc_size c) es st"; simp)
  moreover have "bc_size ?c' = bc_size c" by (simp add: bc_upd_def c1(4))
  ultimately show ?thesis using that by blast
qed

lemma bc_insert_old_refines:
  assumes "bc_rep c es" "map_of es k = Some (a, b)"
  obtains c' where "bc_insert k a d c st = Some (c', st)" "bc_rep c' (lru_touch k d es)" "bc_size c' = bc_size c"
proof -
  obtain ns where ns: "bc_ok c ns" "es = map (payload \<circ> bc_nodes c) ns"
    using assms(1) unfolding bc_rep_def by blast
  obtain n where n: "map_of (bc_map c) k = Some n" "a = bn_block (bc_nodes c n)" "b = bn_dirty (bc_nodes c n)"
    using assms(2) unfolding ns(2) bc_ok_lookup [OF ns(1)] by auto
  then have m: "n \<in> set ns" "bn_index (bc_nodes c n) = k"
    using ns(1) unfolding bc_ok_def by blast+
  let ?c = "bc_upd n (\<lambda>x. x\<lparr>bn_dirty := bn_dirty x \<or> d\<rparr>) c"
  have ok: "bc_ok ?c ns" by (rule bc_ok_dirty [OF ns(1)])
  obtain f where f: "bc_detach n ?c \<bind> bc_attach n = Some (?c\<lparr>bc_nodes := f\<rparr>)"
    "bc_ok (?c\<lparr>bc_nodes := f\<rparr>) (n # remove1 n ns)" "\<And>x. payload (f x) = payload (bc_nodes ?c x)"
    by (rule bc_ok_front [OF ok m(1)]) (rule that)
  obtain c1 where c1: "bc_detach n ?c = Some c1" "bc_attach n c1 = Some (?c\<lparr>bc_nodes := f\<rparr>)"
    using f(1) by (auto elim: bind_eq_SomeE)
  have "n \<notin> set (remove1 n ns)" using ns(1) by (simp add: bc_ok_def)
  then have "map (payload \<circ> f) (remove1 n ns) = map (payload \<circ> bc_nodes c) (remove1 n ns)"
    by (intro map_cong) (auto simp: bc_upd_def f(3))
  then have "map (payload \<circ> f) (n # remove1 n ns) = lru_touch k d es"
    using map_payload_remove1 [OF ns(1) m(1)] assms(2) n(2,3) m(2) ns(2)
    by (simp add: lru_touch_def f(3) bc_upd_def) (simp add: payload_def)
  then have "bc_rep (?c\<lparr>bc_nodes := f\<rparr>) (lru_touch k d es)"
    unfolding bc_rep_def by (intro exI [of _ "n # remove1 n ns"] conjI f(2)) simp
  moreover have "bc_insert k a d c st = Some (?c\<lparr>bc_nodes := f\<rparr>, st)"
    using n c1 by (simp add: bc_insert_def Let_def) (simp add: bc_upd_def)
  ultimately show ?thesis by (intro that [of "?c\<lparr>bc_nodes := f\<rparr>"]) (simp_all add: bc_upd_def)
qed

lemma lru_mark_absent: "map_of es k = None \<Longrightarrow> lru_mark k d es = es"
  unfolding lru_mark_def map_of_eq_None_iff by (rule map_idI) force

lemma bc_modify_refines:
  assumes "bc_rep c es"
  shows "bc_rep (bc_modify k c) (lru_mark k True es)"
proof -
  obtain ns where ns: "bc_ok c ns" "es = map (payload \<circ> bc_nodes c) ns"
    using assms unfolding bc_rep_def by blast
  show ?thesis
  proof (cases "map_of (bc_map c) k")
    case None
    then show ?thesis using assms bc_rep_lookup [OF assms, of k] by (simp add: bc_modify_def lru_mark_absent)
  next
    case (Some n)
    then have n: "n \<in> set ns" "bn_index (bc_nodes c n) = k"
      using ns(1) unfolding bc_ok_def by blast+
    have "bc_ok (bc_modify k c) ns" using bc_ok_dirty [OF ns(1), of n "\<lambda>_. True"] Some by (simp add: bc_modify_def)
    moreover have "map (payload \<circ> bc_nodes (bc_modify k c)) ns = lru_mark k True es"
      using map_payload_dirty [OF ns(1) n(1), of True] Some n(2) ns(2) by (simp add: bc_modify_def)
    ultimately show ?thesis unfolding bc_rep_def by metis
  qed
qed

lemma bc_insert_clash:
  assumes "bc_rep c es" "map_of es k = Some (b, dr)" "a \<noteq> b" "\<not> ndebug st"
  shows "bc_insert k a d c st = None"
proof -
  obtain ns where ns: "bc_ok c ns" "es = map (payload \<circ> bc_nodes c) ns"
    using assms(1) unfolding bc_rep_def by blast
  obtain n where "map_of (bc_map c) k = Some n" "b = bn_block (bc_nodes c n)"
    using assms(2) unfolding ns(2) bc_ok_lookup [OF ns(1)] by auto
  with assms(3,4) show ?thesis by (simp add: bc_insert_def bc_upd_def Let_def)
qed

lemma bc_insert_block_irrelevant:
  assumes "map_of (bc_map c) k = Some n" "ndebug st"
  shows "bc_insert k a d c st = bc_insert k a' d c st"
  using assms by (simp add: bc_insert_def Let_def)

section \<open>Sequences of operations\<close>

text \<open>
  An operation of the cache, what it hands back (the block for \<open>get\<close>), and runs of operations, on
  the cache itself and on the specification.
\<close>

datatype bc_op = Op_get u32 bool | Op_insert u32 addr bool | Op_remove u32 | Op_modify u32

fun bc_step :: "bc_op \<Rightarrow> block_cache \<Rightarrow> store \<Rightarrow> (addr option \<times> block_cache \<times> store) option" where
  "bc_step (Op_get k d) c st = map_option (\<lambda>(r, c). (r, c, st)) (bc_get k d c st)"
| "bc_step (Op_insert k a d) c st = map_option (\<lambda>(c, st). (None, c, st)) (bc_insert k a d c st)"
| "bc_step (Op_remove k) c st = map_option (\<lambda>(c, st). (None, c, st)) (bc_remove k c st)"
| "bc_step (Op_modify k) c st = Some (None, bc_modify k c, st)"

fun lru_step ::
  "nat \<Rightarrow> bc_op \<Rightarrow> bc_entry list \<Rightarrow> store \<Rightarrow> (addr option \<times> bc_entry list \<times> store) option" where
  "lru_step cap (Op_get k d) es st = Some (map_option fst (map_of es k), lru_touch k d es, st)"
| "lru_step cap (Op_insert k a d) es st =
     (case map_of es k of
        None \<Rightarrow> map_option (\<lambda>st. (None, lru_insert cap k a d es, st)) (lru_evict cap es st)
      | Some (b, _) \<Rightarrow> if ndebug st \<or> a = b then Some (None, lru_touch k d es, st) else None)"
| "lru_step cap (Op_remove k) es st =
     (case map_of es k of
        None \<Rightarrow> Some (None, es, st)
      | Some v \<Rightarrow> map_option (\<lambda>st. (None, AList.delete k es, st)) (retire v st))"
| "lru_step cap (Op_modify k) es st = Some (None, lru_mark k True es, st)"

fun bc_run :: "bc_op list \<Rightarrow> block_cache \<Rightarrow> store \<Rightarrow> (addr option list \<times> block_cache \<times> store) option" where
  "bc_run [] c st = Some ([], c, st)"
| "bc_run (x # xs) c st = do {
     (r, c, st) \<leftarrow> bc_step x c st;
     (rs, c, st) \<leftarrow> bc_run xs c st;
     Some (r # rs, c, st)
   }"

fun lru_run ::
  "nat \<Rightarrow> bc_op list \<Rightarrow> bc_entry list \<Rightarrow> store \<Rightarrow> (addr option list \<times> bc_entry list \<times> store) option" where
  "lru_run cap [] es st = Some ([], es, st)"
| "lru_run cap (x # xs) es st = do {
     (r, es, st) \<leftarrow> lru_step cap x es st;
     (rs, es, st) \<leftarrow> lru_run cap xs es st;
     Some (r # rs, es, st)
   }"

text \<open>One step of the cache and one of the specification fail together or agree.\<close>

definition step_agrees ::
  "nat \<Rightarrow> (addr option \<times> block_cache \<times> store) option \<Rightarrow> (addr option \<times> bc_entry list \<times> store) option \<Rightarrow> bool" where
  "step_agrees cap x y \<longleftrightarrow>
     (case y of
        None \<Rightarrow> x = None
      | Some (r, es, st) \<Rightarrow> \<exists>c. x = Some (r, c, st) \<and> bc_rep c es \<and> bc_size c = cap)"

lemma bc_step_refines:
  assumes R: "bc_rep c es" and sz: "bc_size c = cap" "0 < cap"
  shows "step_agrees cap (bc_step x c st) (lru_step cap x es st)"
proof (cases x)
  case (Op_get k d)
  obtain c' where "bc_get k d c st = Some (map_option fst (map_of es k), c')"
    "bc_rep c' (lru_touch k d es)" "bc_size c' = bc_size c"
    by (rule bc_get_refines [OF R])
  then show ?thesis by (simp add: Op_get step_agrees_def sz)
next
  case (Op_insert k a d)
  show ?thesis
  proof (cases "map_of es k")
    case None
    obtain c' where "bc_insert k a d c st = map_option (\<lambda>st'. (c', st')) (lru_evict cap es st)"
      "bc_rep c' (lru_insert cap k a d es)" "bc_size c' = cap"
      using bc_insert_new_refines [OF R _ None] sz by metis
    then show ?thesis using None by (simp add: Op_insert step_agrees_def split: option.split)
  next
    case (Some v)
    obtain b dr where v: "v = (b, dr)" by force
    obtain c' where c': "bc_insert k b d c st = Some (c', st)" "bc_rep c' (lru_touch k d es)" "bc_size c' = cap"
      using bc_insert_old_refines [OF R Some [unfolded v]] sz by metis
    obtain n where n: "map_of (bc_map c) k = Some n"
      using bc_rep_lookup [OF R, of k] Some by auto
    have "bc_insert k a d c st = (if ndebug st \<or> a = b then Some (c', st) else None)"
      using c'(1) bc_insert_block_irrelevant [OF n, of st a d b] bc_insert_clash [OF R Some [unfolded v]] by auto
    then show ?thesis using c' Some by (simp add: Op_insert step_agrees_def v)
  qed
next
  case (Op_remove k)
  obtain c' where "bc_remove k c st = (case map_of es k of None \<Rightarrow> Some (c', st)
                                        | Some v \<Rightarrow> map_option (\<lambda>st'. (c', st')) (retire v st))"
    "bc_rep c' (AList.delete k es)" "bc_size c' = bc_size c"
    by (rule bc_remove_refines [OF R])
  moreover have "map_of es k = None \<Longrightarrow> AList.delete k es = es" by (simp add: map_of_eq_None_iff)
  ultimately show ?thesis by (auto simp: Op_remove step_agrees_def sz split: option.split)
next
  case (Op_modify k)
  have "bc_size (bc_modify k c) = bc_size c" by (simp add: bc_modify_def bc_upd_def split: option.split)
  then show ?thesis using bc_modify_refines [OF R] by (simp add: Op_modify step_agrees_def sz)
qed

lemma bc_run_refines:
  assumes "bc_rep c es" "bc_size c = cap" "0 < cap"
  shows "case lru_run cap xs es st of
           None \<Rightarrow> bc_run xs c st = None
         | Some (rs, es', st') \<Rightarrow> \<exists>c'. bc_run xs c st = Some (rs, c', st') \<and> bc_rep c' es' \<and> bc_size c' = cap"
  using assms(1,2)
proof (induction xs arbitrary: c es st)
  case (Cons x xs)
  have S: "step_agrees cap (bc_step x c st) (lru_step cap x es st)"
    using Cons.prems assms(3) by (rule bc_step_refines)
  show ?case
  proof (cases "lru_step cap x es st")
    case None
    with S show ?thesis by (simp add: step_agrees_def)
  next
    case (Some y)
    obtain r es1 st1 where y: "y = (r, es1, st1)" by (cases y)
    with S Some obtain c1 where c1: "bc_step x c st = Some (r, c1, st1)" "bc_rep c1 es1" "bc_size c1 = cap"
      by (auto simp: step_agrees_def)
    show ?thesis using Cons.IH [OF c1(2,3), of st1] c1(1) Some y
      by (auto split: option.splits)
  qed
qed simp

text \<open>
  How long a block pointer stays valid. \<open>lru_before k es\<close> are the keys used more recently than \<open>k\<close>.
\<close>

definition lru_before :: "u32 \<Rightarrow> bc_entry list \<Rightarrow> u32 set" where
  "lru_before k es = fst ` set (takeWhile (\<lambda>e. fst e \<noteq> k) es)"

fun op_key :: "bc_op \<Rightarrow> u32" where
  "op_key (Op_get k _) = k"
| "op_key (Op_insert k _ _) = k"
| "op_key (Op_remove k) = k"
| "op_key (Op_modify k) = k"

text \<open>An operation that may neither remove \<open>k\<close> nor put the block \<open>a\<close> under another key.\<close>

fun op_spares :: "u32 \<Rightarrow> addr \<Rightarrow> bc_op \<Rightarrow> bool" where
  "op_spares k a (Op_remove j) \<longleftrightarrow> j \<noteq> k"
| "op_spares k a (Op_insert j b _) \<longleftrightarrow> j = k \<or> b \<noteq> a"
| "op_spares k a _ \<longleftrightarrow> True"

text \<open>\<open>k\<close> is cached with block \<open>a\<close>, no other entry has that block, and only keys of \<open>F\<close> are in front.\<close>

definition lru_holds :: "nat \<Rightarrow> u32 set \<Rightarrow> u32 \<Rightarrow> addr \<Rightarrow> bc_entry list \<Rightarrow> bool" where
  "lru_holds cap F k a es \<longleftrightarrow>
     (\<exists>xs d ys. es = xs @ (k, a, d) # ys \<and> distinct (map fst es) \<and> length es \<le> cap \<and>
        fst ` set xs \<subseteq> F \<and> (\<forall>e \<in> set xs \<union> set ys. fst (snd e) \<noteq> a))"

lemma lru_holdsI:
  assumes "es = xs @ (k, a, d) # ys" "distinct (map fst es)" "length es \<le> cap" "fst ` set xs \<subseteq> F"
    and "\<forall>e \<in> set xs \<union> set ys. fst (snd e) \<noteq> a"
  shows "lru_holds cap F k a es"
  unfolding lru_holds_def using assms by blast

lemma lru_holds_lookup: "lru_holds cap F k a es \<Longrightarrow> map_option fst (map_of es k) = Some a"
  by (auto simp: lru_holds_def map_add_Some_iff map_of_eq_None_iff)

lemma delete_append: "AList.delete j (xs @ ys) = AList.delete j xs @ AList.delete j ys"
  by (simp add: AList.delete_eq)

lemma length_delete:
  "distinct (map fst es) \<Longrightarrow> map_of es j \<noteq> None \<Longrightarrow> Suc (length (AList.delete j es)) = length es"
proof (induction es)
  case (Cons e es)
  show ?case
  proof (cases "fst e = j")
    case True
    then have "j \<notin> fst ` set es" using Cons.prems(1) by auto
    then show ?thesis using True by (cases e) simp
  next
    case False
    then have "map_of es j \<noteq> None" using Cons.prems(2) by (cases e) auto
    then show ?thesis using Cons.IH Cons.prems(1) False by (cases e) auto
  qed
qed simp

lemma lru_holds_touch:
  assumes "lru_holds cap F k a es" "j \<in> insert k F"
  shows "lru_holds cap F k a (lru_touch j d es)"
proof (cases "map_of es j")
  case None
  then show ?thesis using assms(1) by (simp add: lru_touch_def)
next
  case (Some v)
  obtain b e where v: "v = (b, e)" by force
  obtain xs dk ys where es: "es = xs @ (k, a, dk) # ys" "distinct (map fst es)" "length es \<le> cap"
    "fst ` set xs \<subseteq> F" "\<forall>e \<in> set xs \<union> set ys. fst (snd e) \<noteq> a"
    using assms(1) unfolding lru_holds_def by blast
  let ?t = "(j, b, e \<or> d) # AList.delete j es"
  have "length ?t = length es" using length_delete [OF es(2)] Some by simp
  then have len: "length ?t \<le> cap" using es(3) by simp
  have dist: "distinct (map fst ?t)" using es(2) by (simp add: AList.delete_keys distinct_removeAll)
  have mem: "(j, b, e) \<in> set es" using map_of_SomeD [OF Some] by (simp add: v)
  show ?thesis
  proof (cases "j = k")
    case True
    then have "b = a" using mem es(2) unfolding es(1) by force
    then have t: "lru_touch j d es = [] @ (k, a, e \<or> d) # AList.delete j es" "lru_touch j d es = ?t"
      using True Some v by (simp_all add: lru_touch_def)
    have "\<forall>e \<in> set (AList.delete j es). fst (snd e) \<noteq> a"
      using es(5) True by (auto simp: es(1) AList.delete_eq)
    then show ?thesis using len dist unfolding t(2) [symmetric] by (intro lru_holdsI [OF t(1)]) simp_all
  next
    case False
    then have "(j, b, e) \<in> set xs \<union> set ys" using mem by (simp add: es(1))
    with es(5) have "fst (snd (j, b, e)) \<noteq> a" by (rule bspec)
    then have "b \<noteq> a" by simp
    moreover have "j \<in> F" using assms(2) False by simp
    moreover have "?t = ((j, b, e \<or> d) # AList.delete j xs) @ (k, a, dk) # AList.delete j ys"
      using False by (simp add: es(1) delete_append)
    ultimately show ?thesis using es(4,5) len dist unfolding lru_touch_def Some v
      by (intro lru_holdsI [where xs = "(j, b, e \<or> d) # AList.delete j xs"]) (auto simp: AList.delete_eq)
  qed
qed

lemma lru_holds_insert:
  assumes H: "lru_holds cap F k a es" and j: "map_of es j = None" "j \<in> F" "b \<noteq> a"
    and F: "finite F" "card F < cap"
  shows "lru_holds cap F k a (lru_insert cap j b d es)" "cap \<le> length es \<Longrightarrow> fst (snd (last es)) \<noteq> a"
proof -
  obtain xs dk ys where es: "es = xs @ (k, a, dk) # ys" "distinct (map fst es)" "length es \<le> cap"
    "fst ` set xs \<subseteq> F" "\<forall>e \<in> set xs \<union> set ys. fst (snd e) \<noteq> a"
    using H unfolding lru_holds_def by blast
  have jn: "j \<notin> fst ` set es" using j(1) by (simp add: map_of_eq_None_iff)
  have "card (fst ` set xs) < card F"
    using F(1) es(4) j(2) jn by (intro psubset_card_mono) (auto simp: es(1))
  moreover have "card (fst ` set xs) = length xs"
    using es(1,2) distinct_card [of "map fst xs"] by simp
  ultimately have xs: "length xs + 1 < cap" using F(2) by simp
  then have full: "ys \<noteq> []" if "cap \<le> length es" using that es(1) by auto
  then show "cap \<le> length es \<Longrightarrow> fst (snd (last es)) \<noteq> a" using es(1,5) by (auto simp: last_in_set)
  define zs where "zs = (if length es < cap then ys else butlast ys)"
  have eq: "lru_insert cap j b d es = ((j, b, d) # xs) @ (k, a, dk) # zs"
    using full by (auto simp: lru_insert_def zs_def es(1) butlast_append)
  have sub: "set zs \<subseteq> set ys" by (auto simp: zs_def dest: in_set_butlastD)
  have "distinct (map fst zs)" using es(1,2) by (auto simp: zs_def map_butlast distinct_butlast)
  moreover have "fst ` set zs \<subseteq> fst ` set ys" using sub by (rule image_mono)
  moreover have "fst ` set xs \<inter> fst ` set ys = {}" "k \<notin> fst ` set ys" "j \<notin> fst ` set ys"
    "distinct (map fst ((j, b, d) # xs @ [(k, a, dk)]))"
    using es(1,2) jn by auto
  ultimately have "distinct (map fst (lru_insert cap j b d es))" unfolding eq by simp blast
  moreover have "length (lru_insert cap j b d es) \<le> cap"
    using es(1,3) by (auto simp: lru_insert_def)
  moreover have "\<forall>e \<in> set ((j, b, d) # xs) \<union> set zs. fst (snd e) \<noteq> a" using es(5) j(3) sub by auto
  moreover have "fst ` set ((j, b, d) # xs) \<subseteq> F" using es(4) j(2) by simp
  ultimately show "lru_holds cap F k a (lru_insert cap j b d es)" using lru_holdsI [OF eq] by blast
qed

lemma heap_retire: "retire v st = Some st' \<Longrightarrow> a \<noteq> fst v \<Longrightarrow> heap st' a = heap st a"
  by (auto simp: retire_def block_flush_def block_delete_def Let_def split_beta bind_eq_Some_conv split: if_splits)

lemma lru_holds_delete:
  assumes "lru_holds cap F k a es" "j \<noteq> k"
  shows "lru_holds cap F k a (AList.delete j es)" "map_of es j = Some v \<Longrightarrow> fst v \<noteq> a"
proof -
  obtain xs dk ys where es: "es = xs @ (k, a, dk) # ys" "distinct (map fst es)" "length es \<le> cap"
    "fst ` set xs \<subseteq> F" "\<forall>e \<in> set xs \<union> set ys. fst (snd e) \<noteq> a"
    using assms(1) unfolding lru_holds_def by blast
  have "length (AList.delete j es) \<le> cap" using es(3) by (meson AList.length_delete_le order_trans)
  moreover have "distinct (map fst (AList.delete j es))" using es(2) by (rule AList.distinct_delete)
  ultimately show "lru_holds cap F k a (AList.delete j es)"
    using es(4,5) assms(2)
    by (intro lru_holdsI [where xs = "AList.delete j xs" and d = dk and ys = "AList.delete j ys"])
       (auto simp: es(1) delete_append AList.delete_eq)
  assume "map_of es j = Some v"
  then have "(j, v) \<in> set xs \<union> set ys" using assms(2) by (auto simp: es(1) dest!: map_of_SomeD)
  with es(5) have "fst (snd (j, v)) \<noteq> a" by (rule bspec)
  then show "fst v \<noteq> a" by simp
qed

lemma lru_mark_simps [simp]:
  "map fst (lru_mark j d es) = map fst es" "length (lru_mark j d es) = length es"
  "fst ` set (lru_mark j d es) = fst ` set es"
  "lru_mark j d (xs @ ys) = lru_mark j d xs @ lru_mark j d ys"
  "lru_mark j d ((k, a, b) # es) = (k, a, b \<or> k = j \<and> d) # lru_mark j d es"
  by (force simp: lru_mark_def)+

lemma lru_mark_blocks: "(fst \<circ> snd) ` set (lru_mark j d es) = (fst \<circ> snd) ` set es"
  by (force simp: lru_mark_def)

lemma lru_holds_mark: "lru_holds cap F k a es \<Longrightarrow> lru_holds cap F k a (lru_mark j d es)"
proof -
  assume "lru_holds cap F k a es"
  then obtain xs dk ys where es: "es = xs @ (k, a, dk) # ys" "distinct (map fst es)" "length es \<le> cap"
    "fst ` set xs \<subseteq> F" "\<forall>e \<in> set xs \<union> set ys. fst (snd e) \<noteq> a"
    unfolding lru_holds_def by blast
  have "a \<notin> (fst \<circ> snd) ` set (lru_mark j d (xs @ ys))" unfolding lru_mark_blocks using es(5) by auto
  then show ?thesis
    by (intro lru_holdsI [where xs = "lru_mark j d xs" and d = "dk \<or> k = j \<and> d" and ys = "lru_mark j d ys"])
       (use es in \<open>auto\<close>)
qed

lemma lru_step_holds:
  assumes "lru_holds cap F k a es" "op_key x \<in> insert k F" "op_spares k a x" "finite F" "card F < cap"
    and "lru_step cap x es st = Some (r, es', st')"
  shows "lru_holds cap F k a es' \<and> heap st' a = heap st a"
proof (cases x)
  case (Op_get j d)
  then show ?thesis using assms lru_holds_touch by auto
next
  case (Op_insert j b d)
  show ?thesis
  proof (cases "map_of es j")
    case None
    then have jk: "j \<noteq> k" using lru_holds_lookup [OF assms(1)] by auto
    then have j: "j \<in> F" "b \<noteq> a" using assms(2,3) Op_insert by auto
    have "es' = lru_insert cap j b d es" "lru_evict cap es st = Some st'"
      using assms(6) Op_insert None by auto
    then show ?thesis using lru_holds_insert [OF assms(1) None j assms(4,5)] heap_retire
      by (auto simp: lru_evict_def split: if_splits)
  next
    case (Some v)
    then show ?thesis using assms Op_insert lru_holds_touch by (auto split: prod.splits if_splits)
  qed
next
  case (Op_remove j)
  then have jk: "j \<noteq> k" using assms(3) by simp
  show ?thesis
  proof (cases "map_of es j")
    case None
    then show ?thesis using assms(1,6) Op_remove by simp
  next
    case (Some v)
    then show ?thesis
      using lru_holds_delete [OF assms(1) jk] assms(6) Op_remove heap_retire [of v st st' a] by auto
  qed
next
  case (Op_modify j)
  then show ?thesis using assms lru_holds_mark by auto
qed

lemma lru_run_holds:
  assumes "lru_holds cap F k a es" "\<forall>x \<in> set xs. op_key x \<in> insert k F \<and> op_spares k a x"
    and "finite F" "card F < cap" "lru_run cap xs es st = Some (rs, es', st')"
  shows "lru_holds cap F k a es' \<and> heap st' a = heap st a"
  using assms(1,2,5)
proof (induction xs arbitrary: es st rs)
  case (Cons x xs)
  from Cons.prems(3) obtain r es1 st1 rs1 where s: "lru_step cap x es st = Some (r, es1, st1)"
    "lru_run cap xs es1 st1 = Some (rs1, es', st')"
    by (auto elim!: bind_eq_SomeE)
  have "lru_holds cap F k a es1 \<and> heap st1 a = heap st a"
    using Cons.prems(1,2) assms(3,4) s(1) by (intro lru_step_holds) auto
  with Cons.IH [of es1 st1 rs1] Cons.prems(2) s(2) show ?case by auto
qed simp

section \<open>Properties\<close>

text \<open>A store with three blocks, for examples.\<close>

definition demo_store :: store where
  "demo_store = \<lparr>ndebug = False, device = sound_disk 16384 (\<lambda>_. 1),
     heap = (\<lambda>a. if a < 3 then Some \<lparr>blk_offset = 4096 * a, blk_data = (\<lambda>_. 0)\<rparr> else None), brk = 3\<rparr>"

text \<open>
  C16 (refinement): the block cache behaves as an LRU list of bounded length. Any sequence of
  \<open>get\<close>, \<open>insert\<close>, \<open>remove\<close> and \<open>modify\<close> on a new cache has no defined continuation exactly when the
  specification has none. Otherwise it returns the blocks that the specification returns, leaves
  the same device and heap behind (the same blocks written back and deleted, in the same order),
  and the map, the linked nodes and the free entries of the cache represent the list of the
  specification afterwards, which is never longer than the capacity.
\<close>

theorem block_cache_refines_lru:
  assumes "0 < sz"
  shows "case lru_run sz xs [] st of
           None \<Rightarrow> bc_run xs (BlockCache_new sz) st = None
         | Some (rs, es, st') \<Rightarrow>
             \<exists>c. bc_run xs (BlockCache_new sz) st = Some (rs, c, st') \<and> bc_rep c es \<and> bc_size c = sz \<and> length es \<le> sz"
proof -
  have "bc_size (BlockCache_new sz) = sz" by (simp add: BlockCache_new_def)
  from bc_run_refines [OF bc_rep_new this assms, of xs st] show ?thesis
    using bc_rep_size by (fastforce split: option.splits)
qed

theorem block_cache_refines_lru_witness:
  "\<exists>c st'. bc_run [Op_insert 7 0 True, Op_insert 9 1 False, Op_get 9 False, Op_insert 8 2 False, Op_get 7 True]
        (BlockCache_new 2) demo_store = Some ([None, None, Some 1, None, None], c, st') \<and>
     bc_rep c [(8, 2, False), (9, 1, False)] \<and> heap st' 0 = None"
proof -
  let ?xs = "[Op_insert 7 0 True, Op_insert 9 1 False, Op_get 9 False, Op_insert 8 2 False, Op_get 7 True]"
  have "map_option (\<lambda>(rs, es, st'). (rs, es, heap st' 0 = None)) (lru_run 2 ?xs [] demo_store) =
          Some ([None, None, Some 1, None, None], [(8, 2, False), (9, 1, False)], True)"
    by (simp add: lru_insert_def lru_evict_def lru_touch_def retire_def block_flush_def block_delete_def
        demo_store_def Let_def split_beta)
  then obtain st' where "lru_run 2 ?xs [] demo_store = Some ([None, None, Some 1, None, None], [(8, 2, False), (9, 1, False)], st')"
    "heap st' 0 = None" by auto
  then show ?thesis using block_cache_refines_lru [of 2 ?xs demo_store] by auto
qed

text \<open>
  C18 (safety): how long a block pointer obtained from the cache can be used. As long as fewer than
  \<open>size_\<close> distinct other blocks are more recent or get used, block \<open>k\<close> is neither written back nor
  deleted nor replaced: its object on the heap is untouched and \<open>get\<close> still returns it.
\<close>

theorem block_ptr_stays_valid:
  assumes "bc_rep c es" "lru_holds (bc_size c) F k a es" "finite F" "card F < bc_size c"
    and "\<forall>x \<in> set xs. op_key x \<in> insert k F \<and> op_spares k a x"
    and "bc_run xs c st = Some (rs, c', st')"
  shows "heap st' a = heap st a \<and> (\<exists>c''. bc_get k d c' st' = Some (Some a, c''))"
proof -
  have "0 < bc_size c" using assms(4) by simp
  from bc_run_refines [OF assms(1) refl this, of xs st] assms(6)
  obtain es' where es': "lru_run (bc_size c) xs es st = Some (rs, es', st')" "bc_rep c' es'"
    by (auto split: option.splits prod.splits)
  have H: "lru_holds (bc_size c) F k a es' \<and> heap st' a = heap st a"
    by (rule lru_run_holds [OF assms(2,5,3,4) es'(1)])
  obtain c'' where "bc_get k d c' st' = Some (map_option fst (map_of es' k), c'')"
    by (rule bc_get_refines [OF es'(2)])
  with H lru_holds_lookup show ?thesis by fastforce
qed

theorem block_ptr_stays_valid_witness:
  "\<exists>c rs c'. bc_insert 7 0 False (BlockCache_new 3) demo_store = Some (c, demo_store) \<and>
     bc_run [Op_insert 9 1 True, Op_insert 8 2 False, Op_get 9 False] c demo_store = Some (rs, c', demo_store) \<and>
     (\<exists>c''. bc_get 7 False c' demo_store = Some (Some 0, c''))"
proof -
  let ?xs = "[Op_insert 9 1 True, Op_insert 8 2 False, Op_get 9 False]"
  have sz: "bc_size (BlockCache_new 3) = 3" by (simp add: BlockCache_new_def)
  obtain c where c: "bc_insert 7 0 False (BlockCache_new 3) demo_store = Some (c, demo_store)"
    "bc_rep c [(7, 0, False)]" "bc_size c = 3"
    using bc_insert_new_refines [OF bc_rep_new, of 3 7 0 False demo_store]
    unfolding sz by (auto simp: lru_evict_def lru_insert_def)
  have "lru_run 3 ?xs [(7, 0, False)] demo_store =
      Some ([None, None, Some 1], [(9, 1, True), (8, 2, False), (7, 0, False)], demo_store)"
    by (simp add: lru_insert_def lru_evict_def lru_touch_def)
  with bc_run_refines [OF c(2,3), of ?xs demo_store]
  obtain c' where c': "bc_run ?xs c demo_store = Some ([None, None, Some 1], c', demo_store)" by auto
  have "lru_holds 3 {8, 9} 7 0 [(7, 0, False)]"
    by (rule lru_holdsI [of _ "[]"]) auto
  then have "\<exists>c''. bc_get 7 False c' demo_store = Some (Some 0, c'')"
    using block_ptr_stays_valid [OF c(2), of "{8, 9}" 7 0 ?xs demo_store _ c' demo_store False] c(3) c' by simp
  with c(1) c' show ?thesis by blast
qed

end

