(* ===== verification/Dentry_Block.thy ===== *)
theory Dentry_Block
  imports Block_Store
begin

text \<open>
  \<open>DentryBlock\<close> of \<open>include/block.h\<close>: a view of a data block as a sequence of variable-length
  directory entries \<open>ext2_dir_entry_2\<close> (\<open>inode\<close> at offset 0, \<open>rec_len\<close> at 4, \<open>name_len\<close> at 6,
  \<open>file_type\<close> at 7, the name from 8 on). A pointer to an entry is its offset in the block, and every
  access goes through the block pointer.
\<close>

section \<open>Entries in a buffer\<close>

definition de_inode :: "bytes \<Rightarrow> nat \<Rightarrow> u32" where
  "de_inode d p = get_u32 d p"

definition de_rec_len :: "bytes \<Rightarrow> nat \<Rightarrow> nat" where
  "de_rec_len d p = unat (get_u16 d (p + 4))"

definition de_name_len :: "bytes \<Rightarrow> nat \<Rightarrow> nat" where
  "de_name_len d p = unat (d (p + 6))"

definition de_name :: "bytes \<Rightarrow> nat \<Rightarrow> byte list" where
  "de_name d p = get_bytes d (p + sizeof_dir_entry) (de_name_len d p)"

text \<open>
  The comparison made by every search: the lengths first, then \<open>memcmp\<close> on the bytes, which is
  undefined when the name runs past the block.
\<close>

definition de_matches :: "bytes \<Rightarrow> nat \<Rightarrow> byte list \<Rightarrow> bool option" where
  "de_matches d p name =
     (if de_name_len d p \<noteq> length name then Some False
      else do {
        defined_if (p + sizeof_dir_entry + length name \<le> BLOCK_SIZE);
        Some (get_bytes d (p + sizeof_dir_entry) (length name) = name)
      })"

section \<open>The class\<close>

record dentry_block =
  db_block :: addr
  db_dentries :: "nat list"
  db_size :: nat

text \<open>The loop of the constructor. The entry examined is always at offset \<open>size_\<close>.\<close>

function dentry_scan :: "bytes \<Rightarrow> nat list \<Rightarrow> nat \<Rightarrow> nat list \<times> nat" where
  "dentry_scan d ds sz =
     (if de_rec_len d sz = 0 then (ds, sz)
      else let ds' = ds @ [sz]; sz' = sz + de_rec_len d sz
           in if sz' + sizeof_dir_entry > BLOCK_SIZE then (ds', sz') else dentry_scan d ds' sz')"
  by pat_completeness auto
termination
  by (relation "measure (\<lambda>(d, ds, sz). BLOCK_SIZE - sz)") auto

declare dentry_scan.simps [simp del]

definition DentryBlock_new :: "addr \<Rightarrow> store \<Rightarrow> dentry_block option" where
  "DentryBlock_new a st = do {
     d \<leftarrow> block_get a st;
     let (ds, sz) = dentry_scan d [] 0;
     Some \<lparr>db_block = a, db_dentries = ds, db_size = sz\<rparr>
   }"

text \<open>\<open>strncpy\<close> of \<open>n\<close> bytes: up to the first null byte, then padding.\<close>

definition strncpy_bytes :: "byte list \<Rightarrow> nat \<Rightarrow> byte list" where
  "strncpy_bytes s n =
     (let t = takeWhile (\<lambda>c. c \<noteq> 0) (take n s) in t @ replicate (n - length t) 0)"

text \<open>The bytes \<open>alloc_dentry\<close> stores at an offset.\<close>

definition put_dentry :: "bytes \<Rightarrow> nat \<Rightarrow> byte list \<Rightarrow> u32 \<Rightarrow> u32 \<Rightarrow> bytes" where
  "put_dentry d p name inode mode =
     (let d = put_u32 d p inode;
          d = d(p + 6 := word_of_nat (length name));
          d = put_u16 d (p + 4) (word_of_nat (sizeof_dir_entry + length name));
          d = d(p + 7 := ucast (drop_bit 12 mode))
      in put_bytes d (p + sizeof_dir_entry) (strncpy_bytes name (length name)))"

definition alloc_dentry ::
  "byte list \<Rightarrow> u32 \<Rightarrow> u32 \<Rightarrow> dentry_block \<Rightarrow> store \<Rightarrow> (nat \<times> dentry_block \<times> store) option" where
  "alloc_dentry name inode mode db st = do {
     defined_if (db_size db + sizeof_dir_entry + length name \<le> BLOCK_SIZE);
     d \<leftarrow> block_get (db_block db) st;
     st \<leftarrow> block_put (db_block db) (put_dentry d (db_size db) name inode mode) st;
     Some (db_size db, db\<lparr>db_dentries := db_dentries db @ [db_size db]\<rparr>, st)
   }"

end
