(* ===== verification/Dentry_Cache.thy ===== *)
theory Dentry_Cache
  imports Dentry_Block
begin

text \<open>
  \<open>DentryCache\<close> of \<open>include/cache.h\<close> and \<open>src/cache.cpp\<close>: a tree of names whose nodes live on the
  heap. The children of a node form a ring through \<open>next_\<close>, and \<open>childs_\<close> points at the child that
  was used last. Using the address of a freed node is undefined. The loops walk a ring of live
  nodes, so the number of addresses ever handed out bounds them; a loop that runs longer never
  comes back to its start.
\<close>

section \<open>The class\<close>

record dc_node =
  dn_inode :: u32
  dn_name_len :: byte
  dn_childs :: "addr option"
  dn_next :: "addr option"
  dn_name :: "byte list"

record dentry_cache =
  dc_ndebug :: bool
  dc_nodes :: "addr \<Rightarrow> dc_node option"
  dc_brk :: addr
  dc_root :: addr
  dc_size :: nat
  dc_max_size :: nat

definition dc_upd :: "addr \<Rightarrow> (dc_node \<Rightarrow> dc_node) \<Rightarrow> dentry_cache \<Rightarrow> dentry_cache option" where
  "dc_upd a f c = do {
     x \<leftarrow> dc_nodes c a;
     Some (c\<lparr>dc_nodes := (dc_nodes c)(a \<mapsto> f x)\<rparr>)
   }"

definition dc_free :: "addr \<Rightarrow> dentry_cache \<Rightarrow> dentry_cache option" where
  "dc_free a c = do {
     _ \<leftarrow> dc_nodes c a;
     Some (c\<lparr>dc_nodes := (dc_nodes c)(a := None)\<rparr>)
   }"

definition alloc_new_node :: "byte list \<Rightarrow> dentry_cache \<Rightarrow> (addr \<times> dentry_cache) option" where
  "alloc_new_node name c = do {
     ASSERT (dc_ndebug c) (length name + 1 \<le> EXT2_NAME_LEN);
     let node = \<lparr>dn_inode = 0, dn_name_len = word_of_nat (length name), dn_childs = None,
                 dn_next = None, dn_name = strncpy_bytes name (length name)\<rparr>;
     Some (dc_brk c, c\<lparr>dc_nodes := (dc_nodes c)(dc_brk c \<mapsto> node), dc_brk := Suc (dc_brk c)\<rparr>)
   }"

definition DentryCache_new :: "bool \<Rightarrow> nat \<Rightarrow> dentry_cache option" where
  "DentryCache_new nd sz = do {
     (root, c) \<leftarrow> alloc_new_node [47]
       \<lparr>dc_ndebug = nd, dc_nodes = (\<lambda>_. None), dc_brk = 0, dc_root = 0, dc_size = 1, dc_max_size = sz\<rparr>;
     c \<leftarrow> dc_upd root (\<lambda>x. x\<lparr>dn_inode := ROOT_INODE\<rparr>) c;
     Some (c\<lparr>dc_root := root\<rparr>)
   }"

text \<open>A null parent stands for the root.\<close>

definition dc_parent :: "addr option \<Rightarrow> dentry_cache \<Rightarrow> addr" where
  "dc_parent parent c = (case parent of None \<Rightarrow> dc_root c | Some p \<Rightarrow> p)"

definition dc_insert :: "addr option \<Rightarrow> byte list \<Rightarrow> u32 \<Rightarrow> dentry_cache \<Rightarrow> (addr \<times> dentry_cache) option" where
  "dc_insert parent name inode c = do {
     let parent = dc_parent parent c;
     (new_node, c) \<leftarrow> alloc_new_node name c;
     c \<leftarrow> dc_upd new_node (\<lambda>x. x\<lparr>dn_inode := inode\<rparr>) c;
     p \<leftarrow> dc_nodes c parent;
     c \<leftarrow> (case dn_childs p of
             None \<Rightarrow> dc_upd new_node (\<lambda>x. x\<lparr>dn_next := Some new_node\<rparr>) c
           | Some q \<Rightarrow> do {
               x \<leftarrow> dc_nodes c q;
               c \<leftarrow> dc_upd new_node (\<lambda>y. y\<lparr>dn_next := dn_next x\<rparr>) c;
               dc_upd q (\<lambda>y. y\<lparr>dn_next := Some new_node\<rparr>) c
             });
     c \<leftarrow> dc_upd parent (\<lambda>y. y\<lparr>dn_childs := Some new_node\<rparr>) c;
     Some (new_node, c)
   }"

text \<open>\<open>strncmp(a, b, n) == 0\<close>: the strings agree up to a null byte or \<open>n\<close> bytes.\<close>

definition strncmp_eq :: "byte list \<Rightarrow> byte list \<Rightarrow> nat \<Rightarrow> bool" where
  "strncmp_eq a b n \<longleftrightarrow> takeWhile (\<lambda>c. c \<noteq> 0) (take n a) = takeWhile (\<lambda>c. c \<noteq> 0) (take n b)"

definition dn_matches :: "dc_node \<Rightarrow> byte list \<Rightarrow> bool" where
  "dn_matches x name \<longleftrightarrow> unat (dn_name_len x) = length name \<and> strncmp_eq (dn_name x) name (length name)"

text \<open>The loop of \<open>lookup\<close>; \<open>first\<close> is \<open>parent->childs_\<close>, which the loop does not change.\<close>

fun dc_lookup_loop :: "nat \<Rightarrow> addr \<Rightarrow> addr \<Rightarrow> byte list \<Rightarrow> dentry_cache \<Rightarrow> addr option option" where
  "dc_lookup_loop 0 first p name c = None"
| "dc_lookup_loop (Suc fuel) first p name c = do {
     x \<leftarrow> dc_nodes c p;
     if dn_matches x name then Some (Some p)
     else do {
       q \<leftarrow> dn_next x;
       if q \<noteq> first then dc_lookup_loop fuel first q name c else Some None
     }
   }"

definition dc_lookup :: "addr option \<Rightarrow> byte list \<Rightarrow> dentry_cache \<Rightarrow> (addr option \<times> dentry_cache) option" where
  "dc_lookup parent name c = do {
     let parent = dc_parent parent c;
     if name = [] then Some (None, c)
     else do {
       p \<leftarrow> dc_nodes c parent;
       case dn_childs p of
         None \<Rightarrow> Some (None, c)
       | Some first \<Rightarrow> do {
           r \<leftarrow> dc_lookup_loop (dc_brk c) first first name c;
           case r of
             None \<Rightarrow> Some (None, c)
           | Some q \<Rightarrow> do {
               c \<leftarrow> dc_upd parent (\<lambda>y. y\<lparr>dn_childs := Some q\<rparr>) c;
               Some (Some q, c)
             }
         }
     }
   }"

text \<open>
  \<open>release_node\<close>: frees the descendants of a node. \<open>release_loop parent p\<close> is its loop at child \<open>p\<close>.
  Every turn frees a node.
\<close>

fun release_loop :: "nat \<Rightarrow> addr \<Rightarrow> addr \<Rightarrow> dentry_cache \<Rightarrow> dentry_cache option" where
  "release_loop 0 parent p c = None"
| "release_loop (Suc fuel) parent p c = do {
     x \<leftarrow> dc_nodes c p;
     c \<leftarrow> (case dn_childs x of None \<Rightarrow> Some c | Some q \<Rightarrow> release_loop fuel p q c);
     c \<leftarrow> dc_free p c;
     y \<leftarrow> dc_nodes c parent;
     if dn_next x \<noteq> dn_childs y then do {
       q \<leftarrow> dn_next x;
       release_loop fuel parent q c
     }
     else Some c
   }"

definition release_node :: "addr \<Rightarrow> dentry_cache \<Rightarrow> dentry_cache option" where
  "release_node parent c = do {
     x \<leftarrow> dc_nodes c parent;
     case dn_childs x of None \<Rightarrow> Some c | Some p \<Rightarrow> release_loop (dc_brk c) parent p c
   }"

text \<open>The loop of \<open>remove\<close>; \<open>first\<close> is \<open>parent->childs_->next_\<close>.\<close>

fun dc_remove_loop ::
  "nat \<Rightarrow> addr \<Rightarrow> addr \<Rightarrow> addr \<Rightarrow> addr \<Rightarrow> byte list \<Rightarrow> dentry_cache \<Rightarrow> dentry_cache option" where
  "dc_remove_loop 0 parent first prev p name c = None"
| "dc_remove_loop (Suc fuel) parent first prev p name c = do {
     x \<leftarrow> dc_nodes c p;
     if dn_matches x name then do {
       c \<leftarrow> dc_upd parent (\<lambda>y. y\<lparr>dn_childs := (if dn_next x = Some p then None else dn_next x)\<rparr>) c;
       c \<leftarrow> dc_upd prev (\<lambda>y. y\<lparr>dn_next := dn_next x\<rparr>) c;
       c \<leftarrow> release_node p c;
       dc_free p c
     }
     else do {
       q \<leftarrow> dn_next x;
       if q \<noteq> first then dc_remove_loop fuel parent first p q name c else Some c
     }
   }"

definition dc_remove :: "addr option \<Rightarrow> byte list \<Rightarrow> dentry_cache \<Rightarrow> dentry_cache option" where
  "dc_remove parent name c = do {
     let parent = dc_parent parent c;
     p \<leftarrow> dc_nodes c parent;
     case dn_childs p of
       None \<Rightarrow> Some c
     | Some q \<Rightarrow> do {
         x \<leftarrow> dc_nodes c q;
         first \<leftarrow> dn_next x;
         dc_remove_loop (dc_brk c) parent first first first name c
       }
   }"

definition dc_destroy :: "dentry_cache \<Rightarrow> dentry_cache option" where
  "dc_destroy c = do {
     c \<leftarrow> release_node (dc_root c) c;
     dc_free (dc_root c) c
   }"

end
