(* ===== verification/Fs_Core.thy ===== *)
theory Fs_Core
  imports Block_Group Block_Cache Dentry_Cache
begin

text \<open>
  The class \<open>FileSystem\<close> of \<open>include/filesystem.h\<close> and \<open>src/filesystem.cpp\<close>, first part: its state,
  construction and flushing, and access to and allocation of inodes and blocks. \<open>BlockGroup\<close>
  objects live on a heap and \<open>block_groups_\<close> maps group numbers to addresses; a pointer to an inode
  is the address of the group object that holds the inode table together with the inode number
  inside the group. The time that \<open>gettimeofday\<close> returns is a parameter.
\<close>

section \<open>State\<close>

type_synonym inode_ptr = "addr \<times> u32"

record fs =
  fs_store :: store
  fs_super :: super_block
  fs_root :: inode_ptr
  fs_gheap :: "addr \<Rightarrow> block_group option"
  fs_gbrk :: addr
  fs_groups :: "(u32 \<times> addr) list"
  fs_cache :: block_cache
  fs_dcache :: dentry_cache

abbreviation fs_device :: "fs \<Rightarrow> disk" where
  "fs_device fs \<equiv> device (fs_store fs)"

abbreviation fs_ndebug :: "fs \<Rightarrow> bool" where
  "fs_ndebug fs \<equiv> ndebug (fs_store fs)"

abbreviation super_of :: "fs \<Rightarrow> ext2_super_block" where
  "super_of fs \<equiv> sb_super (fs_super fs)"

definition fs_set_device :: "disk \<Rightarrow> fs \<Rightarrow> fs" where
  "fs_set_device d fs = fs\<lparr>fs_store := (fs_store fs)\<lparr>device := d\<rparr>\<rparr>"

definition fs_set_group :: "addr \<Rightarrow> block_group \<Rightarrow> fs \<Rightarrow> fs" where
  "fs_set_group a g fs = fs\<lparr>fs_gheap := (fs_gheap fs)(a \<mapsto> g)\<rparr>"

text \<open>Dereferencing an inode pointer.\<close>

definition fs_inode :: "inode_ptr \<Rightarrow> fs \<Rightarrow> ext2_inode option" where
  "fs_inode p fs = do {
     g \<leftarrow> fs_gheap fs (fst p);
     group_inode g (snd p)
   }"

definition fs_put_inode :: "inode_ptr \<Rightarrow> ext2_inode \<Rightarrow> fs \<Rightarrow> fs option" where
  "fs_put_inode p v fs = do {
     g \<leftarrow> fs_gheap fs (fst p);
     g \<leftarrow> group_put_inode g (snd p) v;
     Some (fs_set_group (fst p) g fs)
   }"

section \<open>Construction and flushing\<close>

definition inode_init :: "u32 \<Rightarrow> ext2_inode \<Rightarrow> ext2_inode" where
  "inode_init now inode = inode\<lparr>i_ctime := now, i_mtime := now, i_atime := now, i_blocks := 0,
     i_links_count := 1, i_size := 0, i_uid := 0, i_gid := 0, i_file_acl := 0, i_dir_acl := 0,
     i_faddr := 0, i_dtime := 0\<rparr>"

definition FileSystem_new :: "bool \<Rightarrow> u32 \<Rightarrow> disk \<Rightarrow> fs option" where
  "FileSystem_new nd now d = do {
     (sb, d) \<leftarrow> SuperBlock_new d;
     dc \<leftarrow> DentryCache_new nd BLOCK_CACHE_SIZE;
     g \<leftarrow> BlockGroup_new (get_group_desc sb 0) False sb d;
     (ok, g) \<leftarrow> group_get_inode ROOT_INODE g d;
     (root, g, sb) \<leftarrow> (if ok then Some (ROOT_INODE, g, sb)
       else do {
         (ret, g, sb) \<leftarrow> group_alloc_inode (ucast EXT2_S_IFDIR) g sb d;
         root \<leftarrow> ret;
         inode \<leftarrow> group_inode g root;
         g \<leftarrow> group_put_inode g root ((inode_init now inode)\<lparr>
                i_mode := EXT2_S_IFDIR OR EXT2_S_IRUSR OR EXT2_S_IRGRP OR EXT2_S_IROTH\<rparr>);
         Some (root, g, sb)
       });
     let d = group_flush g d;
     Some \<lparr>fs_store = \<lparr>ndebug = nd, device = d, heap = (\<lambda>_. None), brk = 0\<rparr>,
           fs_super = sb, fs_root = (0, root), fs_gheap = [0 \<mapsto> g], fs_gbrk = 1,
           fs_groups = [(0, 0)], fs_cache = BlockCache_new BLOCK_CACHE_SIZE, fs_dcache = dc\<rparr>
   }"

text \<open>The loop \<open>for (auto bg : block_groups_) bg.second->flush()\<close>.\<close>

fun flush_groups :: "(u32 \<times> addr) list \<Rightarrow> (addr \<Rightarrow> block_group option) \<Rightarrow> disk \<Rightarrow> disk option" where
  "flush_groups [] h d = Some d"
| "flush_groups ((_, a) # gs) h d = do {
     g \<leftarrow> h a;
     flush_groups gs h (group_flush g d)
   }"

definition fs_flush_meta :: "fs \<Rightarrow> fs option" where
  "fs_flush_meta fs = do {
     let d = super_flush (fs_super fs) (fs_device fs);
     d \<leftarrow> flush_groups (fs_groups fs) (fs_gheap fs) d;
     Some (fs_set_device d fs)
   }"

definition fs_flush :: "fs \<Rightarrow> fs option" where
  "fs_flush fs = do {
     fs \<leftarrow> fs_flush_meta fs;
     (c, st) \<leftarrow> bc_flush (fs_cache fs) (fs_store fs);
     Some (fs\<lparr>fs_cache := c, fs_store := st\<rparr>)
   }"

definition fs_flush_inode :: "u32 \<Rightarrow> fs \<Rightarrow> fs option" where
  "fs_flush_inode inode_index fs = do {
     fs \<leftarrow> fs_flush_meta fs;
     (c, st) \<leftarrow> bc_flush_index inode_index (fs_cache fs) (fs_store fs);
     Some (fs\<lparr>fs_cache := c, fs_store := st\<rparr>)
   }"

text \<open>The destructor; what remains is the device.\<close>

definition FileSystem_destroy :: "fs \<Rightarrow> disk option" where
  "FileSystem_destroy fs = do {
     fs \<leftarrow> fs_flush fs;
     _ \<leftarrow> dc_destroy (fs_dcache fs);
     Some (fs_device fs)
   }"

section \<open>Access to inodes and blocks\<close>

text \<open>The lazily created group object that \<open>get_inode\<close>, \<open>get_block\<close> and the \<open>free\<close> functions look up.\<close>

definition find_group :: "u32 \<Rightarrow> fs \<Rightarrow> (addr \<times> fs) option" where
  "find_group gi fs =
     (case map_of (fs_groups fs) gi of
        Some a \<Rightarrow> Some (a, fs)
      | None \<Rightarrow> do {
          g \<leftarrow> BlockGroup_new (get_group_desc (fs_super fs) (unat gi)) False (fs_super fs) (fs_device fs);
          let a = fs_gbrk fs;
          Some (a, fs\<lparr>fs_gheap := (fs_gheap fs)(a \<mapsto> g), fs_gbrk := Suc a,
                      fs_groups := omap_put gi a (fs_groups fs)\<rparr>)
        })"

definition inodes_per_group :: "fs \<Rightarrow> u32 option" where
  "inodes_per_group fs = do {
     defined_if (s_inodes_per_group (super_of fs) \<noteq> 0);
     Some (s_inodes_per_group (super_of fs))
   }"

definition blocks_per_group :: "fs \<Rightarrow> u32 option" where
  "blocks_per_group fs = do {
     defined_if (s_blocks_per_group (super_of fs) \<noteq> 0);
     Some (s_blocks_per_group (super_of fs))
   }"

definition get_inode :: "u32 \<Rightarrow> fs \<Rightarrow> (inode_ptr option \<times> fs) option" where
  "get_inode index fs =
     (if index = -1 then Some (Some (fs_root fs), fs)
      else do {
        n \<leftarrow> inodes_per_group fs;
        (a, fs) \<leftarrow> find_group (index div n) fs;
        g \<leftarrow> fs_gheap fs a;
        (ok, g) \<leftarrow> group_get_inode (index mod n) g (fs_device fs);
        let fs = fs_set_group a g fs;
        Some (if ok then Some (a, index mod n) else None, fs)
      })"

text \<open>
  The copy at the end of \<open>get_block\<close>: into the block when \<open>dirty\<close>, out of it otherwise. With
  \<open>copy_size\<close> 0 nothing is accessed.
\<close>

definition block_copy :: "bool \<Rightarrow> nat \<Rightarrow> byte list \<Rightarrow> nat \<Rightarrow> addr \<Rightarrow> store \<Rightarrow> (byte list \<times> store) option" where
  "block_copy dirty offset buf copy_size a st =
     (if copy_size = 0 then Some ([], st)
      else do {
        defined_if (offset + copy_size \<le> BLOCK_SIZE);
        d \<leftarrow> block_get a st;
        if \<not> dirty then Some (get_bytes d offset copy_size, st)
        else do {
          defined_if (copy_size \<le> length buf);
          st \<leftarrow> block_put a (put_bytes d offset (take copy_size buf)) st;
          Some ([], st)
        }
      })"

text \<open>The part of \<open>get_block\<close> that finds the block or brings it into the cache.\<close>

definition find_block :: "u32 \<Rightarrow> bool \<Rightarrow> fs \<Rightarrow> (addr option \<times> fs) option" where
  "find_block index dirty fs = do {
     (blk, c) \<leftarrow> bc_get index dirty (fs_cache fs) (fs_store fs);
     let fs = fs\<lparr>fs_cache := c\<rparr>;
     if blk \<noteq> None then Some (blk, fs)
     else do {
       n \<leftarrow> blocks_per_group fs;
       (blk, c) \<leftarrow> bc_get index False (fs_cache fs) (fs_store fs);
       let fs = fs\<lparr>fs_cache := c\<rparr>;
       if blk \<noteq> None then Some (blk, fs)
       else do {
         (ga, fs) \<leftarrow> find_group (index div n) fs;
         g \<leftarrow> fs_gheap fs ga;
         (blk, st) \<leftarrow> group_get_block (index mod n) g (fs_store fs);
         let fs = fs\<lparr>fs_store := st\<rparr>;
         case blk of
           None \<Rightarrow> Some (None, fs)
         | Some a \<Rightarrow> do {
             (c, st) \<leftarrow> bc_insert index a dirty (fs_cache fs) (fs_store fs);
             Some (Some a, fs\<lparr>fs_cache := c, fs_store := st\<rparr>)
           }
       }
     }
   }"

definition get_block ::
  "u32 \<Rightarrow> bool \<Rightarrow> nat \<Rightarrow> byte list \<Rightarrow> nat \<Rightarrow> fs \<Rightarrow> ((addr \<times> byte list) option \<times> fs) option" where
  "get_block index dirty offset buf copy_size fs = do {
     (blk, fs) \<leftarrow> find_block index dirty fs;
     case blk of
       None \<Rightarrow> Some (None, fs)
     | Some a \<Rightarrow> do {
         (out, st) \<leftarrow> block_copy dirty offset buf copy_size a (fs_store fs);
         Some (Some (a, out), fs\<lparr>fs_store := st\<rparr>)
       }
   }"

section \<open>Allocation\<close>

definition alloc_block_group :: "fs \<Rightarrow> (u32 \<times> fs) option" where
  "alloc_block_group fs = do {
     index \<leftarrow> num_block_groups (super_of fs);
     ASSERT (fs_ndebug fs) (sizeof_super_block + unat index * sizeof_group_desc \<le> BLOCK_SIZE);
     sb \<leftarrow> desc_upd (fs_super fs) (unat index) (\<lambda>x.
       let x = x\<lparr>bg_inode_bitmap := word_of_nat (unat index * MAX_BLOCK_GROUP_SIZE + BLOCK_SIZE)\<rparr>;
           x = x\<lparr>bg_block_bitmap := bg_inode_bitmap x + word_of_nat BLOCK_SIZE\<rparr>;
           x = x\<lparr>bg_inode_table := bg_block_bitmap x + word_of_nat BLOCK_SIZE\<rparr>
       in x\<lparr>bg_free_blocks_count := word_of_nat BLOCKS_PER_GROUP,
            bg_free_inodes_count := word_of_nat INODES_PER_GROUP, bg_used_dirs_count := 0\<rparr>);
     let sb = put_group_desc sb (unat index);
     g \<leftarrow> BlockGroup_new (Some (unat index)) True sb (fs_device fs);
     let a = fs_gbrk fs;
     Some (index, fs\<lparr>fs_super := sb, fs_gheap := (fs_gheap fs)(a \<mapsto> g), fs_gbrk := Suc a,
                     fs_groups := omap_put index a (fs_groups fs)\<rparr>)
   }"

definition super_upd :: "(ext2_super_block \<Rightarrow> ext2_super_block) \<Rightarrow> fs \<Rightarrow> fs" where
  "super_upd f fs = fs\<lparr>fs_super := (fs_super fs)\<lparr>sb_super := f (super_of fs)\<rparr>\<rparr>"

text \<open>\<open>BlockGroup::alloc_inode\<close> on the group object at an address.\<close>

definition alloc_inode_in :: "addr \<Rightarrow> u32 \<Rightarrow> fs \<Rightarrow> (u32 option \<times> fs) option" where
  "alloc_inode_in ga mode fs = do {
     g \<leftarrow> fs_gheap fs ga;
     (r, g, sb) \<leftarrow> group_alloc_inode mode g (fs_super fs) (fs_device fs);
     Some (r, (fs_set_group ga g fs)\<lparr>fs_super := sb\<rparr>)
   }"

text \<open>The loop over the loaded groups: the group's number and address and the inner index.\<close>

fun alloc_inode_loop ::
  "(u32 \<times> addr) list \<Rightarrow> u32 \<Rightarrow> u32 \<Rightarrow> fs \<Rightarrow> ((u32 \<times> addr \<times> u32) option \<times> fs) option" where
  "alloc_inode_loop [] now mode fs = Some (None, fs)"
| "alloc_inode_loop ((gi, ga) # gs) now mode fs = do {
     g \<leftarrow> fs_gheap fs ga;
     x \<leftarrow> desc_at (fs_super fs) (grp_desc g);
     if bg_free_inodes_count x \<noteq> 0 then do {
       (r, fs) \<leftarrow> alloc_inode_in ga mode fs;
       case r of
         None \<Rightarrow> alloc_inode_loop gs now mode fs
       | Some i \<Rightarrow> do {
           inode \<leftarrow> fs_inode (ga, i) fs;
           fs \<leftarrow> fs_put_inode (ga, i) (inode_init now inode) fs;
           Some (Some (gi, ga, i), fs)
         }
     }
     else alloc_inode_loop gs now mode fs
   }"

definition alloc_inode :: "u32 \<Rightarrow> u32 \<Rightarrow> fs \<Rightarrow> ((inode_ptr \<times> u32) option \<times> fs) option" where
  "alloc_inode now mode fs = do {
     let fs = super_upd (\<lambda>s. s\<lparr>s_free_inodes_count := s_free_inodes_count s - 1,
                               s_inodes_count := s_inodes_count s + 1\<rparr>) fs;
     (r, fs) \<leftarrow> alloc_inode_loop (fs_groups fs) now mode fs;
     (r, fs) \<leftarrow> (case r of
         Some x \<Rightarrow> Some (Some x, fs)
       | None \<Rightarrow> do {
           (gi, fs) \<leftarrow> alloc_block_group fs;
           ga \<leftarrow> map_of (fs_groups fs) gi;
           (r, fs) \<leftarrow> alloc_inode_in ga mode fs;
           Some (map_option (\<lambda>i. (gi, ga, i)) r, fs)
         });
     Some (map_option (\<lambda>(gi, ga, i). ((ga, i), gi * s_inodes_per_group (super_of fs) + i)) r, fs)
   }"

definition alloc_block_in :: "addr \<Rightarrow> fs \<Rightarrow> ((addr \<times> u32) option \<times> fs) option" where
  "alloc_block_in ga fs = do {
     g \<leftarrow> fs_gheap fs ga;
     (r, g, sb, st) \<leftarrow> group_alloc_block g (fs_super fs) (fs_store fs);
     Some (r, (fs_set_group ga g fs)\<lparr>fs_super := sb, fs_store := st\<rparr>)
   }"

fun alloc_block_loop :: "(u32 \<times> addr) list \<Rightarrow> fs \<Rightarrow> ((u32 \<times> addr \<times> u32) option \<times> fs) option" where
  "alloc_block_loop [] fs = Some (None, fs)"
| "alloc_block_loop ((gi, ga) # gs) fs = do {
     g \<leftarrow> fs_gheap fs ga;
     x \<leftarrow> desc_at (fs_super fs) (grp_desc g);
     if bg_free_blocks_count x \<noteq> 0 then do {
       (r, fs) \<leftarrow> alloc_block_in ga fs;
       case r of
         None \<Rightarrow> alloc_block_loop gs fs
       | Some (b, i) \<Rightarrow> Some (Some (gi, b, i), fs)
     }
     else alloc_block_loop gs fs
   }"

text \<open>
  \<open>alloc_block\<close>. The assertion before a new group is created compares the bytes of the pointer
  the caller passed in, which is null or uninitialised: it has no defined outcome.
\<close>

definition alloc_block :: "fs \<Rightarrow> ((addr \<times> u32) option \<times> fs) option" where
  "alloc_block fs = do {
     let fs = super_upd (\<lambda>s. s\<lparr>s_free_blocks_count := s_free_blocks_count s - 1,
                               s_blocks_count := s_blocks_count s + 1\<rparr>) fs;
     (r, fs) \<leftarrow> alloc_block_loop (fs_groups fs) fs;
     (r, fs) \<leftarrow> (case r of
         Some x \<Rightarrow> Some (Some x, fs)
       | None \<Rightarrow> do {
           ASSERT (fs_ndebug fs) False;
           (gi, fs) \<leftarrow> alloc_block_group fs;
           ga \<leftarrow> map_of (fs_groups fs) gi;
           (r, fs) \<leftarrow> alloc_block_in ga fs;
           Some (map_option (\<lambda>(b, i). (gi, b, i)) r, fs)
         });
     case r of
       None \<Rightarrow> Some (None, fs)
     | Some (gi, b, i) \<Rightarrow> do {
         let index = gi * s_blocks_per_group (super_of fs) + i;
         (c, st) \<leftarrow> bc_insert index b False (fs_cache fs) (fs_store fs);
         Some (Some (b, index), fs\<lparr>fs_cache := c, fs_store := st\<rparr>)
       }
   }"

definition free_inode :: "u32 \<Rightarrow> fs \<Rightarrow> (bool \<times> fs) option" where
  "free_inode index fs = do {
     let fs = super_upd (\<lambda>s. s\<lparr>s_free_inodes_count := s_free_inodes_count s + 1,
                               s_inodes_count := s_inodes_count s - 1\<rparr>) fs;
     n \<leftarrow> inodes_per_group fs;
     (ga, fs) \<leftarrow> find_group (index div n) fs;
     g \<leftarrow> fs_gheap fs ga;
     (ok, g, sb) \<leftarrow> group_free_inode (index mod n) g (fs_super fs) (fs_device fs);
     Some (ok, (fs_set_group ga g fs)\<lparr>fs_super := sb\<rparr>)
   }"

definition free_block :: "u32 \<Rightarrow> fs \<Rightarrow> (bool \<times> fs) option" where
  "free_block index fs = do {
     let fs = super_upd (\<lambda>s. s\<lparr>s_free_blocks_count := s_free_blocks_count s + 1,
                               s_blocks_count := s_blocks_count s - 1\<rparr>) fs;
     n \<leftarrow> blocks_per_group fs;
     (ga, fs) \<leftarrow> find_group (index div n) fs;
     g \<leftarrow> fs_gheap fs ga;
     (ok, g, sb) \<leftarrow> group_free_block (index mod n) g (fs_super fs);
     let fs = (fs_set_group ga g fs)\<lparr>fs_super := sb\<rparr>;
     if \<not> ok then Some (False, fs)
     else do {
       (c, st) \<leftarrow> bc_remove index (fs_cache fs) (fs_store fs);
       Some (True, fs\<lparr>fs_cache := c, fs_store := st\<rparr>)
     }
   }"

end
