(* ===== verification/Fs_Blocks.thy ===== *)
theory Fs_Blocks
  imports Fs_Core
begin

text \<open>
  The class \<open>FileSystem\<close>, second part: the blocks of an inode. \<open>alloc_block\<close> for an inode, which
  extends the block map by one block through the direct, indirect, double and triple indirect
  pointers, and the visits \<open>visit_indirect_blocks\<close> and \<open>visit_inode_blocks\<close>. The inode is passed by
  value and returned: its callers pass pointers into an inode table or to a private copy.
\<close>

section \<open>Slots of an indirect block\<close>

definition read_slot :: "addr \<Rightarrow> nat \<Rightarrow> fs \<Rightarrow> u32 option" where
  "read_slot a k fs = do {
     defined_if (k < NUM_INDIRECT_BLOCKS);
     d \<leftarrow> block_get a (fs_store fs);
     Some (get_u32 d (k * 4))
   }"

definition write_slot :: "addr \<Rightarrow> nat \<Rightarrow> u32 \<Rightarrow> fs \<Rightarrow> fs option" where
  "write_slot a k v fs = do {
     defined_if (k < NUM_INDIRECT_BLOCKS);
     d \<leftarrow> block_get a (fs_store fs);
     st \<leftarrow> block_put a (put_u32 d (k * 4) v) (fs_store fs);
     Some (fs\<lparr>fs_store := st\<rparr>)
   }"

definition fs_modify :: "u32 \<Rightarrow> fs \<Rightarrow> fs" where
  "fs_modify index fs = fs\<lparr>fs_cache := bc_modify index (fs_cache fs)\<rparr>"

text \<open>\<open>get_block(index, &block)\<close> with the default arguments.\<close>

definition get_block_ptr :: "u32 \<Rightarrow> fs \<Rightarrow> (addr option \<times> fs) option" where
  "get_block_ptr index fs = do {
     (r, fs) \<leftarrow> get_block index False 0 [] 0 fs;
     Some (map_option fst r, fs)
   }"

section \<open>Extending the block map of an inode\<close>

definition i_block_upd :: "nat \<Rightarrow> u32 \<Rightarrow> ext2_inode \<Rightarrow> ext2_inode" where
  "i_block_upd k v inode = inode\<lparr>i_block := (i_block inode)(k := v)\<rparr>"

text \<open>
  The block that \<open>i_block[k]\<close> points to, allocated when the inode grows into that level
  (\<open>first\<close>). Each of the following returns whether it succeeded, the inode and the state.
\<close>

definition top_block :: "nat \<Rightarrow> bool \<Rightarrow> ext2_inode \<Rightarrow> fs \<Rightarrow> (addr option \<times> ext2_inode \<times> fs) option" where
  "top_block k first inode fs =
     (if first then do {
        (r, fs) \<leftarrow> alloc_block fs;
        case r of
          None \<Rightarrow> Some (None, inode, fs)
        | Some (b, i) \<Rightarrow> Some (Some b, i_block_upd k i inode, fs)
      }
      else do {
        (r, fs) \<leftarrow> get_block_ptr (i_block inode k) fs;
        Some (r, inode, fs)
      })"

text \<open>Level 1: \<open>MAX_DIR_BLOCKS <= num_blocks < MAX_DIR_BLOCKS + MAX_IND_BLOCKS\<close>.\<close>

definition alloc_ind :: "nat \<Rightarrow> u32 \<Rightarrow> ext2_inode \<Rightarrow> fs \<Rightarrow> (bool \<times> ext2_inode \<times> fs) option" where
  "alloc_ind n block_index inode fs = do {
     (ind, inode, fs) \<leftarrow> top_block EXT2_IND_BLOCK (n = MAX_DIR_BLOCKS) inode fs;
     case ind of
       None \<Rightarrow> Some (False, inode, fs)
     | Some ind \<Rightarrow> do {
         fs \<leftarrow> write_slot ind (n - MAX_DIR_BLOCKS) block_index fs;
         Some (True, inode, fs_modify (i_block inode EXT2_IND_BLOCK) fs)
       }
   }"

text \<open>Level 2.\<close>

definition alloc_dind :: "nat \<Rightarrow> u32 \<Rightarrow> ext2_inode \<Rightarrow> fs \<Rightarrow> (bool \<times> ext2_inode \<times> fs) option" where
  "alloc_dind n block_index inode fs = do {
     (ind, inode, fs) \<leftarrow> top_block EXT2_DIND_BLOCK (n = MAX_DIR_BLOCKS + MAX_IND_BLOCKS) inode fs;
     case ind of
       None \<Rightarrow> Some (False, inode, fs)
     | Some ind \<Rightarrow> do {
         let num_indirects = (n - MAX_DIR_BLOCKS - 1) div NUM_INDIRECT_BLOCKS;
         ASSERT (fs_ndebug fs) (num_indirects \<le> NUM_INDIRECT_BLOCKS);
         let inner_index = (n - MAX_DIR_BLOCKS - MAX_IND_BLOCKS) mod NUM_INDIRECT_BLOCKS;
         if inner_index = 0 then do {
           (r, fs) \<leftarrow> alloc_block fs;
           case r of
             None \<Rightarrow> Some (False, inode, fs)
           | Some (dbl, dbl_index) \<Rightarrow> do {
               fs \<leftarrow> write_slot ind num_indirects dbl_index fs;
               let fs = fs_modify (i_block inode EXT2_DIND_BLOCK) fs;
               fs \<leftarrow> write_slot dbl 0 block_index fs;
               Some (True, inode, fs_modify dbl_index fs)
             }
         }
         else do {
           dbl_index \<leftarrow> read_slot ind (num_indirects - 1) fs;
           (r, fs) \<leftarrow> get_block_ptr dbl_index fs;
           case r of
             None \<Rightarrow> Some (False, inode, fs)
           | Some dbl \<Rightarrow> do {
               fs \<leftarrow> write_slot dbl inner_index block_index fs;
               Some (True, inode, fs_modify dbl_index fs)
             }
         }
       }
   }"

text \<open>Level 3. The branch that opens a new double indirect block, and the one that continues it.\<close>

definition alloc_tind_new ::
  "addr \<Rightarrow> nat \<Rightarrow> u32 \<Rightarrow> ext2_inode \<Rightarrow> fs \<Rightarrow> (bool \<times> ext2_inode \<times> fs) option" where
  "alloc_tind_new ind num_indirects block_index inode fs = do {
     (r, fs) \<leftarrow> alloc_block fs;
     case r of
       None \<Rightarrow> Some (False, inode, fs)
     | Some (dbl, dbl_index) \<Rightarrow> do {
         (r, fs) \<leftarrow> alloc_block fs;
         case r of
           None \<Rightarrow> Some (False, inode, fs)
         | Some (tri, tri_index) \<Rightarrow> do {
             fs \<leftarrow> write_slot ind num_indirects dbl_index fs;
             let fs = fs_modify (i_block inode EXT2_DIND_BLOCK) fs;
             fs \<leftarrow> write_slot dbl 0 tri_index fs;
             let fs = fs_modify dbl_index fs;
             fs \<leftarrow> write_slot tri 0 block_index fs;
             Some (True, inode, fs_modify tri_index fs)
           }
       }
   }"

definition alloc_tind_next ::
  "addr \<Rightarrow> nat \<Rightarrow> nat \<Rightarrow> u32 \<Rightarrow> ext2_inode \<Rightarrow> fs \<Rightarrow> (bool \<times> ext2_inode \<times> fs) option" where
  "alloc_tind_next ind num_indirects inner_index block_index inode fs = do {
     dbl_index \<leftarrow> read_slot ind (num_indirects - 1) fs;
     (r, fs) \<leftarrow> get_block_ptr dbl_index fs;
     case r of
       None \<Rightarrow> Some (False, inode, fs)
     | Some dbl \<Rightarrow> do {
         let num_double_indirects = (inner_index + MAX_IND_BLOCKS - 1) div MAX_IND_BLOCKS;
         let double_inner_index = inner_index mod MAX_IND_BLOCKS;
         if double_inner_index = 0 then do {
           (r, fs) \<leftarrow> alloc_block fs;
           case r of
             None \<Rightarrow> Some (False, inode, fs)
           | Some (tri, tri_index) \<Rightarrow> do {
               fs \<leftarrow> write_slot dbl num_double_indirects tri_index fs;
               let fs = fs_modify dbl_index fs;
               fs \<leftarrow> write_slot tri 0 block_index fs;
               Some (True, inode, fs_modify tri_index fs)
             }
         }
         else do {
           tri_index \<leftarrow> read_slot dbl (num_double_indirects - 1) fs;
           (r, fs) \<leftarrow> get_block_ptr tri_index fs;
           case r of
             None \<Rightarrow> Some (False, inode, fs)
           | Some tri \<Rightarrow> do {
               fs \<leftarrow> write_slot tri double_inner_index block_index fs;
               Some (True, inode, fs_modify tri_index fs)
             }
         }
       }
   }"

definition alloc_tind :: "nat \<Rightarrow> u32 \<Rightarrow> ext2_inode \<Rightarrow> fs \<Rightarrow> (bool \<times> ext2_inode \<times> fs) option" where
  "alloc_tind n block_index inode fs = do {
     (ind, inode, fs) \<leftarrow> top_block EXT2_TIND_BLOCK (n = MAX_DIR_BLOCKS + MAX_IND_BLOCKS + MAX_DIND_BLOCKS) inode fs;
     case ind of
       None \<Rightarrow> Some (False, inode, fs)
     | Some ind \<Rightarrow> do {
         let num_indirects = (n - MAX_DIR_BLOCKS - MAX_IND_BLOCKS - 1) div MAX_DIND_BLOCKS;
         ASSERT (fs_ndebug fs) (num_indirects \<le> NUM_INDIRECT_BLOCKS);
         let inner_index = (n - MAX_DIR_BLOCKS - MAX_IND_BLOCKS - MAX_DIND_BLOCKS) mod MAX_DIND_BLOCKS;
         if inner_index = 0 then alloc_tind_new ind num_indirects block_index inode fs
         else alloc_tind_next ind num_indirects inner_index block_index inode fs
       }
   }"

definition alloc_block_inode :: "ext2_inode \<Rightarrow> fs \<Rightarrow> ((addr \<times> u32) option \<times> ext2_inode \<times> fs) option" where
  "alloc_block_inode inode fs = do {
     ASSERT (fs_ndebug fs) (S_ISDIR (i_mode inode) \<or> S_ISREG (i_mode inode));
     num_blocks \<leftarrow> num_aligned_blocks (super_of fs) (i_blocks inode);
     let n = unat num_blocks;
     (r, fs) \<leftarrow> alloc_block fs;
     case r of
       None \<Rightarrow> Some (None, inode, fs)
     | Some (b, block_index) \<Rightarrow> do {
         (ok, inode, fs) \<leftarrow>
           (if n < MAX_DIR_BLOCKS then Some (True, i_block_upd n block_index inode, fs)
            else if n < MAX_DIR_BLOCKS + MAX_IND_BLOCKS then alloc_ind n block_index inode fs
            else if n < MAX_DIR_BLOCKS + MAX_IND_BLOCKS + MAX_DIND_BLOCKS then alloc_dind n block_index inode fs
            else alloc_tind n block_index inode fs);
         if \<not> ok then Some (None, inode, fs)
         else Some (Some (b, block_index),
                    inode\<lparr>i_blocks := i_blocks inode + push_bit (unat (s_log_block_size (super_of fs))) 2\<rparr>, fs)
       }
   }"

section \<open>Visiting the blocks of an inode\<close>

text \<open>A \<open>BlockVisitor\<close> with the variables it captures by reference as an explicit state.\<close>

type_synonym 'c visitor = "u32 \<Rightarrow> addr \<Rightarrow> 'c \<Rightarrow> fs \<Rightarrow> (bool \<times> 'c \<times> fs) option"

text \<open>The loop of \<open>visit_indirect_blocks\<close> over the slots it has left.\<close>

fun visit_slots :: "'c visitor \<Rightarrow> addr \<Rightarrow> nat list \<Rightarrow> 'c \<Rightarrow> fs \<Rightarrow> (bool \<times> 'c \<times> fs) option" where
  "visit_slots visitor a [] s fs = Some (True, s, fs)"
| "visit_slots visitor a (k # ks) s fs = do {
     indirect_index \<leftarrow> read_slot a k fs;
     (r, fs) \<leftarrow> get_block_ptr indirect_index fs;
     case r of
       None \<Rightarrow> Some (False, s, fs)
     | Some blk \<Rightarrow> do {
         (stop, s, fs) \<leftarrow> visitor indirect_index blk s fs;
         if stop then Some (True, s, fs) else visit_slots visitor a ks s fs
       }
   }"

definition visit_indirect_blocks ::
  "'c visitor \<Rightarrow> addr \<Rightarrow> u32 \<Rightarrow> 'c \<Rightarrow> fs \<Rightarrow> (bool \<times> 'c \<times> fs) option" where
  "visit_indirect_blocks visitor a num s fs =
     visit_slots visitor a [0..<min (unat num) NUM_INDIRECT_BLOCKS] s fs"

text \<open>The two closures of \<open>visit_inode_blocks\<close>; they share \<open>curr_num\<close>.\<close>

definition indirect_visitor :: "'c visitor \<Rightarrow> u32 \<Rightarrow> ('c \<times> u32) visitor" where
  "indirect_visitor visitor num_blocks = (\<lambda>_ blk (s, curr_num) fs. do {
     (_, s, fs) \<leftarrow> visit_indirect_blocks visitor blk (num_blocks - curr_num) s fs;
     Some (False, (s, curr_num + min (num_blocks - curr_num) (word_of_nat NUM_INDIRECT_BLOCKS)), fs)
   })"

definition double_indirect_visitor :: "'c visitor \<Rightarrow> u32 \<Rightarrow> ('c \<times> u32) visitor" where
  "double_indirect_visitor visitor num_blocks = (\<lambda>_ blk (s, curr_num) fs. do {
     (_, (s, curr_num), fs) \<leftarrow>
       visit_indirect_blocks (indirect_visitor visitor num_blocks) blk (num_blocks - curr_num) (s, curr_num) fs;
     Some (False, (s, curr_num), fs)
   })"

text \<open>The direct blocks: whether the visit is over, and \<open>curr_num\<close>.\<close>

fun visit_direct ::
  "'c visitor \<Rightarrow> ext2_inode \<Rightarrow> u32 \<Rightarrow> nat list \<Rightarrow> u32 \<Rightarrow> 'c \<Rightarrow> fs \<Rightarrow> (bool \<times> u32 \<times> 'c \<times> fs) option" where
  "visit_direct visitor inode num_blocks [] curr_num s fs = Some (False, curr_num, s, fs)"
| "visit_direct visitor inode num_blocks (i # is) curr_num s fs = do {
     (r, fs) \<leftarrow> get_block_ptr (i_block inode i) fs;
     case r of
       None \<Rightarrow> Some (True, curr_num, s, fs)
     | Some blk \<Rightarrow> do {
         (stop, s, fs) \<leftarrow> visitor (i_block inode i) blk s fs;
         if stop then Some (True, curr_num, s, fs)
         else if curr_num + 1 = num_blocks then Some (True, curr_num + 1, s, fs)
         else visit_direct visitor inode num_blocks is (curr_num + 1) s fs
       }
   }"

definition visit_ind ::
  "'c visitor \<Rightarrow> ext2_inode \<Rightarrow> u32 \<Rightarrow> u32 \<Rightarrow> 'c \<Rightarrow> fs \<Rightarrow> (bool \<times> u32 \<times> 'c \<times> fs) option" where
  "visit_ind visitor inode num_blocks curr_num s fs = do {
     ASSERT (fs_ndebug fs) (unat curr_num = MAX_DIR_BLOCKS);
     (r, fs) \<leftarrow> get_block_ptr (i_block inode EXT2_IND_BLOCK) fs;
     case r of
       None \<Rightarrow> Some (True, curr_num, s, fs)
     | Some ind \<Rightarrow> do {
         (ok, s, fs) \<leftarrow> visit_indirect_blocks visitor ind (num_blocks - curr_num) s fs;
         if \<not> ok then Some (True, curr_num, s, fs)
         else let curr_num = curr_num + min (num_blocks - curr_num) (word_of_nat MAX_IND_BLOCKS)
              in Some (curr_num = num_blocks, curr_num, s, fs)
       }
   }"

definition visit_dind ::
  "'c visitor \<Rightarrow> ext2_inode \<Rightarrow> u32 \<Rightarrow> u32 \<Rightarrow> 'c \<Rightarrow> fs \<Rightarrow> (bool \<times> u32 \<times> 'c \<times> fs) option" where
  "visit_dind visitor inode num_blocks curr_num s fs = do {
     ASSERT (fs_ndebug fs) (unat curr_num = MAX_DIR_BLOCKS + MAX_IND_BLOCKS);
     (r, fs) \<leftarrow> get_block_ptr (i_block inode EXT2_DIND_BLOCK) fs;
     case r of
       None \<Rightarrow> Some (True, curr_num, s, fs)
     | Some ind \<Rightarrow> do {
         let num_indirects = word_of_nat ((unat (num_blocks - curr_num) + NUM_INDIRECT_BLOCKS - 1) div NUM_INDIRECT_BLOCKS);
         (ok, (s, curr_num), fs) \<leftarrow>
           visit_indirect_blocks (indirect_visitor visitor num_blocks) ind num_indirects (s, curr_num) fs;
         Some (\<not> ok \<or> curr_num = num_blocks, curr_num, s, fs)
       }
   }"

definition visit_tind ::
  "'c visitor \<Rightarrow> ext2_inode \<Rightarrow> u32 \<Rightarrow> u32 \<Rightarrow> 'c \<Rightarrow> fs \<Rightarrow> (bool \<times> u32 \<times> 'c \<times> fs) option" where
  "visit_tind visitor inode num_blocks curr_num s fs = do {
     ASSERT (fs_ndebug fs) (unat curr_num = MAX_DIR_BLOCKS + MAX_IND_BLOCKS + MAX_DIND_BLOCKS);
     (r, fs) \<leftarrow> get_block_ptr (i_block inode EXT2_TIND_BLOCK) fs;
     case r of
       None \<Rightarrow> Some (True, curr_num, s, fs)
     | Some ind \<Rightarrow> do {
         let num_indirects = word_of_nat ((unat (num_blocks - curr_num) + MAX_DIND_BLOCKS - 1) div MAX_DIND_BLOCKS);
         (ok, (s, curr_num), fs) \<leftarrow>
           visit_indirect_blocks (double_indirect_visitor visitor num_blocks) ind num_indirects (s, curr_num) fs;
         Some (True, curr_num, s, fs)
       }
   }"

definition visit_inode_blocks :: "'c visitor \<Rightarrow> ext2_inode \<Rightarrow> 'c \<Rightarrow> fs \<Rightarrow> ('c \<times> fs) option" where
  "visit_inode_blocks visitor inode s fs = do {
     ASSERT (fs_ndebug fs) (S_ISDIR (i_mode inode) \<or> S_ISREG (i_mode inode));
     num_blocks \<leftarrow> num_aligned_blocks (super_of fs) (i_blocks inode);
     if num_blocks = 0 then Some (s, fs)
     else do {
       (fin, curr_num, s, fs) \<leftarrow> visit_direct visitor inode num_blocks [0..<EXT2_NDIR_BLOCKS] 0 s fs;
       (fin, curr_num, s, fs) \<leftarrow> (if fin then Some (fin, curr_num, s, fs)
                                else visit_ind visitor inode num_blocks curr_num s fs);
       (fin, curr_num, s, fs) \<leftarrow> (if fin then Some (fin, curr_num, s, fs)
                                else visit_dind visitor inode num_blocks curr_num s fs);
       (fin, curr_num, s, fs) \<leftarrow> (if fin then Some (fin, curr_num, s, fs)
                                else visit_tind visitor inode num_blocks curr_num s fs);
       Some (s, fs)
     }
   }"

end
