(* ===== verification/Fs_Path.thy ===== *)
theory Fs_Path
  imports Common
begin

text \<open>
  \<open>include/utils/path.h\<close>: splitting of an absolute path into its components. A C string is the
  list of its bytes before the terminating null byte, and an element of \<open>name_list\<close>, a pointer
  into the string with a length, is the slice of the string it denotes.
\<close>

section \<open>The class\<close>

definition SEPARATOR :: "byte \<Rightarrow> bool" where
  "SEPARATOR c \<longleftrightarrow> c = 47"

record path =
  path_valid :: bool
  path_str :: "byte list"
  name_list :: "byte list list"

text \<open>The inner loop: the number of bytes up to the next separator or the end.\<close>

fun name_length :: "byte list \<Rightarrow> nat" where
  "name_length [] = 0"
| "name_length (c # cs) = (if SEPARATOR c then 0 else Suc (name_length cs))"

lemma name_length_pos: "ptr \<noteq> [] \<Longrightarrow> \<not> SEPARATOR (hd ptr) \<Longrightarrow> 0 < name_length ptr"
  by (cases ptr) auto

text \<open>
  The outer loop. \<open>ptr\<close> is the rest of the string, \<open>curr_off\<close> the offset of \<open>ptr\<close> in it.
\<close>

function path_loop :: "byte list \<Rightarrow> nat \<Rightarrow> path \<Rightarrow> path" where
  "path_loop ptr curr_off p =
     (if ptr = [] then p
      else let sep = SEPARATOR (hd ptr);
               ptr' = (if sep then tl ptr else ptr);
               off' = (if sep then curr_off + 1 else curr_off)
           in if ptr' = [] then p
              else let name_len = name_length ptr';
                       p' = (if name_len = 0 then p\<lparr>path_valid := False\<rparr> else p)
                   in path_loop (drop name_len ptr') (off' + name_len)
                        (p'\<lparr>name_list := name_list p' @ [take name_len (drop off' (path_str p))]\<rparr>))"
  by pat_completeness auto
termination
proof (relation "measure (\<lambda>(ptr, curr_off, p). length ptr)", goal_cases)
  case 1
  then show ?case by simp
next
  case (2 ptr curr_off p sep ptr' off' name_len p')
  show ?case
  proof (cases "SEPARATOR (hd ptr)")
    case True
    with 2 show ?thesis by (cases ptr) auto
  next
    case False
    with 2 name_length_pos [of ptr] show ?thesis by simp
  qed
qed

declare path_loop.simps [simp del]

definition Path :: "bool \<Rightarrow> byte list \<Rightarrow> path option" where
  "Path ndebug s = do {
     ASSERT ndebug (length s > 0);
     let p = \<lparr>path_valid = True, path_str = s, name_list = []\<rparr>;
     Some (if s = [] \<or> \<not> SEPARATOR (hd s) then p\<lparr>path_valid := False\<rparr> else path_loop s 0 p)
   }"

text \<open>The prefix constructor \<open>Path(path, slice)\<close>.\<close>

definition Path_slice :: "path \<Rightarrow> nat \<Rightarrow> path option" where
  "Path_slice p k = do {
     defined_if (k \<le> length (name_list p));
     Some \<lparr>path_valid = path_valid p, path_str = path_str p,
           name_list = (if k > 0 then take k (name_list p) else [])\<rparr>
   }"

definition path_size :: "path \<Rightarrow> nat" where
  "path_size p = length (name_list p)"

definition path_empty :: "path \<Rightarrow> bool" where
  "path_empty p \<longleftrightarrow> name_list p = []"

definition path_back :: "path \<Rightarrow> byte list" where
  "path_back p = (if length (name_list p) \<ge> 1 then name_list p ! (length (name_list p) - 1) else [])"

section \<open>Splitting and joining\<close>

text \<open>Reference definitions: the string spelled by a list of components, and legal names.\<close>

definition legal_name :: "byte list \<Rightarrow> bool" where
  "legal_name n \<longleftrightarrow> n \<noteq> [] \<and> (\<forall>c \<in> set n. \<not> SEPARATOR c)"

definition join_path :: "byte list list \<Rightarrow> byte list" where
  "join_path ns = concat (map (\<lambda>n. 47 # n) ns)"

lemma SEPARATOR_47 [simp]: "SEPARATOR 47"
  by (simp add: SEPARATOR_def)

lemma name_length_le: "name_length cs \<le> length cs"
  by (induction cs) auto

lemma name_length_append:
  "\<forall>c \<in> set n. \<not> SEPARATOR c \<Longrightarrow> name_length (n @ rest) = length n + name_length rest"
  by (induction n) auto

lemma take_name_length: "\<forall>c \<in> set (take (name_length cs) cs). \<not> SEPARATOR c"
  by (induction cs) auto

lemma drop_name_length: "drop (name_length cs) cs = [] \<or> SEPARATOR (hd (drop (name_length cs) cs))"
  by (induction cs) auto

text \<open>One round of the outer loop at a separator.\<close>

lemma path_loop_sep:
  "path_loop (47 # cs) off p =
     (if cs = [] then p
      else path_loop (drop (name_length cs) cs) (off + 1 + name_length cs)
             (p\<lparr>path_valid := path_valid p \<and> name_length cs \<noteq> 0,
                name_list := name_list p @ [take (name_length cs) (drop (off + 1) (path_str p))]\<rparr>))"
  by (subst path_loop.simps) (auto simp: Let_def)

lemma path_loop_Nil [simp]: "path_loop [] off p = p"
  by (subst path_loop.simps) simp

text \<open>Parsing the spelling of legal names, with or without a trailing separator.\<close>

lemma path_loop_join:
  assumes "\<forall>n \<in> set ns. legal_name n" "path_str p = pre @ join_path ns @ tail" "tail = [] \<or> tail = [47]"
  shows "path_loop (join_path ns @ tail) (length pre) p = p\<lparr>name_list := name_list p @ ns\<rparr>"
  using assms(1,2)
proof (induction ns arbitrary: pre p)
  case Nil
  then show ?case using assms(3) by (auto simp: join_path_def path_loop_sep)
next
  case (Cons n ns)
  let ?rest = "join_path ns @ tail"
  have n: "n \<noteq> []" "\<forall>c \<in> set n. \<not> SEPARATOR c"
    using Cons.prems(1) by (auto simp: legal_name_def)
  have rest: "name_length ?rest = 0"
    using assms(3) by (cases ns) (auto simp: join_path_def)
  have str: "join_path (n # ns) @ tail = 47 # (n @ ?rest)"
    by (simp add: join_path_def)
  have len: "name_length (n @ ?rest) = length n"
    using n rest by (simp add: name_length_append)
  have "path_loop (join_path (n # ns) @ tail) (length pre) p =
        path_loop ?rest (length (pre @ 47 # n)) (p\<lparr>name_list := name_list p @ [n]\<rparr>)"
    using n Cons.prems(2) by (simp add: str path_loop_sep len)
  also have "\<dots> = p\<lparr>name_list := name_list p @ n # ns\<rparr>"
    using Cons.prems by (subst Cons.IH) (auto simp: join_path_def)
  finally show ?case .
qed

text \<open>An invalid path stays invalid, and the string is never changed.\<close>

lemma path_loop_cases:
  obtains (stop) "path_loop ptr off p = p"
  | (step) ptr' off' q where "path_loop ptr off p = path_loop ptr' off' q"
      "length ptr' < length ptr" "path_str q = path_str p" "path_valid q \<longrightarrow> path_valid p"
proof (cases "ptr = [] \<or> (SEPARATOR (hd ptr) \<and> tl ptr = [])")
  case True
  then show ?thesis by (intro stop, subst path_loop.simps) (auto simp: Let_def)
next
  case False
  define ptr' where "ptr' = (if SEPARATOR (hd ptr) then tl ptr else ptr)"
  define n where "n = name_length ptr'"
  define off' where "off' = (if SEPARATOR (hd ptr) then off + 1 else off)"
  define p' where "p' = (if n = 0 then p\<lparr>path_valid := False\<rparr> else p)"
  define q where "q = p'\<lparr>name_list := name_list p' @ [take n (drop off' (path_str p))]\<rparr>"
  have "path_loop ptr off p = path_loop (drop n ptr') (off' + n) q"
    using False by (subst path_loop.simps) (simp add: ptr'_def n_def off'_def p'_def q_def Let_def)
  moreover have "length (drop n ptr') < length ptr"
    using False name_length_pos [of ptr] by (cases ptr) (auto simp: ptr'_def n_def)
  moreover have "path_str q = path_str p" "path_valid q \<longrightarrow> path_valid p"
    by (simp_all add: q_def p'_def)
  ultimately show ?thesis by (rule step)
qed

lemma path_loop_frame:
  "path_str (path_loop ptr off p) = path_str p \<and> (path_valid (path_loop ptr off p) \<longrightarrow> path_valid p)"
proof (induction "length ptr" arbitrary: ptr off p rule: less_induct)
  case less
  show ?case
    by (cases rule: path_loop_cases [of ptr off p]) (use less in auto)
qed

text \<open>A path accepted by the loop is spelled by its components.\<close>

lemma path_loop_sound:
  assumes "path_str p = join_path (name_list p) @ ptr" "ptr = [] \<or> SEPARATOR (hd ptr)"
    and "\<forall>n \<in> set (name_list p). legal_name n"
    and "r = path_loop ptr (length (join_path (name_list p))) p" "path_valid r"
  shows "(\<forall>n \<in> set (name_list r). legal_name n) \<and>
    (path_str p = join_path (name_list r) \<or> path_str p = join_path (name_list r) @ [47])"
  using assms
proof (induction "length ptr" arbitrary: ptr p rule: less_induct)
  case less
  show ?case
  proof (cases "ptr = []")
    case True
    with less.prems show ?thesis by simp
  next
    case False
    then obtain cs where ptr: "ptr = 47 # cs"
      using less.prems(2) by (cases ptr) (auto simp: SEPARATOR_def)
    define n where "n = take (name_length cs) cs"
    define q where "q = p\<lparr>path_valid := path_valid p \<and> name_length cs \<noteq> 0,
                          name_list := name_list p @ [n]\<rparr>"
    have nl: "name_length cs \<le> length cs" by (rule name_length_le)
    show ?thesis
    proof (cases "cs = []")
      case True
      with less.prems ptr show ?thesis by (simp add: path_loop_sep)
    next
      case False
      have r: "r = path_loop (drop (name_length cs) cs) (length (join_path (name_list q))) q"
        using less.prems(1,4) False nl
        by (simp add: ptr path_loop_sep q_def n_def join_path_def)
      with less.prems(5) path_loop_frame have "path_valid q" by blast
      then have n: "legal_name n"
        using take_name_length [of cs] False by (auto simp: q_def legal_name_def n_def)
      have "path_str q = join_path (name_list q) @ drop (name_length cs) cs"
        using less.prems(1) by (simp add: q_def n_def join_path_def ptr)
      then show ?thesis
        using less.hyps [of "drop (name_length cs) cs" q] less.prems(3,5) r n drop_name_length [of cs]
        by (simp add: ptr q_def)
    qed
  qed
qed

section \<open>Properties\<close>

text \<open>
  C20 (round trip, parse after print): a path spelled by one or more legal names, with or without
  a trailing separator, is parsed to a valid path with exactly these components.
\<close>

theorem Path_join:
  assumes "ns \<noteq> []" "\<forall>n \<in> set ns. legal_name n" "tail = [] \<or> tail = [47]"
  shows "Path nd (join_path ns @ tail) =
    Some \<lparr>path_valid = True, path_str = join_path ns @ tail, name_list = ns\<rparr>"
proof -
  obtain m ms where ns: "ns = m # ms" using assms(1) by (cases ns) auto
  have "hd (join_path ns @ tail) = 47" "join_path ns @ tail \<noteq> []"
    by (simp_all add: ns join_path_def)
  then show ?thesis
    using path_loop_join [OF assms(2) _ assms(3), of "\<lparr>path_valid = True, path_str = join_path ns @ tail, name_list = []\<rparr>" "[]"]
    by (simp add: Path_def Let_def)
qed

theorem Path_join_witness:
  "Path False [47, 97, 47, 98, 99, 47] =
     Some \<lparr>path_valid = True, path_str = [47, 97, 47, 98, 99, 47], name_list = [[97], [98, 99]]\<rparr>"
  using Path_join [of "[[97], [98, 99]]" "[47]" False]
  by (simp add: legal_name_def SEPARATOR_def join_path_def)

text \<open>
  C21 (round trip, print after parse): whenever the constructor accepts a string as valid, every
  component is a nonempty name without a separator, and the string is the components joined by
  separators, possibly with one trailing separator.
\<close>

theorem Path_valid_sound:
  assumes "Path nd s = Some p" "path_valid p"
  shows "path_str p = s \<and> (\<forall>n \<in> set (name_list p). legal_name n) \<and>
    (s = join_path (name_list p) \<or> s = join_path (name_list p) @ [47])"
proof -
  let ?p0 = "\<lparr>path_valid = True, path_str = s, name_list = []\<rparr>"
  from assms have "s \<noteq> []" "SEPARATOR (hd s)" and p: "p = path_loop s 0 ?p0"
    by (auto simp: Path_def Let_def bind_eq_Some_conv split: if_splits)
  then show ?thesis
    using path_loop_sound [of ?p0 s p] path_loop_frame [of s 0 ?p0] assms(2)
    by (simp add: join_path_def)
qed

theorem Path_valid_sound_witness:
  "Path False [47, 97, 47, 98] = Some \<lparr>path_valid = True, path_str = [47, 97, 47, 98], name_list = [[97], [98]]\<rparr>
   \<and> legal_name [97] \<and> legal_name [98]"
proof -
  have p: "Path False [47, 97, 47, 98] =
      Some \<lparr>path_valid = True, path_str = [47, 97, 47, 98], name_list = [[97], [98]]\<rparr>"
    by (simp add: Path_def path_loop.simps SEPARATOR_def)
  show ?thesis using p Path_valid_sound [OF p] by simp
qed

end
