(* ===== verification/Fs_Dir.thy ===== *)
theory Fs_Dir
  imports Fs_Blocks Fs_Path
begin

text \<open>
  The class \<open>FileSystem\<close>, third part: names. Looking a path up through the dentry cache and the
  directory blocks, creating, linking, unlinking and deleting inodes. Output parameters are
  returned; those that the code leaves untouched on an error path are not used by its callers.
\<close>

section \<open>Searching a directory block\<close>

text \<open>
  The loop over the entries of one block in \<open>inode_lookup(path)\<close>: the captured \<open>result\<close> (\<open>None\<close> for
  -1) and \<open>*inode\<close>.
\<close>

fun lookup_entries ::
  "addr \<Rightarrow> byte list \<Rightarrow> nat list \<Rightarrow> u32 option \<times> inode_ptr \<Rightarrow> fs \<Rightarrow>
     (bool \<times> (u32 option \<times> inode_ptr) \<times> fs) option" where
  "lookup_entries blk name [] s fs = Some (False, s, fs)"
| "lookup_entries blk name (p # ps) s fs = do {
     d \<leftarrow> block_get blk (fs_store fs);
     m \<leftarrow> de_matches d p name;
     if \<not> m then lookup_entries blk name ps s fs
     else do {
       (r, fs) \<leftarrow> get_inode (de_inode d p) fs;
       case r of
         None \<Rightarrow> Some (True, (None, snd s), fs)
       | Some ip \<Rightarrow> Some (True, (Some (de_inode d p), ip), fs)
     }
   }"

definition lookup_visitor :: "byte list \<Rightarrow> (u32 option \<times> inode_ptr) visitor" where
  "lookup_visitor name = (\<lambda>_ blk s fs. do {
     db \<leftarrow> DentryBlock_new blk (fs_store fs);
     lookup_entries blk name (db_dentries db) s fs
   })"

section \<open>Lookup by path\<close>

type_synonym lookup_result = "RetCode + inode_ptr \<times> u32 \<times> addr option"

text \<open>
  The loop over the components; the arguments are the local variables of the function. The test
  \<open>curr_index < path.size() - 1\<close> is that components remain after the current one.
\<close>

fun lookup_loop ::
  "byte list list \<Rightarrow> nat \<Rightarrow> inode_ptr \<Rightarrow> addr option \<Rightarrow> addr option \<Rightarrow> bool \<Rightarrow> u32 option \<Rightarrow> fs \<Rightarrow>
     (lookup_result \<times> fs) option" where
  "lookup_loop [] curr_index inode link parent cache_hit result fs =
     (case result of
        None \<Rightarrow> Some (Inr (inode, -1, parent), fs)
      | Some i \<Rightarrow> Some (Inr (inode, i, parent), fs))"
| "lookup_loop (elem # rest) curr_index inode link parent cache_hit result fs = do {
     (node, dc) \<leftarrow> dc_lookup link elem (fs_dcache fs);
     let fs = fs\<lparr>fs_dcache := dc\<rparr>;
     case node of
       None \<Rightarrow> do {
         (inode, fs) \<leftarrow> (if curr_index > 0 \<and> cache_hit then do {
             l \<leftarrow> link;
             x \<leftarrow> dc_nodes (fs_dcache fs) l;
             get_inode (dn_inode x) fs
           }
           else Some (Some inode, fs));
         case inode of
           None \<Rightarrow> Some (Inl FS_NOT_FOUND, fs)
         | Some inode \<Rightarrow> do {
             v \<leftarrow> fs_inode inode fs;
             if rest \<noteq> [] \<and> \<not> S_ISDIR (i_mode v) then Some (Inl FS_NDIR_ERR, fs)
             else do {
               ((result, inode), fs) \<leftarrow> visit_inode_blocks (lookup_visitor elem) v (None, inode) fs;
               case result of
                 None \<Rightarrow> Some (Inl FS_NOT_FOUND, fs)
               | Some i \<Rightarrow> do {
                   (node, dc) \<leftarrow> dc_insert link elem i (fs_dcache fs);
                   lookup_loop rest (Suc curr_index) inode (Some node) link False (Some i)
                     (fs\<lparr>fs_dcache := dc\<rparr>)
                 }
             }
           }
       }
     | Some node \<Rightarrow> do {
         x \<leftarrow> dc_nodes (fs_dcache fs) node;
         if rest = [] then do {
           (r, fs) \<leftarrow> get_inode (dn_inode x) fs;
           case r of
             None \<Rightarrow> Some (Inl FS_NOT_FOUND, fs)
           | Some inode \<Rightarrow> lookup_loop rest (Suc curr_index) inode (Some node) link True (Some (dn_inode x)) fs
         }
         else lookup_loop rest (Suc curr_index) inode (Some node) link True (Some (dn_inode x)) fs
       }
   }"

definition inode_lookup :: "path \<Rightarrow> fs \<Rightarrow> (lookup_result \<times> fs) option" where
  "inode_lookup p fs =
     (if \<not> path_valid p then Some (Inl FS_INVALID, fs)
      else if path_empty p then Some (Inr (fs_root fs, ROOT_INODE, None), fs)
      else lookup_loop (name_list p) 0 (fs_root fs) None None False None fs)"

section \<open>Lookup in a directory\<close>

text \<open>
  \<open>inode_lookup(parent, name, ...)\<close>: the inode number of the entry with the name, if there is one,
  and the last block of the directory with its index. It scans every entry of every block.
\<close>

fun scan_entries :: "addr \<Rightarrow> byte list \<Rightarrow> nat list \<Rightarrow> u32 option \<Rightarrow> fs \<Rightarrow> u32 option option" where
  "scan_entries blk name [] found fs = Some found"
| "scan_entries blk name (p # ps) found fs = do {
     d \<leftarrow> block_get blk (fs_store fs);
     m \<leftarrow> de_matches d p name;
     scan_entries blk name ps (if m then Some (de_inode d p) else found) fs
   }"

definition scan_visitor :: "byte list \<Rightarrow> (u32 option \<times> (addr \<times> u32) option) visitor" where
  "scan_visitor name = (\<lambda>index blk (found, last_block) fs. do {
     db \<leftarrow> DentryBlock_new blk (fs_store fs);
     found \<leftarrow> scan_entries blk name (db_dentries db) found fs;
     Some (False, (found, Some (blk, index)), fs)
   })"

definition inode_lookup_in ::
  "inode_ptr \<Rightarrow> byte list \<Rightarrow> fs \<Rightarrow> ((u32 option \<times> (addr \<times> u32) option) \<times> fs) option" where
  "inode_lookup_in parent name fs = do {
     v \<leftarrow> fs_inode parent fs;
     visit_inode_blocks (scan_visitor name) v (None, None) fs
   }"

section \<open>Creating entries and inodes\<close>

text \<open>\<open>alloc_block(&block, &index, parent)\<close> for an inode of the inode table.\<close>

definition alloc_block_at :: "inode_ptr \<Rightarrow> fs \<Rightarrow> ((addr \<times> u32) option \<times> fs) option" where
  "alloc_block_at parent fs = do {
     v \<leftarrow> fs_inode parent fs;
     (r, v, fs) \<leftarrow> alloc_block_inode v fs;
     fs \<leftarrow> fs_put_inode parent v fs;
     Some (r, fs)
   }"

definition dentry_create ::
  "(addr \<times> u32) option \<Rightarrow> inode_ptr \<Rightarrow> byte list \<Rightarrow> u32 \<Rightarrow> u32 \<Rightarrow> fs \<Rightarrow> (RetCode \<times> fs) option" where
  "dentry_create last_block parent name inode_index mode fs = do {
     (last_block, fs) \<leftarrow> (if last_block = None then alloc_block_at parent fs else Some (last_block, fs));
     case last_block of
       None \<Rightarrow> Some (FS_ALLOC_ERR, fs)
     | Some (blk, index) \<Rightarrow> do {
         db \<leftarrow> DentryBlock_new blk (fs_store fs);
         (last_block, fs) \<leftarrow> (if db_size db + sizeof_dir_entry + length name > BLOCK_SIZE
                              then alloc_block_at parent fs else Some (Some (blk, index), fs));
         case last_block of
           None \<Rightarrow> Some (FS_ALLOC_ERR, fs)
         | Some (blk, index) \<Rightarrow> do {
             db \<leftarrow> DentryBlock_new blk (fs_store fs);
             (_, _, st) \<leftarrow> alloc_dentry name inode_index mode db (fs_store fs);
             Some (FS_SUCCESS, fs_modify index (fs\<lparr>fs_store := st\<rparr>))
           }
       }
   }"

text \<open>
  \<open>inode_create\<close>: the code, and the inode with its number where the function sets them, which it
  also does when the name exists already.
\<close>

definition inode_create ::
  "u32 \<Rightarrow> path \<Rightarrow> u32 \<Rightarrow> fs \<Rightarrow> (RetCode \<times> (inode_ptr \<times> u32) option \<times> fs) option" where
  "inode_create now p mode fs =
     (if \<not> path_valid p then Some (FS_INVALID, None, fs)
      else if path_empty p then Some (FS_DUP_ERR, None, fs)
      else do {
        dir \<leftarrow> Path_slice p (path_size p - 1);
        (r, fs) \<leftarrow> inode_lookup dir fs;
        case r of
          Inl e \<Rightarrow> Some (e, None, fs)
        | Inr (parent, _, _) \<Rightarrow> do {
            v \<leftarrow> fs_inode parent fs;
            if \<not> S_ISDIR (i_mode v) then Some (FS_NDIR_ERR, None, fs)
            else do {
              ((found, last_block), fs) \<leftarrow> inode_lookup_in parent (path_back p) fs;
              case found of
                Some i \<Rightarrow> do {
                  (r, fs) \<leftarrow> get_inode i fs;
                  case r of
                    None \<Rightarrow> Some (FS_NOT_FOUND, None, fs)
                  | Some ip \<Rightarrow> Some (FS_DUP_ERR, Some (ip, i), fs)
                }
              | None \<Rightarrow> do {
                  (r, fs) \<leftarrow> alloc_inode now mode fs;
                  case r of
                    None \<Rightarrow> Some (FS_ALLOC_ERR, None, fs)
                  | Some (ip, i) \<Rightarrow> do {
                      (ret, fs) \<leftarrow> dentry_create last_block parent (path_back p) i mode fs;
                      Some (ret, Some (ip, i), fs)
                    }
                }
            }
          }
      })"

definition inode_link :: "path \<Rightarrow> path \<Rightarrow> fs \<Rightarrow> (RetCode \<times> fs) option" where
  "inode_link src dst fs =
     (if \<not> path_valid src \<or> \<not> path_valid dst then Some (FS_INVALID, fs)
      else if path_empty src \<or> path_empty dst then Some (FS_DUP_ERR, fs)
      else do {
        (r, fs) \<leftarrow> inode_lookup src fs;
        case r of
          Inl e \<Rightarrow> Some (e, fs)
        | Inr (src_inode, inode_index, _) \<Rightarrow> do {
            s \<leftarrow> fs_inode src_inode fs;
            if S_ISDIR (i_mode s) then Some (FS_DIR_ERR, fs)
            else do {
              dir \<leftarrow> Path_slice dst (path_size dst - 1);
              (r, fs) \<leftarrow> inode_lookup dir fs;
              case r of
                Inl e \<Rightarrow> Some (e, fs)
              | Inr (parent, _, _) \<Rightarrow> do {
                  v \<leftarrow> fs_inode parent fs;
                  if \<not> S_ISDIR (i_mode v) then Some (FS_NDIR_ERR, fs)
                  else do {
                    ((found, last_block), fs) \<leftarrow> inode_lookup_in parent (path_back dst) fs;
                    if found \<noteq> None then Some (FS_DUP_ERR, fs)
                    else do {
                      s \<leftarrow> fs_inode src_inode fs;
                      (ret, fs) \<leftarrow> dentry_create last_block parent (path_back dst) inode_index (ucast (i_mode s)) fs;
                      if ret \<noteq> FS_SUCCESS then Some (ret, fs)
                      else do {
                        s \<leftarrow> fs_inode src_inode fs;
                        fs \<leftarrow> fs_put_inode src_inode (s\<lparr>i_links_count := i_links_count s + 1\<rparr>) fs;
                        Some (FS_SUCCESS, fs)
                      }
                    }
                  }
                }
            }
          }
      })"

section \<open>Deleting inodes and entries\<close>

text \<open>
  \<open>inode_delete\<close> descends into directories through the entries it finds there. A chain of nested
  calls that does not repeat an inode number has at most \<open>2 ^ 32\<close> calls, and one that repeats a
  number never returns, because nothing is freed on the way down; so \<open>DELETE_FUEL\<close> is enough.
\<close>

definition DELETE_FUEL :: nat where "DELETE_FUEL = 2 ^ 32 + 1"

fun delete_entries ::
  "(u32 \<Rightarrow> fs \<Rightarrow> (RetCode \<times> fs) option) \<Rightarrow> addr \<Rightarrow> nat list \<Rightarrow> fs \<Rightarrow> fs option" where
  "delete_entries del blk [] fs = Some fs"
| "delete_entries del blk (p # ps) fs = do {
     d \<leftarrow> block_get blk (fs_store fs);
     fs \<leftarrow> (if de_name_len d p \<noteq> 0 then map_option snd (del (de_inode d p) fs) else Some fs);
     delete_entries del blk ps fs
   }"

fun inode_delete :: "nat \<Rightarrow> u32 \<Rightarrow> fs \<Rightarrow> (RetCode \<times> fs) option" where
  "inode_delete 0 index fs = None"
| "inode_delete (Suc fuel) index fs =
     (if index = ROOT_INODE then Some (FS_INVALID, fs)
      else do {
        (r, fs) \<leftarrow> get_inode index fs;
        case r of
          None \<Rightarrow> Some (FS_NOT_FOUND, fs)
        | Some ip \<Rightarrow> do {
            v \<leftarrow> fs_inode ip fs;
            if \<not> S_ISREG (i_mode v) \<and> \<not> S_ISDIR (i_mode v) then Some (FS_NOT_FOUND, fs)
            else do {
              (_, fs) \<leftarrow> (if S_ISDIR (i_mode v)
                 then visit_inode_blocks (\<lambda>_ blk s fs. do {
                        db \<leftarrow> DentryBlock_new blk (fs_store fs);
                        fs \<leftarrow> delete_entries (inode_delete fuel) blk (db_dentries db) fs;
                        Some (False, s, fs)
                      }) v () fs
                 else visit_inode_blocks (\<lambda>i _ s fs. do {
                        (_, fs) \<leftarrow> free_block i fs;
                        Some (False, s, fs)
                      }) v () fs);
              (_, fs) \<leftarrow> free_inode index fs;
              Some (FS_SUCCESS, fs)
            }
          }
      })"

text \<open>
  The visitor of \<open>inode_unlink\<close>: it clears the name length of the first matching entry and
  records the block and the inode number.
\<close>

fun unlink_entries ::
  "u32 \<Rightarrow> addr \<Rightarrow> byte list \<Rightarrow> nat list \<Rightarrow> (u32 \<times> u32) option \<Rightarrow> fs \<Rightarrow>
     (bool \<times> (u32 \<times> u32) option \<times> fs) option" where
  "unlink_entries index blk name [] s fs = Some (False, s, fs)"
| "unlink_entries index blk name (p # ps) s fs = do {
     d \<leftarrow> block_get blk (fs_store fs);
     m \<leftarrow> de_matches d p name;
     if \<not> m then unlink_entries index blk name ps s fs
     else do {
       st \<leftarrow> block_put blk (d(p + 6 := 0)) (fs_store fs);
       Some (True, Some (index, de_inode d p), fs\<lparr>fs_store := st\<rparr>)
     }
   }"

definition unlink_visitor :: "byte list \<Rightarrow> (u32 \<times> u32) option visitor" where
  "unlink_visitor name = (\<lambda>index blk s fs. do {
     db \<leftarrow> DentryBlock_new blk (fs_store fs);
     unlink_entries index blk name (db_dentries db) s fs
   })"

definition inode_unlink :: "path \<Rightarrow> fs \<Rightarrow> (RetCode \<times> fs) option" where
  "inode_unlink p fs =
     (if \<not> path_valid p then Some (FS_INVALID, fs)
      else if path_empty p then Some (FS_INVALID, fs)
      else do {
        dir \<leftarrow> Path_slice p (path_size p - 1);
        (r, fs) \<leftarrow> inode_lookup dir fs;
        case r of
          Inl e \<Rightarrow> Some (e, fs)
        | Inr (parent, _, parent_dentry) \<Rightarrow> do {
            v \<leftarrow> fs_inode parent fs;
            if \<not> S_ISDIR (i_mode v) then Some (FS_NDIR_ERR, fs)
            else do {
              (hit, fs) \<leftarrow> visit_inode_blocks (unlink_visitor (path_back p)) v None fs;
              case hit of
                None \<Rightarrow> Some (FS_NOT_FOUND, fs)
              | Some (dentry_block_index, matched_index) \<Rightarrow> do {
                  let fs = fs_modify dentry_block_index fs;
                  (cache_ptr, dc) \<leftarrow> dc_lookup parent_dentry (path_back dir) (fs_dcache fs);
                  dc \<leftarrow> dc_remove cache_ptr (path_back p) dc;
                  let fs = fs\<lparr>fs_dcache := dc\<rparr>;
                  (r, fs) \<leftarrow> get_inode matched_index fs;
                  case r of
                    None \<Rightarrow> Some (FS_NOT_FOUND, fs)
                  | Some ip \<Rightarrow> do {
                      x \<leftarrow> fs_inode ip fs;
                      fs \<leftarrow> fs_put_inode ip (x\<lparr>i_links_count := i_links_count x - 1\<rparr>) fs;
                      if i_links_count x - 1 = 0 then inode_delete DELETE_FUEL matched_index fs
                      else Some (FS_SUCCESS, fs)
                    }
                }
            }
          }
      })"

text \<open>\<open>write_block\<close> of \<open>include/filesystem.h\<close>.\<close>

definition write_block :: "addr \<Rightarrow> u32 \<Rightarrow> byte list \<Rightarrow> fs \<Rightarrow> fs option" where
  "write_block blk index buf fs = do {
     defined_if (length buf \<le> BLOCK_SIZE);
     d \<leftarrow> block_get blk (fs_store fs);
     st \<leftarrow> block_put blk (put_bytes d 0 buf) (fs_store fs);
     Some (fs_modify index (fs\<lparr>fs_store := st\<rparr>))
   }"

end
