(* ===== verification/File_Status.thy ===== *)
theory File_Status
  imports Fs_Dir
begin

text \<open>
  The per-file state of \<open>include/operation.h\<close> and \<open>src/operation/operation.cpp\<close>: \<open>InodeCache\<close>, the
  private copy of an inode shared by all handles of a file, \<open>FileStatus\<close>, the handle with its
  position in the block map, and \<open>OpManager\<close>, which owns the inode caches. Handles and caches live
  on heaps. The lists \<open>vec\<close> of handles are modelled by their contents, most recent first. The
  locks are not modelled: an operation runs to its end before the next one starts.
\<close>

section \<open>Handles\<close>

definition IBLOCK_11 :: u32 where [simp]: "IBLOCK_11 = 11"
definition IBLOCK_12 :: u32 where [simp]: "IBLOCK_12 = word_of_nat (BLOCK_SIZE div 4) + 11"
definition IBLOCK_13 :: u32 where
  [simp]: "IBLOCK_13 = word_of_nat ((BLOCK_SIZE div 4) * (BLOCK_SIZE div 4)) + IBLOCK_12"
definition IBLOCK_14 :: u32 where
  [simp]: "IBLOCK_14 = word_of_nat ((BLOCK_SIZE div 4) * (BLOCK_SIZE div 4) * (BLOCK_SIZE div 4)) + IBLOCK_13"

definition PTRS :: u32 where [simp]: "PTRS = word_of_nat (BLOCK_SIZE div 4)"

record file_status =
  fd_inode_cache :: addr
  fd_listed :: bool
  cache_update_flag :: bool
  block_id :: u32
  block_id_in_file :: u32
  indirect_block :: "nat \<Rightarrow> u32"

definition FileStatus_new :: file_status where
  "FileStatus_new = \<lparr>fd_inode_cache = 0, fd_listed = False, cache_update_flag = False, block_id = 0,
     block_id_in_file = 0, indirect_block = (\<lambda>_. 0)\<rparr>"

text \<open>\<open>IndirectBlockPtr::seek\<close> on the pointer with number \<open>i\<close>.\<close>

definition ind_seek :: "u32 \<Rightarrow> u32 \<Rightarrow> fs \<Rightarrow> (u32 option \<times> fs) option" where
  "ind_seek i off fs = do {
     (r, fs) \<leftarrow> get_block_ptr i fs;
     case r of
       None \<Rightarrow> Some (None, fs)
     | Some blk \<Rightarrow> do {
         v \<leftarrow> read_slot blk (unat off) fs;
         Some (Some v, fs)
       }
   }"

text \<open>
  The sequences \<open>indirect_block_[k].seek(a, indirect_block_[k+1].id_)\<close>, ...,
  \<open>indirect_block_[m].seek(z, block_id_)\<close>, each followed by \<open>return -EINVAL\<close> on failure.
\<close>

fun walk :: "nat \<Rightarrow> u32 list \<Rightarrow> file_status \<Rightarrow> fs \<Rightarrow> (int \<times> file_status \<times> fs) option" where
  "walk k [] f fs = Some (0, f, fs)"
| "walk k [off] f fs = do {
     (r, fs) \<leftarrow> ind_seek (indirect_block f k) off fs;
     case r of
       None \<Rightarrow> Some (- EINVAL, f, fs)
     | Some v \<Rightarrow> Some (0, f\<lparr>block_id := v\<rparr>, fs)
   }"
| "walk k (off # offs) f fs = do {
     (r, fs) \<leftarrow> ind_seek (indirect_block f k) off fs;
     case r of
       None \<Rightarrow> Some (- EINVAL, f, fs)
     | Some v \<Rightarrow> walk (Suc k) offs (f\<lparr>indirect_block := (indirect_block f)(Suc k := v)\<rparr>) fs
   }"

text \<open>\<open>indirect_block_[0] = IndirectBlockPtr(i_block[k])\<close>.\<close>

definition from_inode :: "ext2_inode \<Rightarrow> nat \<Rightarrow> file_status \<Rightarrow> file_status" where
  "from_inode inode k f = f\<lparr>indirect_block := (indirect_block f)(0 := i_block inode k)\<rparr>"

definition bf_seek :: "ext2_inode \<Rightarrow> u32 \<Rightarrow> file_status \<Rightarrow> fs \<Rightarrow> (int \<times> file_status \<times> fs) option" where
  "bf_seek inode b f fs =
     (let f = f\<lparr>block_id_in_file := b\<rparr> in
      if b \<le> IBLOCK_11 then Some (0, f\<lparr>block_id := i_block inode (unat b)\<rparr>, fs)
      else if b \<le> IBLOCK_12 then walk 0 [b - IBLOCK_11 - 1] (from_inode inode 12 f) fs
      else if b \<le> IBLOCK_13 then
        walk 0 [(b - IBLOCK_12 - 1) div PTRS, (b - IBLOCK_12 - 1) mod PTRS] (from_inode inode 13 f) fs
      else if b \<le> IBLOCK_14 then
        walk 0 [(b - IBLOCK_13 - 1) div (PTRS * PTRS), (b - IBLOCK_13 - 1) mod (PTRS * PTRS) div PTRS,
                (b - IBLOCK_13 - 1) mod PTRS] (from_inode inode 14 f) fs
      else Some (- EINVAL, f, fs))"

definition next_block :: "ext2_inode \<Rightarrow> file_status \<Rightarrow> fs \<Rightarrow> (int \<times> file_status \<times> fs) option" where
  "next_block inode f fs =
     (let old = block_id_in_file f; b = old + 1; g = f\<lparr>block_id_in_file := b\<rparr> in
      if old \<le> IBLOCK_11 then
        (if b \<le> IBLOCK_11 then Some (0, g\<lparr>block_id := i_block inode (unat b)\<rparr>, fs)
         else walk 0 [0] (from_inode inode 12 g) fs)
      else if old \<le> IBLOCK_12 then
        (if b \<le> IBLOCK_12 then walk 0 [b - IBLOCK_11 - 1] g fs
         else walk 0 [0, 0] (from_inode inode 13 g) fs)
      else if old \<le> IBLOCK_13 then
        (if b \<le> IBLOCK_13 then
           (let first_id = (b - IBLOCK_12 - 1) div PTRS; second_id = (b - IBLOCK_12 - 1) mod PTRS
            in if second_id = 0 then walk 0 [first_id, 0] g fs else walk 1 [second_id] g fs)
         else walk 0 [0, 0, 0] (from_inode inode 14 g) fs)
      else if old \<le> IBLOCK_14 then
        (let first_id = (b - IBLOCK_13 - 1) div (PTRS * PTRS);
             second_id = (b - IBLOCK_13 - 1) mod (PTRS * PTRS) div PTRS;
             third_id = (b - IBLOCK_13 - 1) mod PTRS
         in if third_id = 0 then
              (if second_id = 0 then walk 0 [first_id, second_id, third_id] g fs
               else walk 1 [second_id, third_id] g fs)
            else walk 2 [third_id] g fs)
      else Some (- EINVAL, f, fs))"

definition seek :: "ext2_inode \<Rightarrow> u32 \<Rightarrow> file_status \<Rightarrow> fs \<Rightarrow> (int \<times> file_status \<times> fs) option" where
  "seek inode b f fs =
     (let old = block_id_in_file f; g = f\<lparr>block_id_in_file := b\<rparr> in
      if b \<le> IBLOCK_12 then do {
        (_, f, fs) \<leftarrow> bf_seek inode b f fs;
        Some (0, f, fs)
      }
      else if b \<le> IBLOCK_13 then
        (let old_first_id = (old - IBLOCK_12 - 1) div PTRS; old_second_id = (old - IBLOCK_12 - 1) mod PTRS;
             new_first_id = (b - IBLOCK_12 - 1) div PTRS; new_second_id = (b - IBLOCK_12 - 1) mod PTRS
         in if new_first_id = old_first_id \<and> new_second_id = old_second_id then Some (0, g, fs)
            else if new_first_id = old_first_id then walk 1 [new_second_id] g fs
            else bf_seek inode b g fs)
      else if b \<le> IBLOCK_14 then
        (let old_first_id = (old - IBLOCK_13 - 1) div (PTRS * PTRS);
             old_second_id = (old - IBLOCK_13 - 1) mod (PTRS * PTRS) div PTRS;
             old_third_id = (old - IBLOCK_13 - 1) mod PTRS;
             new_first_id = (b - IBLOCK_13 - 1) div (PTRS * PTRS);
             new_second_id = (b - IBLOCK_13 - 1) mod (PTRS * PTRS) div PTRS;
             new_third_id = (b - IBLOCK_13 - 1) mod PTRS
         in if new_first_id = old_first_id \<and> new_second_id = old_second_id \<and> new_third_id = old_third_id
            then Some (0, g, fs)
            else if new_first_id = old_first_id \<and> new_second_id = old_second_id
            then walk 2 [new_second_id] g fs
            else if new_first_id = old_first_id then walk 1 [new_second_id, new_second_id] g fs
            else bf_seek inode b g fs)
      else Some (0, f, fs))"

definition fd_upd_cache :: "ext2_inode \<Rightarrow> file_status \<Rightarrow> fs \<Rightarrow> (int \<times> file_status \<times> fs) option" where
  "fd_upd_cache inode f fs =
     (if cache_update_flag f
      then bf_seek inode (block_id_in_file f) (f\<lparr>cache_update_flag := False\<rparr>) fs
      else Some (0, f, fs))"

section \<open>Reading\<close>

text \<open>
  The loop of \<open>copy_to_buf\<close> after the first block: \<open>out\<close> holds the bytes copied so far, which is
  what \<open>ret\<close> counts.
\<close>

function copy_loop ::
  "ext2_inode \<Rightarrow> nat \<Rightarrow> nat \<Rightarrow> nat \<Rightarrow> byte list \<Rightarrow> file_status \<Rightarrow> fs \<Rightarrow>
     (int \<times> byte list \<times> file_status \<times> fs) option" where
  "copy_loop inode isize off sz out f fs =
     (if sz = 0 then Some (int (length out), out, f, fs)
      else if off \<ge> isize then Some (int (length out), out, f, fs)
      else do {
        (e, f, fs) \<leftarrow> next_block inode f fs;
        let csz = min sz (min (isize - off) BLOCK_SIZE);
        if e \<noteq> 0 then Some (e, out, f, fs)
        else do {
          (r, fs) \<leftarrow> get_block (block_id f) False 0 [] csz fs;
          case r of
            None \<Rightarrow> Some (- EINVAL, out, f, fs)
          | Some (_, bs) \<Rightarrow> copy_loop inode isize (off + csz) (sz - csz) (out @ bs) f fs
        }
      })"
  by pat_completeness auto
termination
  by (relation "measure (\<lambda>(inode, isize, off, sz, out, f, fs). sz)") auto

declare copy_loop.simps [simp del]

definition copy_to_buf ::
  "ext2_inode \<Rightarrow> nat \<Rightarrow> nat \<Rightarrow> file_status \<Rightarrow> fs \<Rightarrow> (int \<times> byte list \<times> file_status \<times> fs) option" where
  "copy_to_buf inode off sz f fs =
     (let isize = unat (i_size inode) in
      if off \<ge> isize then Some (0, [], f, fs)
      else do {
        (e, f, fs) \<leftarrow> fd_upd_cache inode f fs;
        if e \<noteq> 0 then Some (e, [], f, fs)
        else do {
          (e, f, fs) \<leftarrow> seek inode (word_of_nat (off div BLOCK_SIZE)) f fs;
          if e \<noteq> 0 then Some (e, [], f, fs)
          else do {
            let csz = min sz (BLOCK_SIZE - off mod BLOCK_SIZE);
            (r, fs) \<leftarrow> get_block (block_id f) False (off mod BLOCK_SIZE) [] csz fs;
            case r of
              None \<Rightarrow> Some (- EINVAL, [], f, fs)
            | Some (_, bs) \<Rightarrow> copy_loop inode isize (off + csz) (sz - csz) bs f fs
          }
        }
      })"

section \<open>Writing\<close>

text \<open>
  The loop that fills the gap before an offset beyond the end of the file. \<open>i_size\<close> has 32 bits:
  for an offset beyond \<open>2 ^ 32\<close> the loop only ends when allocation fails.
\<close>

definition next_boundary :: "u32 \<Rightarrow> u32" where
  "next_boundary sz = sz + word_of_nat BLOCK_SIZE - sz mod word_of_nat BLOCK_SIZE"

partial_function (option) gap_loop :: "nat \<Rightarrow> ext2_inode \<Rightarrow> fs \<Rightarrow> (bool \<times> ext2_inode \<times> fs) option" where
  "gap_loop off inode fs =
     (if unat (next_boundary (i_size inode)) < off then do {
        (r, inode, fs) \<leftarrow> alloc_block_inode inode fs;
        case r of
          None \<Rightarrow> Some (False, inode, fs)
        | Some _ \<Rightarrow> gap_loop off (inode\<lparr>i_size := next_boundary (i_size inode)\<rparr>) fs
      }
      else Some (True, inode, fs))"

definition grow_to :: "nat \<Rightarrow> ext2_inode \<Rightarrow> ext2_inode" where
  "grow_to off inode = inode\<lparr>i_size := word_of_nat (max (unat (i_size inode)) off)\<rparr>"

text \<open>The loop over the blocks after the first one when the file grows. \<open>n\<close> is \<open>ret\<close>.\<close>

function write_loop ::
  "byte list \<Rightarrow> nat \<Rightarrow> nat \<Rightarrow> nat \<Rightarrow> ext2_inode \<Rightarrow> file_status \<Rightarrow> fs \<Rightarrow>
     (int \<times> bool \<times> ext2_inode \<times> file_status \<times> fs) option" where
  "write_loop buf n off sz inode f fs =
     (if sz = 0 then Some (int n, True, inode, f, fs)
      else do {
        let csz = min sz BLOCK_SIZE;
        (ok, inode, fs) \<leftarrow> (if off \<ge> unat (i_size inode) then do {
            (r, inode, fs) \<leftarrow> alloc_block_inode inode fs;
            Some (r \<noteq> None, inode, fs)
          }
          else Some (True, inode, fs));
        if \<not> ok then Some (int n, False, inode, f, fs)
        else do {
          (e, f, fs) \<leftarrow> next_block inode f fs;
          if e \<noteq> 0 then Some (- EIO, False, inode, f, fs)
          else do {
            (r, fs) \<leftarrow> get_block (block_id f) True 0 (drop n buf) csz fs;
            case r of
              None \<Rightarrow> Some (- EIO, False, inode, f, fs)
            | Some _ \<Rightarrow> write_loop buf (n + csz) (off + csz) (sz - csz) (grow_to (off + csz) inode) f fs
          }
        }
      })"
  by pat_completeness auto
termination
  by (relation "measure (\<lambda>(buf, n, off, sz, inode, f, fs). sz)") auto

declare write_loop.simps [simp del]

text \<open>
  Writing past the end of the file. The flag tells whether \<open>upd_all\<close> is called, after which every
  handle of the file looks its position up again.
\<close>

definition write_grow ::
  "byte list \<Rightarrow> nat \<Rightarrow> ext2_inode \<Rightarrow> file_status \<Rightarrow> fs \<Rightarrow>
     (int \<times> bool \<times> ext2_inode \<times> file_status \<times> fs) option" where
  "write_grow buf off inode f fs = do {
     (ok, inode, fs) \<leftarrow> gap_loop off inode fs;
     (ok, inode, fs) \<leftarrow> (if \<not> ok then Some (ok, inode, fs)
       else if i_size inode mod word_of_nat BLOCK_SIZE = 0 then do {
         (r, inode, fs) \<leftarrow> alloc_block_inode inode fs;
         Some (r \<noteq> None, inode, fs)
       }
       else Some (True, inode, fs));
     if \<not> ok then Some (0, False, inode, f, fs)
     else do {
       (e, f, fs) \<leftarrow> seek inode (word_of_nat (off div BLOCK_SIZE)) f fs;
       if e \<noteq> 0 then Some (e, False, inode, f, fs)
       else do {
         let csz = min (length buf) (BLOCK_SIZE - off mod BLOCK_SIZE);
         (r, fs) \<leftarrow> get_block (block_id f) True (off mod BLOCK_SIZE) buf csz fs;
         case r of
           None \<Rightarrow> Some (- EINVAL, False, inode, f, fs)
         | Some _ \<Rightarrow> write_loop buf csz (off + csz) (length buf - csz) (grow_to (off + csz) inode) f fs
       }
     }
   }"

text \<open>The loop when the file does not grow.\<close>

function over_loop ::
  "ext2_inode \<Rightarrow> nat \<Rightarrow> byte list \<Rightarrow> nat \<Rightarrow> nat \<Rightarrow> nat \<Rightarrow> file_status \<Rightarrow> fs \<Rightarrow>
     (int \<times> file_status \<times> fs) option" where
  "over_loop inode isize buf n off sz f fs =
     (if sz = 0 then Some (int n, f, fs)
      else if off \<ge> isize then Some (int n, f, fs)
      else do {
        let csz = min sz BLOCK_SIZE;
        (e, f, fs) \<leftarrow> next_block inode f fs;
        if e \<noteq> 0 then Some (e, f, fs)
        else do {
          (r, fs) \<leftarrow> get_block (block_id f) True 0 (drop n buf) csz fs;
          case r of
            None \<Rightarrow> Some (- EINVAL, f, fs)
          | Some _ \<Rightarrow> over_loop inode isize buf (n + csz) (off + csz) (sz - csz) f fs
        }
      })"
  by pat_completeness auto
termination
  by (relation "measure (\<lambda>(inode, isize, buf, n, off, sz, f, fs). sz)") auto

declare over_loop.simps [simp del]

definition write_over ::
  "byte list \<Rightarrow> nat \<Rightarrow> ext2_inode \<Rightarrow> file_status \<Rightarrow> fs \<Rightarrow> (int \<times> file_status \<times> fs) option" where
  "write_over buf off inode f fs = do {
     (e, f, fs) \<leftarrow> seek inode (word_of_nat (off div BLOCK_SIZE)) f fs;
     if e \<noteq> 0 then Some (e, f, fs)
     else do {
       let csz = min (length buf) (BLOCK_SIZE - off mod BLOCK_SIZE);
       (r, fs) \<leftarrow> get_block (block_id f) True (off mod BLOCK_SIZE) buf csz fs;
       case r of
         None \<Rightarrow> Some (- EINVAL, f, fs)
       | Some _ \<Rightarrow> over_loop inode (unat (i_size inode)) buf csz (off + csz) (length buf - csz) f fs
     }
   }"

definition fd_write ::
  "byte list \<Rightarrow> nat \<Rightarrow> bool \<Rightarrow> ext2_inode \<Rightarrow> file_status \<Rightarrow> fs \<Rightarrow>
     (int \<times> bool \<times> ext2_inode \<times> file_status \<times> fs) option" where
  "fd_write buf off append_flag inode f fs = do {
     let isize = unat (i_size inode);
     (e, f, fs) \<leftarrow> fd_upd_cache inode f fs;
     if e \<noteq> 0 then Some (e, False, inode, f, fs)
     else do {
       let off = (if append_flag then isize else off);
       if off + length buf > isize then write_grow buf off inode f fs
       else do {
         (e, f, fs) \<leftarrow> write_over buf off inode f fs;
         Some (e, False, inode, f, fs)
       }
     }
   }"

end
