(* ===== verification/Fuse_Ops.thy ===== *)
theory Fuse_Ops
  imports File_Status
begin

text \<open>
  \<open>InodeCache\<close> and \<open>OpManager\<close> of \<open>include/operation.h\<close> and the FUSE operations of
  \<open>src/operation\<close>. The caller's identity (\<open>fuse_get_context\<close>) and the time are parameters; an
  operation returns its errno value. \<open>fi->fh\<close> is the address of the handle, and the null checks on
  \<open>fs\<close>, \<open>fi\<close>, \<open>path\<close> and \<open>stbuf\<close>, which libfuse never passes as null here, are left out.
\<close>

section \<open>InodeCache and OpManager\<close>

record inode_cache =
  ic_inode_id :: u32
  ic_cnts :: u32
  ic_cache :: ext2_inode
  ic_vec :: "addr list"

record op_state =
  op_fs :: fs
  op_st :: "(u32 \<times> addr) list"
  op_ics :: "addr \<Rightarrow> inode_cache option"
  op_icbrk :: addr
  op_fds :: "addr \<Rightarrow> file_status option"
  op_fdbrk :: addr

definition set_fs :: "fs \<Rightarrow> op_state \<Rightarrow> op_state" where
  "set_fs fs s = s\<lparr>op_fs := fs\<rparr>"

definition set_ic :: "addr \<Rightarrow> inode_cache \<Rightarrow> op_state \<Rightarrow> op_state" where
  "set_ic a ic s = s\<lparr>op_ics := (op_ics s)(a \<mapsto> ic)\<rparr>"

definition set_fd :: "addr \<Rightarrow> file_status \<Rightarrow> op_state \<Rightarrow> op_state" where
  "set_fd a f s = s\<lparr>op_fds := (op_fds s)(a \<mapsto> f)\<rparr>"

definition upd_inode :: "addr \<Rightarrow> (ext2_inode \<Rightarrow> ext2_inode) \<Rightarrow> op_state \<Rightarrow> op_state option" where
  "upd_inode a f s = do {
     ic \<leftarrow> op_ics s a;
     Some (set_ic a (ic\<lparr>ic_cache := f (ic_cache ic)\<rparr>) s)
   }"

definition ic_commit :: "addr \<Rightarrow> op_state \<Rightarrow> (int \<times> op_state) option" where
  "ic_commit a s = do {
     ic \<leftarrow> op_ics s a;
     (r, fs) \<leftarrow> get_inode (ic_inode_id ic) (op_fs s);
     case r of
       None \<Rightarrow> Some (- EIO, set_fs fs s)
     | Some ip \<Rightarrow> do {
         fs \<leftarrow> fs_put_inode ip (ic_cache ic) fs;
         Some (0, set_fs fs s)
       }
   }"

text \<open>\<open>InodeCache::upd_all\<close>.\<close>

fun flag_all :: "addr list \<Rightarrow> op_state \<Rightarrow> op_state option" where
  "flag_all [] s = Some s"
| "flag_all (a # as) s = do {
     f \<leftarrow> op_fds s a;
     flag_all as (set_fd a (f\<lparr>cache_update_flag := True\<rparr>) s)
   }"

definition ic_upd_all :: "addr \<Rightarrow> op_state \<Rightarrow> op_state option" where
  "ic_upd_all a s = do {
     ic \<leftarrow> op_ics s a;
     flag_all (ic_vec ic) s
   }"

definition op_get_cache :: "u32 \<Rightarrow> op_state \<Rightarrow> (addr option \<times> op_state) option" where
  "op_get_cache inode_id s = do {
     (ok, s) \<leftarrow> (case map_of (op_st s) inode_id of
         Some _ \<Rightarrow> Some (True, s)
       | None \<Rightarrow> do {
           (r, fs) \<leftarrow> get_inode inode_id (op_fs s);
           let s = set_fs fs s;
           case r of
             None \<Rightarrow> Some (False, s)
           | Some ip \<Rightarrow> do {
               v \<leftarrow> fs_inode ip fs;
               let a = op_icbrk s;
               let s = set_ic a \<lparr>ic_inode_id = inode_id, ic_cnts = 0, ic_cache = v, ic_vec = []\<rparr> s;
               Some (True, s\<lparr>op_icbrk := Suc a, op_st := omap_put inode_id a (op_st s)\<rparr>)
             }
         });
     if \<not> ok then Some (None, s)
     else do {
       a \<leftarrow> map_of (op_st s) inode_id;
       ic \<leftarrow> op_ics s a;
       Some (Some a, set_ic a (ic\<lparr>ic_cnts := ic_cnts ic + 1\<rparr>) s)
     }
   }"

definition op_upd_cache :: "addr \<Rightarrow> u32 \<Rightarrow> op_state \<Rightarrow> op_state option" where
  "op_upd_cache fd inode_id s =
     (case map_of (op_st s) inode_id of
        None \<Rightarrow> Some s
      | Some a \<Rightarrow> do {
          ic \<leftarrow> op_ics s a;
          f \<leftarrow> op_fds s fd;
          Some (set_fd fd (f\<lparr>fd_listed := True\<rparr>) (set_ic a (ic\<lparr>ic_vec := fd # ic_vec ic\<rparr>) s))
        })"

definition op_rel_cache :: "u32 \<Rightarrow> op_state \<Rightarrow> (int \<times> op_state) option" where
  "op_rel_cache inode_id s =
     (case map_of (op_st s) inode_id of
        None \<Rightarrow> Some (0, s)
      | Some a \<Rightarrow> do {
          ic \<leftarrow> op_ics s a;
          let s = set_ic a (ic\<lparr>ic_cnts := ic_cnts ic - 1\<rparr>) s;
          if ic_cnts ic - 1 = 0 then do {
            (ret, s) \<leftarrow> ic_commit a s;
            Some (ret, s\<lparr>op_ics := (op_ics s)(a := None), op_st := filter (\<lambda>(k, _). k \<noteq> inode_id) (op_st s)\<rparr>)
          }
          else Some (0, s)
        })"

section \<open>Permissions\<close>

record fuse_ctx =
  ctx_uid :: u32
  ctx_gid :: u32

text \<open>One class of permission bits, shifted to the position of the class.\<close>

definition perm_flag :: "u32 \<Rightarrow> u32 \<Rightarrow> u32 \<Rightarrow> u32 \<Rightarrow> bool \<Rightarrow> bool \<Rightarrow> bool \<Rightarrow> bool" where
  "perm_flag mode r w x rd wr ex \<longleftrightarrow>
     (mode AND r \<noteq> 0 \<or> \<not> rd) \<and> (mode AND w \<noteq> 0 \<or> \<not> wr) \<and> (mode AND x \<noteq> 0 \<or> \<not> ex)"

definition check_permission :: "fuse_ctx \<Rightarrow> u32 \<Rightarrow> bool \<Rightarrow> bool \<Rightarrow> bool \<Rightarrow> u32 \<Rightarrow> u32 \<Rightarrow> bool" where
  "check_permission ctx mode rd wr ex gid uid =
     (if ctx_uid ctx = 0 then True
      else if ctx_gid ctx = gid \<and> perm_flag mode 0x20 0x10 0x8 rd wr ex then True
      else if ctx_uid ctx = uid \<and> perm_flag mode 0x100 0x80 0x40 rd wr ex then True
      else perm_flag mode 0x4 0x2 0x1 rd wr ex)"

definition check_user :: "fuse_ctx \<Rightarrow> u32 \<Rightarrow> u32 \<Rightarrow> bool \<Rightarrow> bool \<Rightarrow> bool \<Rightarrow> bool" where
  "check_user ctx mode uid rd wr ex =
     (if ctx_uid ctx = uid \<and> perm_flag mode 0x100 0x80 0x40 rd wr ex then True
      else ctx_uid ctx = 0)"

definition inode_perm :: "fuse_ctx \<Rightarrow> ext2_inode \<Rightarrow> bool \<Rightarrow> bool \<Rightarrow> bool \<Rightarrow> bool" where
  "inode_perm ctx v rd wr ex = check_permission ctx (ucast (i_mode v)) rd wr ex (ucast (i_gid v)) (ucast (i_uid v))"

section \<open>Paths\<close>

text \<open>
  Calls of \<open>FileSystem\<close> with a C string, which converts to a \<open>Path\<close>. \<open>op_lookup\<close> dereferences the
  inode it finds.
\<close>

definition op_path :: "byte list \<Rightarrow> op_state \<Rightarrow> path option" where
  "op_path str s = Path (fs_ndebug (op_fs s)) str"

definition op_lookup ::
  "byte list \<Rightarrow> op_state \<Rightarrow> ((RetCode + inode_ptr \<times> ext2_inode \<times> u32) \<times> op_state) option" where
  "op_lookup str s = do {
     p \<leftarrow> op_path str s;
     (r, fs) \<leftarrow> inode_lookup p (op_fs s);
     case r of
       Inl e \<Rightarrow> Some (Inl e, set_fs fs s)
     | Inr (ip, i, _) \<Rightarrow> do {
         v \<leftarrow> fs_inode ip fs;
         Some (Inr (ip, v, i), set_fs fs s)
       }
   }"

definition op_create ::
  "u32 \<Rightarrow> byte list \<Rightarrow> u32 \<Rightarrow> op_state \<Rightarrow> (RetCode \<times> (inode_ptr \<times> u32) option \<times> op_state) option" where
  "op_create now str mode s = do {
     p \<leftarrow> op_path str s;
     (r, x, fs) \<leftarrow> inode_create now p mode (op_fs s);
     Some (r, x, set_fs fs s)
   }"

definition op_unlink :: "byte list \<Rightarrow> op_state \<Rightarrow> (RetCode \<times> op_state) option" where
  "op_unlink str s = do {
     p \<leftarrow> op_path str s;
     (r, fs) \<leftarrow> inode_unlink p (op_fs s);
     Some (r, set_fs fs s)
   }"

definition op_link :: "byte list \<Rightarrow> byte list \<Rightarrow> op_state \<Rightarrow> (RetCode \<times> op_state) option" where
  "op_link src dst s = do {
     p \<leftarrow> op_path src s;
     q \<leftarrow> op_path dst s;
     (r, fs) \<leftarrow> inode_link p q (op_fs s);
     Some (r, set_fs fs s)
   }"

section \<open>Creating, opening and releasing files\<close>

text \<open>\<open>O_ACCMODE\<close> and the access modes of \<open>fcntl.h\<close>.\<close>

definition O_RDONLY :: u32 where [simp]: "O_RDONLY = 0"
definition O_WRONLY :: u32 where [simp]: "O_WRONLY = 1"
definition O_RDWR :: u32 where [simp]: "O_RDWR = 2"
definition O_ACCMODE :: u32 where [simp]: "O_ACCMODE = 3"
definition O_APPEND :: u32 where [simp]: "O_APPEND = 0x400"

text \<open>A new handle registered with the inode cache at \<open>a\<close>.\<close>

definition new_fd :: "addr \<Rightarrow> u32 \<Rightarrow> op_state \<Rightarrow> (addr \<times> op_state) option" where
  "new_fd a inode_id s = do {
     let fd = op_fdbrk s;
     let s = (set_fd fd (FileStatus_new\<lparr>fd_inode_cache := a\<rparr>) s)\<lparr>op_fdbrk := Suc fd\<rparr>;
     s \<leftarrow> op_upd_cache fd inode_id s;
     f \<leftarrow> op_fds s fd;
     Some (fd, set_fd fd (f\<lparr>cache_update_flag := True\<rparr>) s)
   }"

text \<open>The fields that \<open>fuse_create\<close> and \<open>fuse_mkdir\<close> set.\<close>

definition init_attrs :: "fuse_ctx \<Rightarrow> u32 \<Rightarrow> u32 \<Rightarrow> ext2_inode \<Rightarrow> ext2_inode" where
  "init_attrs ctx now mode v = v\<lparr>i_mode := ucast mode, i_size := 0, i_atime := now, i_ctime := now,
     i_mtime := now, i_flags := 0, i_gid := ucast (ctx_gid ctx), i_uid := ucast (ctx_uid ctx)\<rparr>"

definition fuse_create ::
  "fuse_ctx \<Rightarrow> u32 \<Rightarrow> byte list \<Rightarrow> u32 \<Rightarrow> op_state \<Rightarrow> (int \<times> addr option \<times> op_state) option" where
  "fuse_create ctx now str mode s = do {
     (ret, x, s) \<leftarrow> op_create now str mode s;
     if ret \<noteq> FS_SUCCESS then Some (Code2Errno ret, None, s)
     else do {
       (_, inode_id) \<leftarrow> x;
       (ic, s) \<leftarrow> op_get_cache inode_id s;
       case ic of
         None \<Rightarrow> Some (- EIO, None, s)
       | Some a \<Rightarrow> do {
           (fd, s) \<leftarrow> new_fd a inode_id s;
           s \<leftarrow> upd_inode a (init_attrs ctx now mode) s;
           (_, s) \<leftarrow> ic_commit a s;
           Some (0, Some fd, s)
         }
     }
   }"

definition fuse_open ::
  "fuse_ctx \<Rightarrow> u32 \<Rightarrow> byte list \<Rightarrow> u32 \<Rightarrow> op_state \<Rightarrow> (int \<times> addr option \<times> op_state) option" where
  "fuse_open ctx now str flags s = do {
     (r, s) \<leftarrow> op_lookup str s;
     case r of
       Inl e \<Rightarrow> Some (Code2Errno e, None, s)
     | Inr (_, v, inode_id) \<Rightarrow>
         if \<not> inode_perm ctx v (flags AND (O_RDONLY OR O_RDWR) \<noteq> 0) (flags AND (O_WRONLY OR O_RDWR) \<noteq> 0) False
         then Some (- EACCES, None, s)
         else do {
           (ic, s) \<leftarrow> op_get_cache inode_id s;
           a \<leftarrow> ic;
           (fd, s) \<leftarrow> new_fd a inode_id s;
           s \<leftarrow> upd_inode a (\<lambda>v.
             let v = v\<lparr>i_atime := now, i_ctime := now\<rparr>
             in if flags AND O_ACCMODE \<noteq> O_RDONLY then v\<lparr>i_mtime := now\<rparr> else v) s;
           Some (0, Some fd, s)
         }
   }"

text \<open>\<open>delete fd\<close> unregisters the handle; then the cache of the inode is released.\<close>

definition fuse_release :: "addr option \<Rightarrow> op_state \<Rightarrow> (int \<times> op_state) option" where
  "fuse_release fh s =
     (case fh of
        None \<Rightarrow> Some (- EBADF, s)
      | Some fd \<Rightarrow> do {
          f \<leftarrow> op_fds s fd;
          ic \<leftarrow> op_ics s (fd_inode_cache f);
          defined_if (fd_listed f);
          let s = set_ic (fd_inode_cache f) (ic\<lparr>ic_vec := remove1 fd (ic_vec ic)\<rparr>) s;
          let s = s\<lparr>op_fds := (op_fds s)(fd := None)\<rparr>;
          (_, s) \<leftarrow> op_rel_cache (ic_inode_id ic) s;
          Some (0, s)
        })"

section \<open>Reading and writing\<close>

definition fuse_read ::
  "nat \<Rightarrow> nat \<Rightarrow> u32 \<Rightarrow> addr option \<Rightarrow> op_state \<Rightarrow> (int \<times> byte list \<times> op_state) option" where
  "fuse_read sz off flags fh s =
     (case fh of
        None \<Rightarrow> Some (- EINVAL, [], s)
      | Some fd \<Rightarrow>
          if flags AND O_ACCMODE = O_WRONLY then Some (- EINVAL, [], s)
          else do {
            f \<leftarrow> op_fds s fd;
            ic \<leftarrow> op_ics s (fd_inode_cache f);
            (ret, out, f, fs) \<leftarrow> copy_to_buf (ic_cache ic) off sz f (op_fs s);
            Some (ret, out, set_fs fs (set_fd fd f s))
          })"

definition fuse_write ::
  "byte list \<Rightarrow> nat \<Rightarrow> u32 \<Rightarrow> addr option \<Rightarrow> op_state \<Rightarrow> (int \<times> op_state) option" where
  "fuse_write buf off flags fh s =
     (case fh of
        None \<Rightarrow> Some (- EBADF, s)
      | Some fd \<Rightarrow>
          if flags AND O_ACCMODE = O_RDONLY then Some (- EACCES, s)
          else if buf = [] then Some (0, s)
          else do {
            f \<leftarrow> op_fds s fd;
            ic \<leftarrow> op_ics s (fd_inode_cache f);
            (ret, upd, inode, f, fs) \<leftarrow> fd_write buf off (flags AND O_APPEND \<noteq> 0) (ic_cache ic) f (op_fs s);
            let s = set_ic (fd_inode_cache f) (ic\<lparr>ic_cache := inode\<rparr>) (set_fs fs (set_fd fd f s));
            s \<leftarrow> (if upd then ic_upd_all (fd_inode_cache f) s else Some s);
            Some (ret, s)
          })"

definition fuse_fsync :: "bool \<Rightarrow> addr option \<Rightarrow> op_state \<Rightarrow> (int \<times> op_state) option" where
  "fuse_fsync datasync fh s =
     (case fh of
        None \<Rightarrow> Some (- EBADF, s)
      | Some fd \<Rightarrow> do {
          f \<leftarrow> op_fds s fd;
          ic \<leftarrow> op_ics s (fd_inode_cache f);
          (_, s) \<leftarrow> (if datasync then Some (0, s) else ic_commit (fd_inode_cache f) s);
          fs \<leftarrow> fs_flush_inode (ic_inode_id ic) (op_fs s);
          Some (0, set_fs fs s)
        })"

section \<open>Names\<close>

definition fuse_link :: "byte list \<Rightarrow> byte list \<Rightarrow> op_state \<Rightarrow> (int \<times> op_state) option" where
  "fuse_link src dst s = do {
     (r, s) \<leftarrow> op_link src dst s;
     Some (Code2Errno r, s)
   }"

definition fuse_unlink :: "fuse_ctx \<Rightarrow> byte list \<Rightarrow> op_state \<Rightarrow> (int \<times> op_state) option" where
  "fuse_unlink ctx str s = do {
     (r, s) \<leftarrow> op_lookup str s;
     case r of
       Inl e \<Rightarrow> Some (Code2Errno e, s)
     | Inr (_, _, inode_id) \<Rightarrow> do {
         (ic, s) \<leftarrow> op_get_cache inode_id s;
         a \<leftarrow> ic;
         ic \<leftarrow> op_ics s a;
         if ic_cnts ic \<ge> 2 \<or> \<not> inode_perm ctx (ic_cache ic) False True False then do {
           (_, s) \<leftarrow> op_rel_cache inode_id s;
           Some (- EACCES, s)
         }
         else do {
           (_, s) \<leftarrow> op_rel_cache inode_id s;
           (r, s) \<leftarrow> op_unlink str s;
           Some (Code2Errno r, s)
         }
       }
   }"

text \<open>Steps of \<open>fuse_rename\<close>: a call that ends the operation with its errno value when it fails.\<close>

fun rename_steps :: "(op_state \<Rightarrow> (RetCode \<times> op_state) option) list \<Rightarrow> op_state \<Rightarrow> (int \<times> op_state) option" where
  "rename_steps [] s = Some (0, s)"
| "rename_steps (f # fs) s = do {
     (r, s) \<leftarrow> f s;
     if r \<noteq> FS_SUCCESS then Some (Code2Errno r, s) else rename_steps fs s
   }"

text \<open>The temporary name \<open>"/<a"\<close> of the exchange.\<close>

definition tmp_name :: "byte list" where
  "tmp_name = [47, 60, 97]"

definition fuse_rename :: "fuse_ctx \<Rightarrow> byte list \<Rightarrow> byte list \<Rightarrow> u32 \<Rightarrow> op_state \<Rightarrow> (int \<times> op_state) option" where
  "fuse_rename ctx oldname newname flags s =
     (if flags = 2 then do {
        (r, s) \<leftarrow> op_lookup newname s;
        case r of
          Inl _ \<Rightarrow> Some (- ENOENT, s)
        | Inr (_, v, _) \<Rightarrow>
            if \<not> inode_perm ctx v False True False then Some (- EACCES, s)
            else do {
              (r, s) \<leftarrow> op_lookup oldname s;
              case r of
                Inl _ \<Rightarrow> Some (- ENOENT, s)
              | Inr (_, v, _) \<Rightarrow>
                  if \<not> inode_perm ctx v False True False then Some (- EACCES, s)
                  else rename_steps [op_link oldname tmp_name, op_unlink oldname, op_link newname oldname,
                                     op_link oldname newname, op_unlink tmp_name] s
            }
      }
      else if flags = 1 then do {
        (r, s) \<leftarrow> op_lookup newname s;
        case r of
          Inr _ \<Rightarrow> Some (- EEXIST, s)
        | Inl _ \<Rightarrow> do {
            (r, s) \<leftarrow> op_lookup oldname s;
            case r of
              Inl _ \<Rightarrow> Some (- ENOENT, s)
            | Inr (_, v, _) \<Rightarrow>
                if \<not> inode_perm ctx v False True False then Some (- EACCES, s)
                else rename_steps [op_link oldname newname, op_unlink oldname] s
          }
      }
      else if flags = 0 then do {
        (r, s) \<leftarrow> op_lookup oldname s;
        case r of
          Inl _ \<Rightarrow> Some (- ENOENT, s)
        | Inr (_, v, _) \<Rightarrow>
            if \<not> inode_perm ctx v False True False then Some (- EACCES, s)
            else do {
              (r, s) \<leftarrow> op_lookup newname s;
              case r of
                Inl _ \<Rightarrow> rename_steps [op_link oldname newname, op_unlink oldname] s
              | Inr (_, v, _) \<Rightarrow>
                  if \<not> inode_perm ctx v False True False then Some (- EACCES, s)
                  else rename_steps [op_unlink newname, op_link oldname newname, op_unlink oldname] s
            }
      }
      else Some (- EINVAL, s))"

section \<open>Attributes\<close>

record stat =
  st_ino :: u32
  st_mode :: u16
  st_nlink :: u16
  st_uid :: u16
  st_gid :: u16
  st_size :: u32
  st_blocks :: u32
  st_atime :: u32
  st_mtime :: u32
  st_ctime :: u32

definition stat_of :: "u32 \<Rightarrow> ext2_inode \<Rightarrow> stat" where
  "stat_of i v = \<lparr>st_ino = i, st_mode = i_mode v, st_nlink = i_links_count v, st_uid = i_uid v,
     st_gid = i_gid v, st_size = i_size v, st_blocks = i_blocks v, st_atime = i_atime v,
     st_mtime = i_mtime v, st_ctime = i_ctime v\<rparr>"

definition fuse_getattr :: "byte list \<Rightarrow> op_state \<Rightarrow> (int \<times> stat option \<times> op_state) option" where
  "fuse_getattr str s = do {
     (r, s) \<leftarrow> op_lookup str s;
     case r of
       Inl e \<Rightarrow> Some (Code2Errno e, None, s)
     | Inr (_, _, inode_id) \<Rightarrow> do {
         (ic, s) \<leftarrow> op_get_cache inode_id s;
         case ic of
           None \<Rightarrow> Some (- EIO, None, s)
         | Some a \<Rightarrow> do {
             ic \<leftarrow> op_ics s a;
             let st = stat_of inode_id (ic_cache ic);
             (_, s) \<leftarrow> op_rel_cache inode_id s;
             Some (0, Some st, s)
           }
       }
   }"

text \<open>Changing attributes through the inode cache: get, update, commit, release.\<close>

definition change_attrs ::
  "u32 \<Rightarrow> (ext2_inode \<Rightarrow> ext2_inode) \<Rightarrow> addr \<Rightarrow> op_state \<Rightarrow> (int \<times> op_state) option" where
  "change_attrs inode_id f a s = do {
     s \<leftarrow> upd_inode a f s;
     (_, s) \<leftarrow> ic_commit a s;
     (_, s) \<leftarrow> op_rel_cache inode_id s;
     Some (0, s)
   }"

definition fuse_chmod :: "fuse_ctx \<Rightarrow> byte list \<Rightarrow> u32 \<Rightarrow> op_state \<Rightarrow> (int \<times> op_state) option" where
  "fuse_chmod ctx str mode s = do {
     (r, s) \<leftarrow> op_lookup str s;
     case r of
       Inl e \<Rightarrow> Some (Code2Errno e, s)
     | Inr (_, v, inode_id) \<Rightarrow>
         if \<not> inode_perm ctx v True True False then Some (- EACCES, s)
         else do {
           (ic, s) \<leftarrow> op_get_cache inode_id s;
           case ic of
             None \<Rightarrow> Some (- EIO, s)
           | Some a \<Rightarrow> change_attrs inode_id (\<lambda>v. v\<lparr>i_mode := ucast mode\<rparr>) a s
         }
   }"

definition fuse_chown :: "byte list \<Rightarrow> u32 \<Rightarrow> u32 \<Rightarrow> op_state \<Rightarrow> (int \<times> op_state) option" where
  "fuse_chown str user grp s = do {
     (r, s) \<leftarrow> op_lookup str s;
     case r of
       Inl e \<Rightarrow> Some (Code2Errno e, s)
     | Inr (_, _, inode_id) \<Rightarrow> do {
         (ic, s) \<leftarrow> op_get_cache inode_id s;
         a \<leftarrow> ic;
         change_attrs inode_id (\<lambda>v. v\<lparr>i_uid := ucast user, i_gid := ucast grp\<rparr>) a s
       }
   }"

text \<open>\<open>tv\<close> holds the seconds of the two times, or nothing for a null pointer.\<close>

definition fuse_utimens ::
  "fuse_ctx \<Rightarrow> u32 \<Rightarrow> byte list \<Rightarrow> (u32 \<times> u32) option \<Rightarrow> op_state \<Rightarrow> (int \<times> op_state) option" where
  "fuse_utimens ctx now str tv s = do {
     (r, s) \<leftarrow> op_lookup str s;
     case r of
       Inl e \<Rightarrow> Some (Code2Errno e, s)
     | Inr (_, v, inode_id) \<Rightarrow>
         if \<not> check_user ctx (ucast (i_mode v)) (ucast (i_uid v)) False True False then Some (- EACCES, s)
         else do {
           (ic, s) \<leftarrow> op_get_cache inode_id s;
           a \<leftarrow> ic;
           let (a_time, m_time) = (case tv of
               None \<Rightarrow> (now, now)
             | Some (x, y) \<Rightarrow> if x = 0 then (now, now) else (x, y));
           change_attrs inode_id (\<lambda>v. v\<lparr>i_atime := a_time, i_mtime := m_time\<rparr>) a s
         }
   }"

definition fuse_access :: "fuse_ctx \<Rightarrow> byte list \<Rightarrow> u32 \<Rightarrow> op_state \<Rightarrow> (int \<times> op_state) option" where
  "fuse_access ctx str mode s = do {
     (r, s) \<leftarrow> op_lookup str s;
     case r of
       Inl e \<Rightarrow> Some (Code2Errno e, s)
     | Inr (_, v, _) \<Rightarrow>
         if mode = 0 then Some (0, s)
         else if \<not> inode_perm ctx v (mode AND 4 \<noteq> 0) (mode AND 2 \<noteq> 0) (mode AND 1 \<noteq> 0) then Some (- EACCES, s)
         else Some (0, s)
   }"

section \<open>Directories\<close>

text \<open>The names handed to the filler for one block, as C strings.\<close>

fun readdir_entries :: "addr \<Rightarrow> nat list \<Rightarrow> byte list list \<Rightarrow> fs \<Rightarrow> byte list list option" where
  "readdir_entries blk [] acc fs = Some acc"
| "readdir_entries blk (p # ps) acc fs = do {
     d \<leftarrow> block_get blk (fs_store fs);
     if de_name_len d p \<noteq> 0 then do {
       defined_if (p + sizeof_dir_entry + de_name_len d p \<le> BLOCK_SIZE);
       readdir_entries blk ps (acc @ [takeWhile (\<lambda>c. c \<noteq> 0) (de_name d p)]) fs
     }
     else readdir_entries blk ps acc fs
   }"

definition fuse_readdir :: "fuse_ctx \<Rightarrow> byte list \<Rightarrow> op_state \<Rightarrow> (int \<times> byte list list \<times> op_state) option" where
  "fuse_readdir ctx str s = do {
     (r, s) \<leftarrow> op_lookup str s;
     case r of
       Inl _ \<Rightarrow> Some (- ENOENT, [], s)
     | Inr (_, v, _) \<Rightarrow>
         if \<not> S_ISDIR (i_mode v) then Some (- ENOTDIR, [], s)
         else if \<not> inode_perm ctx v True False False then Some (- EACCES, [], s)
         else do {
           (names, fs) \<leftarrow> visit_inode_blocks (\<lambda>_ blk acc fs. do {
               db \<leftarrow> DentryBlock_new blk (fs_store fs);
               acc \<leftarrow> readdir_entries blk (db_dentries db) acc fs;
               Some (False, acc, fs)
             }) v [[46], [46, 46]] (op_fs s);
           Some (0, names, set_fs fs s)
         }
   }"

definition fuse_mkdir :: "fuse_ctx \<Rightarrow> u32 \<Rightarrow> byte list \<Rightarrow> u32 \<Rightarrow> op_state \<Rightarrow> (int \<times> op_state) option" where
  "fuse_mkdir ctx now str mode s = do {
     let mode = mode OR 0x4000;
     (ret, x, s) \<leftarrow> op_create now str mode s;
     if ret \<noteq> FS_SUCCESS then Some (Code2Errno ret, s)
     else do {
       (ip, i) \<leftarrow> x;
       v \<leftarrow> fs_inode ip (op_fs s);
       if \<not> inode_perm ctx v True True False then Some (- EACCES, s)
       else do {
         (ic, s) \<leftarrow> op_get_cache i s;
         case ic of
           None \<Rightarrow> Some (- EIO, s)
         | Some a \<Rightarrow> change_attrs i (init_attrs ctx now mode) a s
       }
     }
   }"

text \<open>The visitor of \<open>fuse_rmdir\<close>: \<open>result\<close> becomes false at the first entry that has a name.\<close>

fun empty_entries :: "addr \<Rightarrow> nat list \<Rightarrow> fs \<Rightarrow> bool option" where
  "empty_entries blk [] fs = Some True"
| "empty_entries blk (p # ps) fs = do {
     d \<leftarrow> block_get blk (fs_store fs);
     if de_name_len d p \<noteq> 0 then Some False else empty_entries blk ps fs
   }"

definition fuse_rmdir :: "fuse_ctx \<Rightarrow> byte list \<Rightarrow> op_state \<Rightarrow> (int \<times> op_state) option" where
  "fuse_rmdir ctx str s = do {
     (r, s) \<leftarrow> op_lookup str s;
     case r of
       Inl _ \<Rightarrow> Some (- ENOENT, s)
     | Inr (_, v, _) \<Rightarrow>
         if \<not> S_ISDIR (i_mode v) then Some (- ENOTDIR, s)
         else if \<not> inode_perm ctx v True True False then Some (- EACCES, s)
         else do {
           (result, fs) \<leftarrow> visit_inode_blocks (\<lambda>_ blk result fs. do {
               db \<leftarrow> DentryBlock_new blk (fs_store fs);
               e \<leftarrow> empty_entries blk (db_dentries db) fs;
               Some (if e then (False, result, fs) else (True, False, fs))
             }) v True (op_fs s);
           let s = set_fs fs s;
           if \<not> result then Some (- ENOTEMPTY, s)
           else do {
             (r, s) \<leftarrow> op_unlink str s;
             Some (Code2Errno r, s)
           }
         }
   }"

section \<open>Symbolic links\<close>

text \<open>The array \<open>i_block\<close> as the bytes a cast to \<open>char *\<close> shows.\<close>

definition i_block_bytes :: "ext2_inode \<Rightarrow> bytes" where
  "i_block_bytes v = clip 60 (array_bytes 4 put_u32 (i_block v))"

definition set_i_block_bytes :: "byte list \<Rightarrow> ext2_inode \<Rightarrow> ext2_inode" where
  "set_i_block_bytes bs v =
     (let d = put_bytes (i_block_bytes v) 0 bs
      in v\<lparr>i_block := (\<lambda>k. if k < EXT2_N_BLOCKS then get_u32 d (k * 4) else i_block v k)\<rparr>)"

definition fuse_symlink :: "u32 \<Rightarrow> byte list \<Rightarrow> byte list \<Rightarrow> op_state \<Rightarrow> (int \<times> op_state) option" where
  "fuse_symlink now src dst s = do {
     (r, s) \<leftarrow> op_lookup src s;
     case r of
       Inl e \<Rightarrow> Some (Code2Errno e, s)
     | Inr _ \<Rightarrow> do {
         (ret, x, s) \<leftarrow> op_create now dst 0xA000 s;
         if ret \<noteq> FS_SUCCESS then Some (Code2Errno ret, s)
         else do {
           (ip, _) \<leftarrow> x;
           if length src \<le> 60 then do {
             v \<leftarrow> fs_inode ip (op_fs s);
             fs \<leftarrow> fs_put_inode ip (set_i_block_bytes src v) (op_fs s);
             Some (0, set_fs fs s)
           }
           else do {
             (b, fs) \<leftarrow> alloc_block_at ip (op_fs s);
             case b of
               None \<Rightarrow> Some (Code2Errno FS_ALLOC_ERR, set_fs fs s)
             | Some (blk, index) \<Rightarrow> do {
                 fs \<leftarrow> write_block blk index src fs;
                 Some (0, set_fs fs s)
               }
           }
         }
       }
   }"

text \<open>\<open>strlen\<close> over a buffer of \<open>n\<close> bytes; it has to find a null byte inside.\<close>

definition strlen_in :: "nat \<Rightarrow> bytes \<Rightarrow> nat option" where
  "strlen_in n d = do {
     let k = length (takeWhile (\<lambda>c. c \<noteq> 0) (get_bytes d 0 n));
     defined_if (k < n);
     Some k
   }"

definition fuse_readlink :: "byte list \<Rightarrow> nat \<Rightarrow> op_state \<Rightarrow> (int \<times> byte list \<times> op_state) option" where
  "fuse_readlink str sz s = do {
     (r, s) \<leftarrow> op_lookup str s;
     case r of
       Inl e \<Rightarrow> Some (Code2Errno e, [], s)
     | Inr (_, v, _) \<Rightarrow>
         if i_blocks v = 0 then do {
           n \<leftarrow> strlen_in 60 (i_block_bytes v);
           Some (0, get_bytes (i_block_bytes v) 0 (min sz n), s)
         }
         else do {
           (b, fs) \<leftarrow> get_block_ptr (i_block v 0) (op_fs s);
           case b of
             None \<Rightarrow> Some (Code2Errno FS_NOT_FOUND, [], set_fs fs s)
           | Some blk \<Rightarrow> do {
               d \<leftarrow> block_get blk (fs_store fs);
               n \<leftarrow> strlen_in BLOCK_SIZE d;
               Some (0, get_bytes d 0 (min sz n), set_fs fs s)
             }
         }
   }"

section \<open>Mounting and unmounting, and the operations that do nothing\<close>

definition fuse_init :: "bool \<Rightarrow> u32 \<Rightarrow> disk \<Rightarrow> op_state option" where
  "fuse_init nd now d = do {
     fs \<leftarrow> FileSystem_new nd now d;
     Some \<lparr>op_fs = fs, op_st = [], op_ics = (\<lambda>_. None), op_icbrk = 0, op_fds = (\<lambda>_. None), op_fdbrk = 0\<rparr>
   }"

definition fuse_destroy :: "op_state \<Rightarrow> disk option" where
  "fuse_destroy s = FileSystem_destroy (op_fs s)"

definition fuse_truncate :: "byte list \<Rightarrow> nat \<Rightarrow> op_state \<Rightarrow> int \<times> op_state" where
  "fuse_truncate str off s = (0, s)"

definition fuse_flush :: "byte list \<Rightarrow> op_state \<Rightarrow> int \<times> op_state" where
  "fuse_flush str s = (0, s)"

end
