(* ===== verification/Open_Files.thy ===== *)
theory Open_Files
  imports Fuse_Ops
begin

text \<open>
  The invariant of \<open>OpManager\<close>: every cached inode is counted once for each handle on its list and for
  each reference a handler holds, every handle is on the list of its inode cache, and nothing is
  cached without a reference. The state of the file system does not matter to it.
\<close>

section \<open>The invariant\<close>

text \<open>\<open>X\<close> gives the references that the running handler holds.\<close>

definition handles_ok :: "addr \<Rightarrow> op_state \<Rightarrow> addr list \<Rightarrow> bool" where
  "handles_ok a s v \<longleftrightarrow> distinct v \<and> (\<forall>fd \<in> set v. \<exists>f. op_fds s fd = Some f \<and> fd_inode_cache f = a \<and> fd_listed f)"

definition op_inv :: "(u32 \<Rightarrow> nat) \<Rightarrow> op_state \<Rightarrow> bool" where
  "op_inv X s \<longleftrightarrow> omap_ok (op_st s) \<and> finite (dom (op_fds s)) \<and>
     (\<forall>i a. map_of (op_st s) i = Some a \<longrightarrow> (\<exists>ic. op_ics s a = Some ic \<and> ic_inode_id ic = i \<and>
        unat (ic_cnts ic) = length (ic_vec ic) + X i \<and> ic_cnts ic \<noteq> 0 \<and> handles_ok a s (ic_vec ic))) \<and>
     (\<forall>a ic. op_ics s a = Some ic \<longrightarrow> map_of (op_st s) (ic_inode_id ic) = Some a \<and> a < op_icbrk s) \<and>
     (\<forall>fd f. op_fds s fd = Some f \<longrightarrow> fd < op_fdbrk s \<and> (\<exists>ic. op_ics s (fd_inode_cache f) = Some ic \<and> fd \<in> set (ic_vec ic))) \<and>
     (\<forall>i. map_of (op_st s) i = None \<longrightarrow> X i = 0)"

definition op_ok :: "op_state \<Rightarrow> bool" where
  "op_ok s \<longleftrightarrow> op_inv (\<lambda>_. 0) s"

text \<open>Room for more references: counters have 32 bits.\<close>

definition few_handles :: "op_state \<Rightarrow> bool" where
  "few_handles s \<longleftrightarrow> card (dom (op_fds s)) + 2 < 2 ^ 32"

lemma op_invI:
  assumes "omap_ok (op_st s)" "finite (dom (op_fds s))"
    "\<And>i a. map_of (op_st s) i = Some a \<Longrightarrow> \<exists>ic. op_ics s a = Some ic \<and> ic_inode_id ic = i \<and>
        unat (ic_cnts ic) = length (ic_vec ic) + X i \<and> ic_cnts ic \<noteq> 0 \<and> handles_ok a s (ic_vec ic)"
    "\<And>a ic. op_ics s a = Some ic \<Longrightarrow> map_of (op_st s) (ic_inode_id ic) = Some a \<and> a < op_icbrk s"
    "\<And>fd f. op_fds s fd = Some f \<Longrightarrow> fd < op_fdbrk s \<and> (\<exists>ic. op_ics s (fd_inode_cache f) = Some ic \<and> fd \<in> set (ic_vec ic))"
    "\<And>i. map_of (op_st s) i = None \<Longrightarrow> X i = 0"
  shows "op_inv X s"
  using assms unfolding op_inv_def by blast

lemma op_inv_cache:
  assumes "op_inv X s" "map_of (op_st s) i = Some a"
  obtains ic where "op_ics s a = Some ic" "ic_inode_id ic = i" "unat (ic_cnts ic) = length (ic_vec ic) + X i" "ic_cnts ic \<noteq> 0" "handles_ok a s (ic_vec ic)"
  using assms unfolding op_inv_def by blast

lemma op_inv_id: "op_inv X s \<Longrightarrow> map_of (op_st s) i = Some a \<Longrightarrow> op_ics s a = Some ic \<Longrightarrow> ic_inode_id ic = i"
  unfolding op_inv_def by fastforce

lemma op_inv_ic: "op_inv X s \<Longrightarrow> op_ics s a = Some ic \<Longrightarrow> map_of (op_st s) (ic_inode_id ic) = Some a \<and> a < op_icbrk s"
  unfolding op_inv_def by blast

lemma op_inv_fd:
  assumes "op_inv X s" "op_fds s fd = Some f"
  obtains ic where "op_ics s (fd_inode_cache f) = Some ic" "fd \<in> set (ic_vec ic)" "fd < op_fdbrk s"
  using assms unfolding op_inv_def by blast

lemma op_inv_vec:
  assumes i: "op_inv X s" and a: "op_ics s a = Some ic"
  shows "handles_ok a s (ic_vec ic)" "unat (ic_cnts ic) = length (ic_vec ic) + X (ic_inode_id ic)" "ic_cnts ic \<noteq> 0"
proof -
  have "map_of (op_st s) (ic_inode_id ic) = Some a" using op_inv_ic [OF i a] by blast
  from op_inv_cache [OF i this] a
  show "handles_ok a s (ic_vec ic)" "unat (ic_cnts ic) = length (ic_vec ic) + X (ic_inode_id ic)" "ic_cnts ic \<noteq> 0" by auto
qed

lemma vec_bound:
  assumes "op_inv X s" "op_ics s a = Some ic"
  shows "length (ic_vec ic) \<le> card (dom (op_fds s))"
proof -
  have "distinct (ic_vec ic)" "set (ic_vec ic) \<subseteq> dom (op_fds s)" using op_inv_vec(1) [OF assms] by (auto simp: handles_ok_def)
  moreover have "finite (dom (op_fds s))" using assms(1) by (simp add: op_inv_def)
  ultimately show ?thesis by (metis card_mono distinct_card)
qed

section \<open>The operations\<close>

lemma set_fs_simps [simp]:
  "op_st (set_fs fs s) = op_st s" "op_ics (set_fs fs s) = op_ics s" "op_icbrk (set_fs fs s) = op_icbrk s"
  "op_fds (set_fs fs s) = op_fds s" "op_fdbrk (set_fs fs s) = op_fdbrk s" "op_fs (set_fs fs s) = fs"
  by (simp_all add: set_fs_def)

lemma op_inv_fs [simp]: "op_inv X (set_fs fs s) = op_inv X s" "few_handles (set_fs fs s) = few_handles s"
  by (simp_all add: op_inv_def few_handles_def handles_ok_def)

lemma op_inv_set_fd:
  assumes i: "op_inv X s" and f: "op_fds s fd = Some f" "fd_inode_cache f' = fd_inode_cache f" "fd_listed f' = fd_listed f"
  shows "op_inv X (set_fd fd f' s)" "few_handles (set_fd fd f' s) = few_handles s"
proof -
  have d: "dom ((op_fds s)(fd \<mapsto> f')) = dom (op_fds s)" using f(1) by auto
  then show "few_handles (set_fd fd f' s) = few_handles s" by (simp add: few_handles_def set_fd_def)
  have "handles_ok a (set_fd fd f' s) v" if "handles_ok a s v" for a v
    using that f by (auto simp: handles_ok_def set_fd_def)
  moreover have "(\<exists>ic. op_ics s (fd_inode_cache g) = Some ic \<and> b \<in> set (ic_vec ic)) \<and> b < op_fdbrk s"
    if "((op_fds s)(fd \<mapsto> f')) b = Some g" for b g
    using that i f by (auto simp: op_inv_def split: if_splits)
  ultimately show "op_inv X (set_fd fd f' s)" using i d unfolding op_inv_def by (simp add: set_fd_def) blast
qed

lemma op_inv_set_cache:
  assumes i: "op_inv X s" and a: "op_ics s a = Some ic"
  shows "op_inv X (set_ic a (ic\<lparr>ic_cache := v\<rparr>) s)" "few_handles (set_ic a (ic\<lparr>ic_cache := v\<rparr>) s) = few_handles s"
proof -
  show "few_handles (set_ic a (ic\<lparr>ic_cache := v\<rparr>) s) = few_handles s" by (simp add: few_handles_def set_ic_def)
  have h: "handles_ok b (set_ic a (ic\<lparr>ic_cache := v\<rparr>) s) w = handles_ok b s w" for b w by (simp add: handles_ok_def set_ic_def)
  have "\<exists>jc. ((op_ics s)(a \<mapsto> ic\<lparr>ic_cache := v\<rparr>)) b = Some jc \<and> ic_inode_id jc = j \<and> unat (ic_cnts jc) = length (ic_vec jc) + X j \<and>
      ic_cnts jc \<noteq> 0 \<and> handles_ok b s (ic_vec jc)" if "map_of (op_st s) j = Some b" for j b
    by (rule op_inv_cache [OF i that]) (use a in auto)
  moreover have "map_of (op_st s) (ic_inode_id jc) = Some b \<and> b < op_icbrk s" if "((op_ics s)(a \<mapsto> ic\<lparr>ic_cache := v\<rparr>)) b = Some jc" for b jc
    using that op_inv_ic [OF i] a by (auto split: if_splits)
  moreover have "\<exists>jc. ((op_ics s)(a \<mapsto> ic\<lparr>ic_cache := v\<rparr>)) (fd_inode_cache f) = Some jc \<and> fd \<in> set (ic_vec jc)" if "op_fds s fd = Some f" for fd f
    by (rule op_inv_fd [OF i that]) (use a in auto)
  ultimately show "op_inv X (set_ic a (ic\<lparr>ic_cache := v\<rparr>) s)" using i unfolding op_inv_def h by (simp add: set_ic_def)
qed

lemma upd_inode_inv:
  assumes "op_inv X s" "upd_inode a f s = Some s'"
  shows "op_inv X s' \<and> few_handles s' = few_handles s"
  using assms op_inv_set_cache by (auto simp: upd_inode_def split: bind_splits)

lemma ic_commit_inv:
  assumes "op_inv X s" "ic_commit a s = Some (r, s')"
  shows "op_inv X s' \<and> few_handles s' = few_handles s \<and> op_st s' = op_st s \<and> op_ics s' = op_ics s \<and> op_fds s' = op_fds s"
  using assms by (auto simp: ic_commit_def split: bind_splits option.splits)

lemma flag_all_inv: "op_inv X s \<Longrightarrow> flag_all as s = Some s' \<Longrightarrow> op_inv X s' \<and> few_handles s' = few_handles s"
proof (induction as s rule: flag_all.induct)
  case (2 a as s)
  obtain f where f: "op_fds s a = Some f" "flag_all as (set_fd a (f\<lparr>cache_update_flag := True\<rparr>) s) = Some s'"
    using 2(3) by (auto split: bind_splits)
  have "op_inv X (set_fd a (f\<lparr>cache_update_flag := True\<rparr>) s)" "few_handles (set_fd a (f\<lparr>cache_update_flag := True\<rparr>) s) = few_handles s"
    using op_inv_set_fd [OF 2(2) f(1), of "f\<lparr>cache_update_flag := True\<rparr>"] by simp_all
  then show ?case using 2(1) [OF f(1)] f(2) by simp
qed simp

lemma ic_upd_all_inv: "op_inv X s \<Longrightarrow> ic_upd_all a s = Some s' \<Longrightarrow> op_inv X s' \<and> few_handles s' = few_handles s"
  using flag_all_inv by (auto simp: ic_upd_all_def split: bind_splits)

text \<open>A reference is taken.\<close>

lemma op_inv_count:
  assumes i: "op_inv X s" and a: "map_of (op_st s) k = Some a" "op_ics s a = Some ic"
    and c: "unat c = length (ic_vec ic) + n" "c \<noteq> 0"
  shows "op_inv (X(k := n)) (set_ic a (ic\<lparr>ic_cnts := c\<rparr>) s)"
proof -
  have id: "ic_inode_id ic = k" by (rule op_inv_id [OF i a])
  let ?s = "set_ic a (ic\<lparr>ic_cnts := c\<rparr>) s"
  have h: "handles_ok b ?s w = handles_ok b s w" for b w by (simp add: handles_ok_def set_ic_def)
  show ?thesis
  proof (rule op_invI)
    show "omap_ok (op_st ?s)" "finite (dom (op_fds ?s))" using i by (simp_all add: op_inv_def set_ic_def)
    show "\<exists>jc. op_ics ?s b = Some jc \<and> ic_inode_id jc = j \<and> unat (ic_cnts jc) = length (ic_vec jc) + (X(k := n)) j \<and> ic_cnts jc \<noteq> 0 \<and> handles_ok b ?s (ic_vec jc)"
      if j: "map_of (op_st ?s) j = Some b" for j b
    proof (cases "b = a")
      case True
      have j': "map_of (op_st s) j = Some a" using j True by (simp add: set_ic_def)
      have "j = k" using op_inv_id [OF i j' a(2)] id by simp
      then show ?thesis using True c id op_inv_vec(1) [OF i a(2)] h by (simp add: set_ic_def)
    next
      case False
      have j': "map_of (op_st s) j = Some b" using j by (simp add: set_ic_def)
      then have "j \<noteq> k" using False a(1) by auto
      with op_inv_cache [OF i j'] show ?thesis by (rule) (use False h in \<open>simp_all add: set_ic_def\<close>)
    qed
    show "map_of (op_st ?s) (ic_inode_id jc) = Some b \<and> b < op_icbrk ?s" if "op_ics ?s b = Some jc" for b jc
      using that op_inv_ic [OF i] a(2) by (auto simp: set_ic_def split: if_splits)
    show "fd < op_fdbrk ?s \<and> (\<exists>jc. op_ics ?s (fd_inode_cache f) = Some jc \<and> fd \<in> set (ic_vec jc))" if "op_fds ?s fd = Some f" for fd f
    proof -
      have "op_fds s fd = Some f" using that by (simp add: set_ic_def)
      from op_inv_fd [OF i this] show ?thesis by (rule) (use a(2) in \<open>auto simp: set_ic_def\<close>)
    qed
    show "(X(k := n)) j = 0" if "map_of (op_st ?s) j = None" for j using that i a(1) by (auto simp: op_inv_def set_ic_def)
  qed
qed

lemma op_inv_new:
  assumes i: "op_inv X s" and k: "map_of (op_st s) k = None"
  shows "op_inv (X(k := 1)) (s\<lparr>op_ics := (op_ics s)(op_icbrk s \<mapsto> \<lparr>ic_inode_id = k, ic_cnts = 1, ic_cache = v, ic_vec = []\<rparr>),
    op_icbrk := Suc (op_icbrk s), op_st := omap_put k (op_icbrk s) (op_st s)\<rparr>)" (is "op_inv _ ?s")
proof -
  have h: "handles_ok b ?s w = handles_ok b s w" for b w by (simp add: handles_ok_def)
  have fresh: "op_ics s (op_icbrk s) = None" using op_inv_ic [OF i, of "op_icbrk s"] by (cases "op_ics s (op_icbrk s)") auto
  show ?thesis
  proof (rule op_invI)
    show "omap_ok (op_st ?s)" "finite (dom (op_fds ?s))" using i by (simp_all add: op_inv_def omap_ok_put)
    show "\<exists>jc. op_ics ?s b = Some jc \<and> ic_inode_id jc = j \<and> unat (ic_cnts jc) = length (ic_vec jc) + (X(k := 1)) j \<and> ic_cnts jc \<noteq> 0 \<and> handles_ok b ?s (ic_vec jc)"
      if j: "map_of (op_st ?s) j = Some b" for j b
    proof (cases "j = k")
      case True
      then show ?thesis using j by (simp add: handles_ok_def)
    next
      case False
      then have j': "map_of (op_st s) j = Some b" using j by simp
      from op_inv_cache [OF i j'] show ?thesis by (rule) (use False h fresh in auto)
    qed
    show "map_of (op_st ?s) (ic_inode_id jc) = Some b \<and> b < op_icbrk ?s" if b: "op_ics ?s b = Some jc" for b jc
    proof (cases "b = op_icbrk s")
      case True
      then show ?thesis using b by auto
    next
      case False
      then have b': "op_ics s b = Some jc" using b by simp
      then have "ic_inode_id jc \<noteq> k" using op_inv_ic [OF i b'] k by auto
      then show ?thesis using op_inv_ic [OF i b'] by simp
    qed
    show "fd < op_fdbrk ?s \<and> (\<exists>jc. op_ics ?s (fd_inode_cache f) = Some jc \<and> fd \<in> set (ic_vec jc))" if f: "op_fds ?s fd = Some f" for fd f
    proof -
      have "op_fds s fd = Some f" using f by simp
      from op_inv_fd [OF i this] show ?thesis by (rule) (use fresh in auto)
    qed
    show "(X(k := 1)) j = 0" if "map_of (op_st ?s) j = None" for j using that i by (auto simp: op_inv_def split: if_splits)
  qed
qed

lemma op_get_cache_inv:
  assumes i: "op_inv X s" "few_handles s" "X k \<le> 1" and g: "op_get_cache k s = Some (r, s')"
  shows "few_handles s' \<and> op_fds s' = op_fds s \<and> (case r of None \<Rightarrow> op_inv X s' | Some a \<Rightarrow> op_inv (X(k := Suc (X k))) s' \<and> map_of (op_st s') k = Some a)"
proof (cases "map_of (op_st s) k")
  case None
  obtain q fs where q: "get_inode k (op_fs s) = Some (q, fs)" using g None by (auto simp: op_get_cache_def split: bind_splits)
  show ?thesis
  proof (cases q)
    case None
    then have "r = None" "s' = set_fs fs s" using g \<open>map_of (op_st s) k = None\<close> q by (auto simp: op_get_cache_def)
    then show ?thesis using i by simp
  next
    case (Some ip)
    obtain v where v: "fs_inode ip fs = Some v" using g None q Some by (auto simp: op_get_cache_def split: bind_splits)
    have x: "X k = 0" using i(1) None by (simp add: op_inv_def)
    have s': "r = Some (op_icbrk s)" "s' = (set_fs fs s)\<lparr>op_ics := (op_ics s)(op_icbrk s \<mapsto> \<lparr>ic_inode_id = k, ic_cnts = 1, ic_cache = v, ic_vec = []\<rparr>),
        op_icbrk := Suc (op_icbrk s), op_st := omap_put k (op_icbrk s) (op_st s)\<rparr>"
      using g None q Some v by (auto simp: op_get_cache_def set_ic_def set_fs_def Let_def)
    have "op_inv X (set_fs fs s)" using i(1) by simp
    from op_inv_new [OF this, of k v] show ?thesis using None x i(2) unfolding s' by (simp add: few_handles_def)
  qed
next
  case (Some a)
  from op_inv_cache [OF i(1) Some] obtain ic where ic: "op_ics s a = Some ic" "unat (ic_cnts ic) = length (ic_vec ic) + X k" by metis
  have s': "r = Some a" "s' = set_ic a (ic\<lparr>ic_cnts := ic_cnts ic + 1\<rparr>) s" using g Some ic(1) by (auto simp: op_get_cache_def)
  have b: "unat (ic_cnts ic) + 1 < 2 ^ 32" using ic(2) i(2,3) vec_bound [OF i(1) ic(1)] unfolding few_handles_def by linarith
  then have c: "unat (ic_cnts ic + 1) = length (ic_vec ic) + Suc (X k)" using ic(2) unat_add_lem [of "ic_cnts ic" 1] by simp
  then have "ic_cnts ic + 1 \<noteq> 0" by auto
  from op_inv_count [OF i(1) Some ic(1) c this] show ?thesis using i(2) Some unfolding s' by (simp add: few_handles_def set_ic_def)
qed

text \<open>A reference is given back.\<close>

lemma map_of_drop: "map_of (filter (\<lambda>(j, _). j \<noteq> k) m) = (map_of m)(k := None)"
  by (induction m) (auto simp: fun_eq_iff)

lemma omap_ok_filter: "omap_ok m \<Longrightarrow> omap_ok (filter P m)"
  by (simp add: omap_ok_def sorted_wrt_map sorted_wrt_filter)

lemma op_inv_drop:
  assumes i: "op_inv X s" and k: "map_of (op_st s) k = Some a" "op_ics s a = Some ic" "ic_vec ic = []"
  shows "op_inv (X(k := 0)) (s\<lparr>op_ics := (op_ics s)(a := None), op_st := filter (\<lambda>(j, _). j \<noteq> k) (op_st s)\<rparr>)" (is "op_inv _ ?s")
proof (rule op_invI)
  have h: "handles_ok b ?s w = handles_ok b s w" for b w by (simp add: handles_ok_def)
  show "omap_ok (op_st ?s)" "finite (dom (op_fds ?s))" using i by (simp_all add: op_inv_def omap_ok_filter)
  show "\<exists>jc. op_ics ?s b = Some jc \<and> ic_inode_id jc = j \<and> unat (ic_cnts jc) = length (ic_vec jc) + (X(k := 0)) j \<and> ic_cnts jc \<noteq> 0 \<and> handles_ok b ?s (ic_vec jc)"
    if j: "map_of (op_st ?s) j = Some b" for j b
  proof -
    have j': "j \<noteq> k" "map_of (op_st s) j = Some b" using j by (auto simp: map_of_drop split: if_splits)
    then have "b \<noteq> a" using op_inv_id [OF i j'(2)] op_inv_id [OF i k(1,2)] k(2) by auto
    from op_inv_cache [OF i j'(2)] this show ?thesis by (rule) (use j' h in auto)
  qed
  show "map_of (op_st ?s) (ic_inode_id jc) = Some b \<and> b < op_icbrk ?s" if b: "op_ics ?s b = Some jc" for b jc
  proof -
    have b': "b \<noteq> a" "op_ics s b = Some jc" using b by (auto split: if_splits)
    then have "ic_inode_id jc \<noteq> k" using op_inv_ic [OF i b'(2)] k(1) by auto
    then show ?thesis using op_inv_ic [OF i b'(2)] by (simp add: map_of_drop)
  qed
  show "fd < op_fdbrk ?s \<and> (\<exists>jc. op_ics ?s (fd_inode_cache f) = Some jc \<and> fd \<in> set (ic_vec jc))" if f: "op_fds ?s fd = Some f" for fd f
  proof -
    have "op_fds s fd = Some f" using f by simp
    from op_inv_fd [OF i this] show ?thesis by (rule) (use k(2,3) in auto)
  qed
  show "(X(k := 0)) j = 0" if "map_of (op_st ?s) j = None" for j using that i by (auto simp: op_inv_def map_of_drop split: if_splits)
qed

lemma op_rel_cache_inv:
  assumes i: "op_inv X s" "0 < X k" and r: "op_rel_cache k s = Some (e, s')"
  shows "op_inv (X(k := X k - 1)) s' \<and> op_fds s' = op_fds s"
proof -
  obtain a where a: "map_of (op_st s) k = Some a" using i by (cases "map_of (op_st s) k") (auto simp: op_inv_def)
  from op_inv_cache [OF i(1) a] obtain ic where ic: "op_ics s a = Some ic" "unat (ic_cnts ic) = length (ic_vec ic) + X k" "ic_cnts ic \<noteq> 0" by metis
  let ?c = "ic_cnts ic - 1"
  have c: "unat ?c = length (ic_vec ic) + (X k - 1)" using ic(2,3) i(2) by (simp add: unat_minus_one)
  show ?thesis
  proof (cases "?c = 0")
    case True
    then have "unat ?c = 0" by simp
    then have "length (ic_vec ic) = 0" "X k = 1" using c i(2) by linarith+
    then have e: "ic_vec ic = []" "X k = 1" by simp_all
    obtain r1 s1 where c1: "ic_commit a (set_ic a (ic\<lparr>ic_cnts := ?c\<rparr>) s) = Some (r1, s1)"
      "s' = s1\<lparr>op_ics := (op_ics s1)(a := None), op_st := filter (\<lambda>(j, _). j \<noteq> k) (op_st s1)\<rparr>"
      using r a ic(1) True by (auto simp: op_rel_cache_def split: bind_splits)
    obtain fs where s1: "s1 = set_fs fs (set_ic a (ic\<lparr>ic_cnts := ?c\<rparr>) s)"
      using c1(1) by (auto simp: ic_commit_def split: bind_splits option.splits)
    have "s' = set_fs fs (s\<lparr>op_ics := (op_ics s)(a := None), op_st := filter (\<lambda>(j, _). j \<noteq> k) (op_st s)\<rparr>)"
      unfolding c1(2) s1 by (simp add: set_fs_def set_ic_def)
    then show ?thesis using op_inv_drop [OF i(1) a ic(1) e(1)] e(2) by simp
  next
    case False
    then have "s' = set_ic a (ic\<lparr>ic_cnts := ?c\<rparr>) s" using r a ic(1) by (simp add: op_rel_cache_def)
    then show ?thesis using op_inv_count [OF i(1) a ic(1) c False] by (simp add: set_ic_def)
  qed
qed

text \<open>The list of handles changes with the references.\<close>

lemma op_inv_open:
  assumes i: "op_inv X s" "0 < X k" and a: "map_of (op_st s) k = Some a" "op_ics s a = Some ic" and f: "fd_inode_cache f = a" "fd_listed f"
  shows "op_inv (X(k := X k - 1)) (s\<lparr>op_ics := (op_ics s)(a \<mapsto> ic\<lparr>ic_vec := op_fdbrk s # ic_vec ic\<rparr>),
    op_fds := (op_fds s)(op_fdbrk s \<mapsto> f), op_fdbrk := Suc (op_fdbrk s)\<rparr>)" (is "op_inv _ ?s")
proof (rule op_invI)
  have fresh: "op_fds s (op_fdbrk s) = None" using i(1) unfolding op_inv_def by (metis less_irrefl not_Some_eq)
  have h: "handles_ok b ?s w" if "handles_ok b s w" for b w using that fresh by (auto simp: handles_ok_def)
  show "omap_ok (op_st ?s)" "finite (dom (op_fds ?s))" using i by (simp_all add: op_inv_def)
  show "\<exists>jc. op_ics ?s b = Some jc \<and> ic_inode_id jc = j \<and> unat (ic_cnts jc) = length (ic_vec jc) + (X(k := X k - 1)) j \<and> ic_cnts jc \<noteq> 0 \<and> handles_ok b ?s (ic_vec jc)"
    if j: "map_of (op_st ?s) j = Some b" for j b
  proof (cases "b = a")
    case True
    have "j = k" using op_inv_id [OF i(1) _ a(2), of j] op_inv_id [OF i(1) a] j True by simp
    moreover have "handles_ok a ?s (op_fdbrk s # ic_vec ic)"
      using h [OF op_inv_vec(1) [OF i(1) a(2)]] op_inv_vec(1) [OF i(1) a(2)] fresh f by (auto simp: handles_ok_def)
    ultimately show ?thesis using True op_inv_vec(2,3) [OF i(1) a(2)] op_inv_id [OF i(1) a] i(2) by simp
  next
    case False
    then have jk: "j \<noteq> k" "map_of (op_st s) j = Some b" using j a(1) by auto
    show ?thesis by (rule op_inv_cache [OF i(1) jk(2)]) (use False h jk(1) in auto)
  qed
  show "map_of (op_st ?s) (ic_inode_id jc) = Some b \<and> b < op_icbrk ?s" if b: "op_ics ?s b = Some jc" for b jc
    using b op_inv_ic [OF i(1)] a(2) by (auto split: if_splits)
  show "fd < op_fdbrk ?s \<and> (\<exists>jc. op_ics ?s (fd_inode_cache g) = Some jc \<and> fd \<in> set (ic_vec jc))" if g: "op_fds ?s fd = Some g" for fd g
  proof (cases "fd = op_fdbrk s")
    case True
    then show ?thesis using g f by auto
  next
    case False
    then have "op_fds s fd = Some g" using g by simp
    from op_inv_fd [OF i(1) this] show ?thesis by (rule) (use a(2) in auto)
  qed
  show "(X(k := X k - 1)) j = 0" if "map_of (op_st ?s) j = None" for j using that i a(1) by (auto simp: op_inv_def)
qed

lemma op_inv_close:
  assumes i: "op_inv X s" and f: "op_fds s fd = Some f" "op_ics s (fd_inode_cache f) = Some ic"
  shows "op_inv (X(ic_inode_id ic := Suc (X (ic_inode_id ic)))) (s\<lparr>op_ics := (op_ics s)(fd_inode_cache f \<mapsto> ic\<lparr>ic_vec := remove1 fd (ic_vec ic)\<rparr>),
    op_fds := (op_fds s)(fd := None)\<rparr>)" (is "op_inv ?X ?s")
proof (rule op_invI)
  let ?a = "fd_inode_cache f" and ?k = "ic_inode_id ic"
  have vec: "distinct (ic_vec ic)" "fd \<in> set (ic_vec ic)" using op_inv_vec(1) [OF i f(2)] op_inv_fd [OF i f(1)] f(2) by (auto simp: handles_ok_def)
  then have len: "length (ic_vec ic) = Suc (length (remove1 fd (ic_vec ic)))" by (simp add: length_remove1) (metis length_pos_if_in_set Suc_pred)
  have h: "handles_ok b ?s w" if "handles_ok b s w" "fd \<notin> set w" for b w using that by (auto simp: handles_ok_def)
  have own: "b = ?a" if "handles_ok b s w" "fd \<in> set w" for b w using that f(1) by (auto simp: handles_ok_def)
  show "omap_ok (op_st ?s)" "finite (dom (op_fds ?s))" using i by (simp_all add: op_inv_def)
  show "\<exists>jc. op_ics ?s b = Some jc \<and> ic_inode_id jc = j \<and> unat (ic_cnts jc) = length (ic_vec jc) + ?X j \<and> ic_cnts jc \<noteq> 0 \<and> handles_ok b ?s (ic_vec jc)"
    if j: "map_of (op_st ?s) j = Some b" for j b
  proof (cases "b = ?a")
    case True
    then have "?k = j" using op_inv_id [OF i _ f(2), of j] j by simp
    moreover have "handles_ok ?a ?s (remove1 fd (ic_vec ic))" using op_inv_vec(1) [OF i f(2)] vec by (auto simp: handles_ok_def)
    ultimately show ?thesis using True op_inv_vec(2,3) [OF i f(2)] len by simp
  next
    case False
    then have j': "map_of (op_st s) j = Some b" using j by simp
    have "j \<noteq> ?k" using op_inv_ic [OF i f(2)] j' False by auto
    with op_inv_cache [OF i j'] show ?thesis by (rule) (use False h own in auto)
  qed
  show "map_of (op_st ?s) (ic_inode_id jc) = Some b \<and> b < op_icbrk ?s" if b: "op_ics ?s b = Some jc" for b jc
    using b op_inv_ic [OF i] f(2) by (auto split: if_splits)
  show "fd' < op_fdbrk ?s \<and> (\<exists>jc. op_ics ?s (fd_inode_cache g) = Some jc \<and> fd' \<in> set (ic_vec jc))" if g: "op_fds ?s fd' = Some g" for fd' g
  proof -
    have "op_fds s fd' = Some g" "fd' \<noteq> fd" using g by (auto split: if_splits)
    from op_inv_fd [OF i this(1)] this(2) show ?thesis by (rule) (use f(2) in auto)
  qed
  show "?X j = 0" if "map_of (op_st ?s) j = None" for j using that i op_inv_ic [OF i f(2)] by (auto simp: op_inv_def)
qed

lemma new_fd_inv:
  assumes i: "op_inv X s" "0 < X k" and a: "map_of (op_st s) k = Some a" and n: "new_fd a k s = Some (fd, s')"
  shows "op_inv (X(k := X k - 1)) s'"
proof -
  from op_inv_cache [OF i(1) a] obtain ic where ic: "op_ics s a = Some ic" by metis
  let ?f = "FileStatus_new\<lparr>fd_inode_cache := a, fd_listed := True, cache_update_flag := True\<rparr>"
  have "s' = s\<lparr>op_ics := (op_ics s)(a \<mapsto> ic\<lparr>ic_vec := op_fdbrk s # ic_vec ic\<rparr>), op_fds := (op_fds s)(op_fdbrk s \<mapsto> ?f), op_fdbrk := Suc (op_fdbrk s)\<rparr>"
    using n a ic by (auto simp: new_fd_def op_upd_cache_def set_fd_def set_ic_def Let_def FileStatus_new_def)
  then show ?thesis using op_inv_open [OF i a ic, of ?f] by simp
qed

section \<open>Handles keep their file\<close>

definition same_owner :: "file_status \<Rightarrow> file_status \<Rightarrow> bool" where
  "same_owner f f' \<longleftrightarrow> fd_inode_cache f' = fd_inode_cache f \<and> fd_listed f' = fd_listed f"

lemma same_owner_refl [simp]: "same_owner f f"
  by (simp add: same_owner_def)

lemma walk_owner: "walk k offs f fs = Some (e, f', fs') \<Longrightarrow> same_owner f f'"
  by (induction k offs f fs rule: walk.induct) (auto simp: same_owner_def split: bind_splits option.splits)

lemma bf_seek_owner: "bf_seek inode b f fs = Some (e, f', fs') \<Longrightarrow> same_owner f f'"
  by (auto simp: bf_seek_def Let_def from_inode_def same_owner_def simp del: walk.simps split: if_splits dest!: walk_owner)

lemma next_block_owner: "next_block inode f fs = Some (e, f', fs') \<Longrightarrow> same_owner f f'"
  by (auto simp: next_block_def Let_def from_inode_def same_owner_def simp del: walk.simps split: if_splits dest!: walk_owner)

lemma seek_owner: "seek inode b f fs = Some (e, f', fs') \<Longrightarrow> same_owner f f'"
  by (auto simp: seek_def Let_def same_owner_def simp del: walk.simps split: if_splits bind_splits dest!: walk_owner bf_seek_owner)

lemma fd_upd_cache_owner: "fd_upd_cache inode f fs = Some (e, f', fs') \<Longrightarrow> same_owner f f'"
  by (auto simp: fd_upd_cache_def same_owner_def split: if_splits dest!: bf_seek_owner)

lemma same_owner_trans: "same_owner f g \<Longrightarrow> same_owner g h \<Longrightarrow> same_owner f h"
  by (simp add: same_owner_def)

lemma copy_loop_owner: "copy_loop inode isize off sz out f fs = Some (e, out', f', fs') \<Longrightarrow> same_owner f f'"
proof (induction sz arbitrary: off out f fs rule: less_induct)
  case (less sz)
  note eq = less.prems [unfolded copy_loop.simps [of inode isize off sz out f fs]]
  show ?case
  proof (cases "sz = 0 \<or> isize \<le> off")
    case False
    then have lt: "sz - min sz (min (isize - off) 4096) < sz" by auto
    from eq False show ?thesis
      by (auto simp: Let_def same_owner_def split: if_splits bind_splits option.splits dest!: next_block_owner less.IH [OF lt])
  qed (use eq in \<open>auto split: if_splits\<close>)
qed

lemma copy_to_buf_owner: "copy_to_buf inode off sz f fs = Some (e, out, f', fs') \<Longrightarrow> same_owner f f'"
  by (auto simp: copy_to_buf_def Let_def split: if_splits bind_splits option.splits
      dest!: copy_loop_owner seek_owner fd_upd_cache_owner simp: same_owner_def)

lemma over_loop_owner: "over_loop inode isize buf n off sz f fs = Some (e, f', fs') \<Longrightarrow> same_owner f f'"
proof (induction sz arbitrary: n off f fs rule: less_induct)
  case (less sz)
  note eq = less.prems [unfolded over_loop.simps [of inode isize buf n off sz f fs]]
  show ?case
  proof (cases "sz = 0 \<or> isize \<le> off")
    case False
    then have lt: "sz - min sz 4096 < sz" by auto
    from eq False show ?thesis
      by (auto simp: Let_def same_owner_def split: if_splits bind_splits option.splits dest!: next_block_owner less.IH [OF lt])
  qed (use eq in \<open>auto split: if_splits\<close>)
qed

lemma write_over_owner: "write_over buf off inode f fs = Some (e, f', fs') \<Longrightarrow> same_owner f f'"
  by (auto simp: write_over_def Let_def split: if_splits bind_splits option.splits dest!: over_loop_owner seek_owner simp: same_owner_def)

lemma write_loop_owner: "write_loop buf n off sz inode f fs = Some (e, u, inode', f', fs') \<Longrightarrow> same_owner f f'"
proof (induction sz arbitrary: n off f fs inode rule: less_induct)
  case (less sz)
  note eq = less.prems [unfolded write_loop.simps [of buf n off sz inode f fs]]
  show ?case
  proof (cases "sz = 0")
    case True
    then show ?thesis using eq by simp
  next
    case False
    let ?c = "min sz 4096"
    have lt: "sz - ?c < sz" using False by auto
    from eq False show ?thesis
      by (auto simp: Let_def same_owner_def split: if_splits bind_splits option.splits dest!: next_block_owner less.IH [OF lt])
  qed
qed

lemma write_grow_owner: "write_grow buf off inode f fs = Some (e, u, inode', f', fs') \<Longrightarrow> same_owner f f'"
  by (auto simp: write_grow_def Let_def split: if_splits bind_splits option.splits dest!: write_loop_owner seek_owner simp: same_owner_def)

lemma fd_write_owner: "fd_write buf off ap inode f fs = Some (e, u, inode', f', fs') \<Longrightarrow> same_owner f f'"
  by (auto simp: fd_write_def Let_def split: if_splits bind_splits option.splits
      dest!: write_grow_owner write_over_owner fd_upd_cache_owner simp: same_owner_def)

section \<open>References in a handler\<close>

text \<open>
  The interface that the handlers use: a table of counted objects, with the references of the caller in
  the invariant. A handler that takes a reference, works, and gives it back keeps the invariant.
\<close>

locale counted_refs =
  fixes inv :: "('k \<Rightarrow> nat) \<Rightarrow> 's \<Rightarrow> bool" and room :: "'s \<Rightarrow> bool"
    and get :: "'k \<Rightarrow> 's \<Rightarrow> ('a option \<times> 's) option" and rel :: "'k \<Rightarrow> 's \<Rightarrow> (int \<times> 's) option"
  assumes get_fails: "inv X s \<Longrightarrow> room s \<Longrightarrow> X k \<le> 1 \<Longrightarrow> get k s = Some (None, s') \<Longrightarrow> inv X s'"
    and get_counts: "inv X s \<Longrightarrow> room s \<Longrightarrow> X k \<le> 1 \<Longrightarrow> get k s = Some (Some a, s') \<Longrightarrow> inv (X(k := Suc (X k))) s'"
    and rel_counts: "inv X s \<Longrightarrow> 0 < X k \<Longrightarrow> rel k s = Some (e, s') \<Longrightarrow> inv (X(k := X k - 1)) s'"
begin

lemma bracket:
  assumes "inv X s" "room s" "X k \<le> 1" "get k s = Some (Some a, s1)"
    and "\<And>Y. inv Y s1 \<Longrightarrow> inv Y s2" and "rel k s2 = Some (e, s3)"
  shows "inv X s3"
proof -
  have "inv (X(k := Suc (X k))) s2" by (rule assms(5) [OF get_counts [OF assms(1-4)]])
  from rel_counts [OF this _ assms(6)] show ?thesis by simp
qed

end

interpretation opm: counted_refs op_inv few_handles op_get_cache op_rel_cache
proof
  show "op_inv X s'" if "op_inv X s" "few_handles s" "X k \<le> 1" "op_get_cache k s = Some (None, s')" for X s k s'
    using op_get_cache_inv [OF that] by simp
  show "op_inv (X(k := Suc (X k))) s'" if "op_inv X s" "few_handles s" "X k \<le> 1" "op_get_cache k s = Some (Some a, s')" for X s k s' and a :: addr
    using op_get_cache_inv [OF that] by simp
  show "op_inv (X(k := X k - 1)) s'" if "op_inv X s" "0 < X k" "op_rel_cache k s = Some (e, s')" for X s k s' and e :: int
    using op_rel_cache_inv [OF that] by simp
qed

text \<open>Calls of the file system leave the tables alone.\<close>

lemma op_lookup_fs: "op_lookup str s = Some (r, s') \<Longrightarrow> \<exists>fs. s' = set_fs fs s"
  by (auto simp: op_lookup_def split: bind_splits sum.splits) blast+

lemma op_create_fs: "op_create now str mode s = Some (r, x, s') \<Longrightarrow> \<exists>fs. s' = set_fs fs s"
  by (auto simp: op_create_def split: bind_splits)

lemma op_unlink_fs: "op_unlink str s = Some (r, s') \<Longrightarrow> \<exists>fs. s' = set_fs fs s"
  by (auto simp: op_unlink_def split: bind_splits)

lemma op_link_fs: "op_link src dst s = Some (r, s') \<Longrightarrow> \<exists>fs. s' = set_fs fs s"
  by (auto simp: op_link_def split: bind_splits)

lemma set_fs_set_fs [simp]: "set_fs fs (set_fs fs' s) = set_fs fs s"
  by (simp add: set_fs_def)

lemma set_fs_same [simp]: "set_fs (op_fs s) s = s"
  by (simp add: set_fs_def)

lemma rename_steps_fs:
  "\<forall>f \<in> set fs. \<forall>s r s'. f s = Some (r, s') \<longrightarrow> (\<exists>x. s' = set_fs x s) \<Longrightarrow> rename_steps fs s = Some (e, s') \<Longrightarrow> \<exists>x. s' = set_fs x s"
proof (induction fs s rule: rename_steps.induct)
  case (1 s)
  then show ?case using set_fs_same [of s] by (metis rename_steps.simps(1) option.inject prod.inject)
next
  case (2 f fs s)
  obtain r s1 where f: "f s = Some (r, s1)" using 2(3) by (auto split: bind_splits)
  then obtain x where x: "s1 = set_fs x s" using 2(2) by (meson list.set_intros(1))
  show ?case
  proof (cases "r = FS_SUCCESS")
    case True
    then have "\<exists>x. s' = set_fs x s1" using 2(1) [OF f refl] 2(2,3) f by simp
    then show ?thesis using x by auto
  next
    case False
    then show ?thesis using 2(3) f x by auto
  qed
qed

text \<open>Handlers that never take a reference.\<close>

lemma fs_ops_ok:
  "fuse_link src dst s = Some (e, s') \<Longrightarrow> op_ok s \<Longrightarrow> op_ok s'"
  "fuse_access ctx str acc s = Some (e, s') \<Longrightarrow> op_ok s \<Longrightarrow> op_ok s'"
  "fuse_symlink now src dst s = Some (e, s') \<Longrightarrow> op_ok s \<Longrightarrow> op_ok s'"
  "fuse_readlink str sz s = Some (e, bs, s') \<Longrightarrow> op_ok s \<Longrightarrow> op_ok s'"
  "fuse_readdir ctx str s = Some (e, ns, s') \<Longrightarrow> op_ok s \<Longrightarrow> op_ok s'"
  "fuse_rmdir ctx str s = Some (e, s') \<Longrightarrow> op_ok s \<Longrightarrow> op_ok s'"
  unfolding op_ok_def
  by (auto simp: fuse_link_def fuse_access_def fuse_symlink_def fuse_readlink_def fuse_readdir_def fuse_rmdir_def Let_def
      split: bind_splits sum.splits if_splits option.splits dest!: op_lookup_fs op_link_fs op_create_fs op_unlink_fs)

lemma fuse_rename_ok: "fuse_rename ctx old new flags s = Some (e, s') \<Longrightarrow> op_ok s \<Longrightarrow> op_ok s'"
proof -
  assume a: "fuse_rename ctx old new flags s = Some (e, s')" "op_ok s"
  have c: "\<forall>s r s'. op_link x y s = Some (r, s') \<longrightarrow> (\<exists>z. s' = set_fs z s)" "\<forall>s r s'. op_unlink x s = Some (r, s') \<longrightarrow> (\<exists>z. s' = set_fs z s)" for x y
    using op_link_fs op_unlink_fs by blast+
  have st: "op_inv (\<lambda>_. 0) t'" if "rename_steps fs t = Some (r, t')" "\<forall>f \<in> set fs. \<forall>s r s'. f s = Some (r, s') \<longrightarrow> (\<exists>x. s' = set_fs x s)" "op_inv (\<lambda>_. 0) t" for fs t r t'
    using rename_steps_fs [OF that(2,1)] that(3) by auto
  from a show ?thesis
    unfolding op_ok_def fuse_rename_def
    by (auto split: bind_splits sum.splits if_splits simp del: rename_steps.simps dest!: op_lookup_fs elim!: st simp: c)
qed

text \<open>Handlers that take a reference for their own time.\<close>

lemma op_ok_fs [simp]: "op_ok (set_fs fs s) = op_ok s"
  by (simp add: op_ok_def)

lemma op_ok_get:
  assumes "op_ok s" "few_handles s" "op_get_cache k s = Some (r, s')"
  shows "(case r of None \<Rightarrow> op_ok s' | Some a \<Rightarrow> op_inv ((\<lambda>_. 0)(k := Suc 0)) s' \<and> map_of (op_st s') k = Some a)"
  using op_get_cache_inv [of "\<lambda>_. 0" s k r s'] assms by (auto simp: op_ok_def split: option.splits)

lemma op_ok_rel: "op_inv ((\<lambda>_. 0)(k := Suc 0)) s \<Longrightarrow> op_rel_cache k s = Some (e, s') \<Longrightarrow> op_ok s'"
  using op_rel_cache_inv [of "(\<lambda>_. 0)(k := Suc 0)" s k e s'] by (simp add: op_ok_def fun_upd_idem)

lemma change_attrs_ok:
  assumes "op_ok s" "few_handles s" "op_get_cache k s = Some (Some a, s1)" "change_attrs k f a s1 = Some (e, s')"
  shows "op_ok s'"
proof -
  obtain s2 r s3 r' where c: "upd_inode a f s1 = Some s2" "ic_commit a s2 = Some (r, s3)" "op_rel_cache k s3 = Some (r', s')"
    using assms(4) by (auto simp: change_attrs_def split: bind_splits)
  have "op_inv Y s3" if "op_inv Y s1" for Y using upd_inode_inv [OF that c(1)] ic_commit_inv [OF _ c(2)] by blast
  from opm.bracket [OF _ assms(2) _ assms(3) this c(3), of "\<lambda>_. 0"] assms(1) show ?thesis by (simp add: op_ok_def)
qed

lemma fuse_getattr_ok:
  assumes "op_ok s" "few_handles s" "fuse_getattr str s = Some (e, st, s')"
  shows "op_ok s'"
proof -
  obtain r s1 where l: "op_lookup str s = Some (r, s1)" using assms(3) by (auto simp: fuse_getattr_def split: bind_splits)
  obtain fs where s1: "s1 = set_fs fs s" using op_lookup_fs [OF l] by blast
  have ok: "op_ok s1" "few_handles s1" using assms(1,2) s1 by simp_all
  show ?thesis using assms(3) l ok
    by (auto simp: fuse_getattr_def Let_def split: bind_splits sum.splits option.splits dest!: op_ok_get [OF ok] op_ok_rel)
qed

lemma fuse_attrs_ok:
  "fuse_chmod ctx str m s = Some (e, s') \<Longrightarrow> op_ok s \<Longrightarrow> few_handles s \<Longrightarrow> op_ok s'"
  "fuse_chown str u g s = Some (e, s') \<Longrightarrow> op_ok s \<Longrightarrow> few_handles s \<Longrightarrow> op_ok s'"
  "fuse_utimens ctx now str tv s = Some (e, s') \<Longrightarrow> op_ok s \<Longrightarrow> few_handles s \<Longrightarrow> op_ok s'"
  "fuse_mkdir ctx now str m s = Some (e, s') \<Longrightarrow> op_ok s \<Longrightarrow> few_handles s \<Longrightarrow> op_ok s'"
  by (auto simp: fuse_chmod_def fuse_chown_def fuse_utimens_def fuse_mkdir_def Let_def split: bind_splits sum.splits option.splits if_splits prod.splits
      dest!: op_lookup_fs op_create_fs dest: op_ok_get [rotated 2] elim: change_attrs_ok [rotated 2])

lemma fuse_unlink_ok:
  assumes "op_ok s" "few_handles s" "fuse_unlink ctx str s = Some (e, s')"
  shows "op_ok s'"
proof -
  obtain r s1 where l: "op_lookup str s = Some (r, s1)" using assms(3) by (auto simp: fuse_unlink_def split: bind_splits)
  obtain fs where s1: "s1 = set_fs fs s" using op_lookup_fs [OF l] by blast
  have ok: "op_ok s1" "few_handles s1" using assms(1,2) s1 by simp_all
  show ?thesis using assms(3) l ok
    by (auto simp: fuse_unlink_def split: bind_splits sum.splits option.splits if_splits dest!: op_ok_get [OF ok] op_unlink_fs) (blast intro: op_ok_rel)+
qed

text \<open>Handlers that open and close.\<close>

lemma op_ok_new_fd:
  assumes "op_inv ((\<lambda>_. 0)(k := Suc 0)) s" "map_of (op_st s) k = Some a" "new_fd a k s = Some (fd, s')"
  shows "op_ok s'"
  using new_fd_inv [OF assms(1) _ assms(2,3)] by (simp add: op_ok_def fun_upd_idem)

lemma op_ok_upd_inode: "op_ok s \<Longrightarrow> upd_inode a f s = Some s' \<Longrightarrow> op_ok s'"
  using upd_inode_inv by (simp add: op_ok_def)

lemma op_ok_commit: "op_ok s \<Longrightarrow> ic_commit a s = Some (r, s') \<Longrightarrow> op_ok s'"
  using ic_commit_inv by (simp add: op_ok_def)

lemma fuse_create_ok:
  assumes "op_ok s" "few_handles s" "fuse_create ctx now str mode s = Some (e, fh, s')"
  shows "op_ok s'"
proof -
  obtain r x s1 where l: "op_create now str mode s = Some (r, x, s1)" using assms(3) by (auto simp: fuse_create_def split: bind_splits)
  obtain fs where s1: "s1 = set_fs fs s" using op_create_fs [OF l] by blast
  have ok: "op_ok s1" "few_handles s1" using assms(1,2) s1 by simp_all
  show ?thesis using assms(3) l ok
    by (auto simp: fuse_create_def split: bind_splits option.splits if_splits dest!: op_ok_get [OF ok]) (blast intro: op_ok_new_fd op_ok_upd_inode op_ok_commit)+
qed

lemma fuse_open_ok:
  assumes "op_ok s" "few_handles s" "fuse_open ctx now str flags s = Some (e, fh, s')"
  shows "op_ok s'"
proof -
  obtain r s1 where l: "op_lookup str s = Some (r, s1)" using assms(3) by (auto simp: fuse_open_def split: bind_splits)
  obtain fs where s1: "s1 = set_fs fs s" using op_lookup_fs [OF l] by blast
  have ok: "op_ok s1" "few_handles s1" using assms(1,2) s1 by simp_all
  show ?thesis using assms(3) l ok
    by (auto simp: fuse_open_def split: bind_splits sum.splits option.splits if_splits dest!: op_ok_get [OF ok]) (blast intro: op_ok_new_fd op_ok_upd_inode)+
qed

lemma fuse_release_ok:
  assumes "op_ok s" "fuse_release fh s = Some (e, s')"
  shows "op_ok s'"
proof (cases fh)
  case (Some fd)
  obtain f ic r where f: "op_fds s fd = Some f" "op_ics s (fd_inode_cache f) = Some ic"
    "op_rel_cache (ic_inode_id ic) (s\<lparr>op_ics := (op_ics s)(fd_inode_cache f \<mapsto> ic\<lparr>ic_vec := remove1 fd (ic_vec ic)\<rparr>), op_fds := (op_fds s)(fd := None)\<rparr>) = Some (r, s')"
    using assms(2) Some by (auto simp: fuse_release_def Let_def set_ic_def split: bind_splits)
  from op_ok_rel [OF _ f(3)] op_inv_close [OF assms(1) [unfolded op_ok_def] f(1,2)] show ?thesis by simp
qed (use assms in \<open>simp add: fuse_release_def\<close>)

text \<open>Handlers that use an open file.\<close>

lemma op_ok_set_fd: "op_ok s \<Longrightarrow> op_fds s fd = Some f \<Longrightarrow> same_owner f f' \<Longrightarrow> op_ok (set_fd fd f' s)"
  using op_inv_set_fd by (simp add: op_ok_def same_owner_def)

lemma fuse_read_ok:
  assumes "op_ok s" "fuse_read sz off flags fh s = Some (e, bs, s')"
  shows "op_ok s'"
  using assms by (auto simp: fuse_read_def split: option.splits if_splits bind_splits dest!: copy_to_buf_owner intro: op_ok_set_fd)

lemma fuse_write_ok:
  assumes "op_ok s" "fuse_write buf off flags fh s = Some (e, s')"
  shows "op_ok s'"
proof (cases "fh = None \<or> flags AND O_ACCMODE = O_RDONLY \<or> buf = []")
  case True
  then show ?thesis using assms by (cases fh) (auto simp: fuse_write_def split: if_splits)
next
  case False
  then obtain fd where fd: "fh = Some fd" "flags AND O_ACCMODE \<noteq> O_RDONLY" "buf \<noteq> []" by auto
  obtain f ic r upd inode f' fs where w: "op_fds s fd = Some f" "op_ics s (fd_inode_cache f) = Some ic"
    "fd_write buf off (flags AND O_APPEND \<noteq> 0) (ic_cache ic) f (op_fs s) = Some (r, upd, inode, f', fs)"
    "(if upd then ic_upd_all (fd_inode_cache f') (set_ic (fd_inode_cache f') (ic\<lparr>ic_cache := inode\<rparr>) (set_fs fs (set_fd fd f' s)))
      else Some (set_ic (fd_inode_cache f') (ic\<lparr>ic_cache := inode\<rparr>) (set_fs fs (set_fd fd f' s)))) = Some s'"
    using assms(2) fd unfolding fuse_write_def by (auto simp: Let_def split: bind_splits)
  have o: "same_owner f f'" by (rule fd_write_owner [OF w(3)])
  have "op_inv (\<lambda>_. 0) (set_fs fs (set_fd fd f' s))" using op_ok_set_fd [OF assms(1) w(1) o] by (simp add: op_ok_def)
  moreover have "op_ics (set_fs fs (set_fd fd f' s)) (fd_inode_cache f') = Some ic" using o w(2) by (simp add: same_owner_def set_fd_def)
  ultimately have "op_inv (\<lambda>_. 0) (set_ic (fd_inode_cache f') (ic\<lparr>ic_cache := inode\<rparr>) (set_fs fs (set_fd fd f' s)))" by (rule op_inv_set_cache(1))
  then show ?thesis using w(4) ic_upd_all_inv by (auto simp: op_ok_def split: if_splits)
qed

lemma fuse_fsync_ok:
  assumes "op_ok s" "fuse_fsync d fh s = Some (e, s')"
  shows "op_ok s'"
  using assms by (auto simp: fuse_fsync_def split: option.splits if_splits bind_splits) (blast intro: op_ok_commit)

end
