(* ===== verification/Write_Back.thy ===== *)
theory Write_Back
  imports Block_Cache
begin

text \<open>
  The block cache as a write-back cache: what it promises about the contents of blocks. A block
  has its place on the device, which is sound; its content is the data of the cached object if it is cached and
  the bytes at its place otherwise. Looking up, inserting, evicting, modifying and flushing are
  shown to preserve the contents of all blocks, flushing puts them on the device, and the locale
  \<open>write_back\<close> states what the class \<open>FileSystem\<close> relies on.
\<close>

section \<open>Contents of blocks\<close>

definition layout :: "(u32 \<Rightarrow> nat) \<Rightarrow> u32 set \<Rightarrow> bool" where
  "layout off K \<longleftrightarrow> (\<forall>i \<in> K. seekable (off i)) \<and>
     (\<forall>i \<in> K. \<forall>j \<in> K. i \<noteq> j \<longrightarrow> off i + BLOCK_SIZE \<le> off j \<or> off j + BLOCK_SIZE \<le> off i)"

definition on_device :: "nat \<Rightarrow> bytes \<Rightarrow> store \<Rightarrow> bool" where
  "on_device p d st \<longleftrightarrow> disk_read p BLOCK_SIZE (device st) = Some (clip BLOCK_SIZE d)"

definition wb_entry :: "(u32 \<Rightarrow> nat) \<Rightarrow> u32 set \<Rightarrow> store \<Rightarrow> bc_entry \<Rightarrow> bool" where
  "wb_entry off F st e \<longleftrightarrow>
     (\<exists>b. heap st (fst (snd e)) = Some b \<and> blk_offset b = off (fst e) \<and>
        (snd (snd e) \<or> fst e \<in> F \<or> on_device (off (fst e)) (blk_data b) st))"

definition wb_ok :: "(u32 \<Rightarrow> nat) \<Rightarrow> u32 set \<Rightarrow> u32 set \<Rightarrow> bc_entry list \<Rightarrow> store \<Rightarrow> bool" where
  "wb_ok off K F es st \<longleftrightarrow>
     layout off K \<and> fst ` set es \<subseteq> K \<and> distinct (map fst es) \<and> distinct (map (fst \<circ> snd) es) \<and>
     (\<forall>e \<in> set es. wb_entry off F st e) \<and> (\<forall>a. brk st \<le> a \<longrightarrow> heap st a = None) \<and> dk_faults (device st) = []"

definition wb_content :: "(u32 \<Rightarrow> nat) \<Rightarrow> bc_entry list \<Rightarrow> store \<Rightarrow> u32 \<Rightarrow> bytes option" where
  "wb_content off es st k =
     (case map_of es k of
        Some v \<Rightarrow> map_option (\<lambda>b. clip BLOCK_SIZE (blk_data b)) (heap st (fst v))
      | None \<Rightarrow> disk_read (off k) BLOCK_SIZE (device st))"

lemma wb_content_fst:
  "wb_content off es st k =
     (case map_option fst (map_of es k) of
        Some a \<Rightarrow> map_option (\<lambda>b. clip BLOCK_SIZE (blk_data b)) (heap st a)
      | None \<Rightarrow> disk_read (off k) BLOCK_SIZE (device st))"
  by (simp add: wb_content_def split: option.split)

definition keeps :: "(u32 \<Rightarrow> bool) \<Rightarrow> (u32 \<Rightarrow> bytes option) \<Rightarrow> (u32 \<Rightarrow> bytes option) \<Rightarrow> bool" where
  "keeps P f g \<longleftrightarrow> (\<forall>j x. P j \<longrightarrow> f j = Some x \<longrightarrow> g j = Some x)"

text \<open>What is on the device at the place of a block.\<close>

definition stored :: "(u32 \<Rightarrow> nat) \<Rightarrow> store \<Rightarrow> u32 \<Rightarrow> bytes option" where
  "stored off st k = disk_read (off k) BLOCK_SIZE (device st)"

lemma keeps_trans: "keeps P f g \<Longrightarrow> keeps P g h \<Longrightarrow> keeps P f h"
  by (auto simp: keeps_def)

lemma keeps_refl [simp]: "keeps P f f"
  by (auto simp: keeps_def)

lemma wb_entry_same:
  "heap st' = heap st \<Longrightarrow> device st' = device st \<Longrightarrow> wb_entry off F st' = wb_entry off F st"
  by (auto simp: wb_entry_def on_device_def fun_eq_iff)

text \<open>Writing back an entry.\<close>

lemma wb_flush:
  assumes ok: "wb_ok off K F es st" and e: "(k, a, d) \<in> set es"
  obtains st' where "block_flush a st = Some (0, st')" "heap st' = heap st" "brk st' = brk st"
    "ndebug st' = ndebug st" "wb_ok off K F es st'"
    "keeps (\<lambda>j. j \<in> K) (wb_content off es st) (wb_content off es st')"
    "\<And>b. heap st a = Some b \<Longrightarrow> on_device (off k) (blk_data b) st'"
    "keeps (\<lambda>j. j \<in> K \<and> j \<noteq> k) (stored off st) (stored off st')"
proof -
  have "wb_entry off F st (k, a, d)" using ok e by (auto simp: wb_ok_def)
  then obtain b where b: "heap st a = Some b" "blk_offset b = off k" by (auto simp: wb_entry_def)
  have L: "layout off K" and k: "k \<in> K" using ok e by (force simp: wb_ok_def)+
  have s: "seekable (off k)" "dk_faults (device st) = []" using L k ok by (simp_all add: layout_def wb_ok_def)
  let ?d = "snd (disk_write (off k) BLOCK_SIZE (blk_data b) (device st))"
  let ?st = "st\<lparr>device := ?d\<rparr>"
  have other: "disk_read (off j) BLOCK_SIZE ?d = Some x"
    if "j \<in> K" "j \<noteq> k" "disk_read (off j) BLOCK_SIZE (device st) = Some x" for j x
    using disk_read_write_other [OF _ that(3), of "off k" BLOCK_SIZE] L k that(1,2) unfolding layout_def by blast
  have same: "disk_read (off k) BLOCK_SIZE ?d = Some (clip BLOCK_SIZE (blk_data b))"
    by (rule disk_read_write_same [OF s])
  have "wb_entry off F ?st e" if "e \<in> set es" for e
  proof -
    have w: "wb_entry off F st e" and ek: "fst e \<in> K" using ok that by (auto simp: wb_ok_def)
    show ?thesis
    proof (cases "fst e = k")
      case True
      then have "e = (k, a, d)"
        using ok e that eq_key_imp_eq_value [of es k "snd e" "(a, d)"] by (cases e) (auto simp: wb_ok_def)
      then show ?thesis using b same by (simp add: wb_entry_def on_device_def)
    next
      case False
      then show ?thesis using w other [OF ek False] by (auto simp: wb_entry_def on_device_def)
    qed
  qed
  then have "wb_ok off K F es ?st" using ok s(2) by (simp add: wb_ok_def)
  moreover have "block_flush a st = Some (0, ?st)"
    using b s by (simp add: block_flush_def disk_write_seekable Let_def split_beta)
  moreover have "keeps (\<lambda>j. j \<in> K) (wb_content off es st) (wb_content off es ?st)"
  proof -
    have "map_of es k = Some (a, d)" using ok e by (simp add: wb_ok_def)
    then have "j \<noteq> k" if "map_of es j = None" for j using that by auto
    then show ?thesis using other by (auto simp: keeps_def wb_content_def split: option.splits)
  qed
  moreover have "keeps (\<lambda>j. j \<in> K \<and> j \<noteq> k) (stored off st) (stored off ?st)"
    using other by (auto simp: keeps_def stored_def)
  ultimately show ?thesis using same b by (intro that [of ?st]) (auto simp: on_device_def)
qed

lemma wb_delete:
  assumes ok: "wb_ok off K F es st" and k: "map_of es k = Some v"
  obtains st' where "block_delete (fst v) st = Some st'" "brk st' = brk st" "ndebug st' = ndebug st"
    "device st' = device st" "wb_ok off K F (AList.delete k es) st'"
    "\<And>j. j \<noteq> k \<Longrightarrow> wb_content off (AList.delete k es) st' j = wb_content off es st j"
proof -
  obtain a d where v: "v = (a, d)" by force
  have e: "(k, a, d) \<in> set es" using k by (simp add: v map_of_SomeD)
  then have "wb_entry off F st (k, a, d)" using ok by (auto simp: wb_ok_def)
  then obtain b where b: "heap st a = Some b" by (auto simp: wb_entry_def)
  let ?st = "st\<lparr>heap := (heap st)(a := None)\<rparr>"
  have other: "b' \<noteq> a" if "(j, b', d') \<in> set es" "j \<noteq> k" for j b' d'
    using ok e that unfolding wb_ok_def distinct_map inj_on_def by force
  have "wb_ok off K F (AList.delete k es) ?st"
    unfolding wb_ok_def
  proof (intro conjI)
    show "\<forall>e \<in> set (AList.delete k es). wb_entry off F ?st e"
      using ok other by (auto simp: wb_ok_def AList.delete_eq wb_entry_def on_device_def)
    show "distinct (map (fst \<circ> snd) (AList.delete k es))"
      using ok by (auto simp: wb_ok_def AList.delete_eq intro: distinct_map_filter)
  qed (use ok in \<open>auto simp: wb_ok_def AList.delete_eq intro: distinct_map_filter\<close>)
  moreover have "wb_content off (AList.delete k es) ?st j = wb_content off es st j" if "j \<noteq> k" for j
  proof -
    have "map_of (AList.delete k es) j = map_of es j" using that by (simp add: AList.delete_conv')
    moreover have "fst w \<noteq> a" if "map_of es j = Some w" for w
      using other [of j "fst w" "snd w"] that \<open>j \<noteq> k\<close> by (auto dest: map_of_SomeD)
    ultimately show ?thesis by (auto simp: wb_content_def split: option.split)
  qed
  ultimately show ?thesis using b by (intro that [of ?st]) (auto simp: block_delete_def v)
qed

text \<open>An entry leaves the cache: nothing is lost unless it is clean and was never on the device.\<close>

lemma wb_retire:
  assumes ok: "wb_ok off K F es st" and k: "map_of es k = Some v"
  obtains st' where "retire v st = Some st'" "brk st' = brk st" "ndebug st' = ndebug st"
    "wb_ok off K F (AList.delete k es) st'"
    "keeps (\<lambda>j. j \<in> K \<and> (j \<noteq> k \<or> snd v \<or> k \<notin> F)) (wb_content off es st) (wb_content off (AList.delete k es) st')"
proof -
  obtain a d where v: "v = (a, d)" by force
  have e: "(k, a, d) \<in> set es" using k by (simp add: v map_of_SomeD)
  obtain st1 where st1: "(if d then block_flush a st else Some (0, st)) = Some (0, st1)"
    "heap st1 = heap st" "brk st1 = brk st" "ndebug st1 = ndebug st" "wb_ok off K F es st1"
    "keeps (\<lambda>j. j \<in> K) (wb_content off es st) (wb_content off es st1)"
    "d \<Longrightarrow> \<forall>b. heap st a = Some b \<longrightarrow> on_device (off k) (blk_data b) st1"
  proof (cases d)
    case True
    show ?thesis by (rule wb_flush [OF ok e]) (use True that in auto)
  next
    case False
    then show ?thesis using ok that [of st] by simp
  qed
  obtain st2 where st2: "block_delete (fst v) st1 = Some st2" "brk st2 = brk st1" "ndebug st2 = ndebug st1"
    "device st2 = device st1" "wb_ok off K F (AList.delete k es) st2"
    "\<And>j. j \<noteq> k \<Longrightarrow> wb_content off (AList.delete k es) st2 j = wb_content off es st1 j"
    using wb_delete [OF st1(5) k] by metis
  have "wb_entry off F st (k, a, d)" using ok e by (auto simp: wb_ok_def)
  then obtain b where b: "heap st a = Some b" "d \<or> k \<in> F \<or> on_device (off k) (blk_data b) st"
    by (auto simp: wb_entry_def)
  have kk: "wb_content off (AList.delete k es) st2 k = wb_content off es st k" if "d \<or> k \<notin> F"
  proof -
    have "on_device (off k) (blk_data b) st1"
      using st1(1,7) b that by (cases d) auto
    then show ?thesis using st2(4) k b(1)
      by (simp add: wb_content_def AList.delete_conv' on_device_def v)
  qed
  have "keeps (\<lambda>j. j \<in> K \<and> (j \<noteq> k \<or> snd v \<or> k \<notin> F)) (wb_content off es st) (wb_content off (AList.delete k es) st2)"
    unfolding keeps_def
  proof (intro allI impI)
    fix j x assume j: "j \<in> K \<and> (j \<noteq> k \<or> snd v \<or> k \<notin> F)" "wb_content off es st j = Some x"
    show "wb_content off (AList.delete k es) st2 j = Some x"
      using j kk st2(6) st1(6) by (cases "j = k") (auto simp: v keeps_def)
  qed
  moreover have "retire v st = Some st2" using st1(1) st2(1) by (cases d) (simp_all add: retire_def v)
  ultimately show ?thesis using st1 st2 by (intro that [of st2]) auto
qed

text \<open>A new entry, and the other ways in which the list of entries changes.\<close>

lemma wb_insert:
  assumes ok: "wb_ok off K F es st" and k: "k \<in> K" "map_of es k = None"
    and a: "heap st a = Some b" "blk_offset b = off k" "\<forall>e \<in> set es. fst (snd e) \<noteq> a"
    and d: "d \<or> k \<in> F \<or> on_device (off k) (blk_data b) st"
  shows "wb_ok off K F ((k, a, d) # es) st"
    and "wb_content off ((k, a, d) # es) st k = Some (clip BLOCK_SIZE (blk_data b))"
    and "j \<noteq> k \<Longrightarrow> wb_content off ((k, a, d) # es) st j = wb_content off es st j"
proof -
  have "k \<notin> fst ` set es" using k(2) by (simp add: map_of_eq_None_iff)
  then show "wb_ok off K F ((k, a, d) # es) st"
    using ok k(1) a d by (auto simp: wb_ok_def wb_entry_def)
qed (use a in \<open>simp_all add: wb_content_def\<close>)

text \<open>Same entries up to order and larger dirty bits.\<close>

lemma wb_ok_perm:
  assumes ok: "wb_ok off K F es st" and m: "map_option fst \<circ> map_of es' = map_option fst \<circ> map_of es"
    and d: "distinct (map fst es')" "\<And>k a b. map_of es k = Some (a, b) \<Longrightarrow> b \<Longrightarrow> map_of es' k = Some (a, b)"
  shows "wb_ok off K F es' st" "wb_content off es' st = wb_content off es st"
proof -
  have M: "map_option fst (map_of es' k) = map_option fst (map_of es k)" for k
    using fun_cong [OF m, of k] by simp
  have old: "\<exists>c. (k, a, c) \<in> set es \<and> (c \<longrightarrow> b)" if "(k, a, b) \<in> set es'" for k a b
  proof -
    have "map_of es' k = Some (a, b)" using that d(1) by simp
    moreover from this M [of k] obtain c where "map_of es k = Some (a, c)"
      by (cases "map_of es k") auto
    ultimately show ?thesis using d(2) [of k a c] by (auto dest: map_of_SomeD)
  qed
  have "inj_on (fst \<circ> snd) (set es')"
  proof (rule inj_onI)
    fix x y assume xy: "x \<in> set es'" "y \<in> set es'" "(fst \<circ> snd) x = (fst \<circ> snd) y"
    obtain k a b k' b' where [simp]: "x = (k, a, b)" "y = (k', a, b')" using xy(3) by (cases x, cases y) auto
    obtain c c' where "(k, a, c) \<in> set es" "(k', a, c') \<in> set es" using old xy by (metis \<open>x = _\<close> \<open>y = _\<close>)
    then have "k = k'" using ok unfolding wb_ok_def distinct_map inj_on_def by force
    then show "x = y" using xy(1,2) d(1) by (auto dest: eq_key_imp_eq_value)
  qed
  then have "distinct (map (fst \<circ> snd) es')" using d(1) by (simp add: distinct_map)
  moreover have "wb_entry off F st e" if "e \<in> set es'" for e
  proof -
    obtain k a b where e: "e = (k, a, b)" by (cases e)
    with old that obtain c where "(k, a, c) \<in> set es" "c \<longrightarrow> b" by blast
    then show ?thesis using ok by (force simp: wb_ok_def wb_entry_def e)
  qed
  moreover have "fst ` set es' \<subseteq> K" using old ok by (force simp: wb_ok_def)
  ultimately show "wb_ok off K F es' st" using ok d(1) by (auto simp: wb_ok_def)
  have "wb_content off es' st k = wb_content off es st k" for k
    using M [of k] by (auto simp: wb_content_def split: option.splits)
  then show "wb_content off es' st = wb_content off es st" by (rule ext)
qed

lemma wb_touch:
  assumes "wb_ok off K F es st"
  shows "wb_ok off K F (lru_touch k d es) st" "wb_content off (lru_touch k d es) st = wb_content off es st"
proof -
  have dist: "distinct (map fst es)" using assms by (simp add: wb_ok_def)
  have m: "map_of (lru_touch k d es) j = (if j = k then map_option (\<lambda>(a, b). (a, b \<or> d)) (map_of es k) else map_of es j)" for j
    by (auto simp: lru_touch_def AList.delete_conv' split: option.split)
  have p: "distinct (map fst (lru_touch k d es))"
    using dist by (auto simp: lru_touch_def AList.delete_eq intro: distinct_map_filter split: option.split)
  have q: "map_option fst \<circ> map_of (lru_touch k d es) = map_option fst \<circ> map_of es"
    by (auto simp: m fun_eq_iff option.map_comp comp_def split_beta)
  have r: "\<And>j a b. map_of es j = Some (a, b) \<Longrightarrow> b \<Longrightarrow> map_of (lru_touch k d es) j = Some (a, b)"
    by (auto simp: m)
  show "wb_ok off K F (lru_touch k d es) st" by (rule wb_ok_perm(1) [OF assms q p r])
  show "wb_content off (lru_touch k d es) st = wb_content off es st" by (rule wb_ok_perm(2) [OF assms q p r])
qed

lemma wb_mark:
  assumes "wb_ok off K F es st"
  shows "wb_ok off K F (lru_mark k d es) st" "wb_content off (lru_mark k d es) st = wb_content off es st"
proof -
  have dist: "distinct (map fst es)" using assms by (simp add: wb_ok_def)
  have m: "map_of (lru_mark k d es) j = map_option (\<lambda>(a, b). (a, b \<or> j = k \<and> d)) (map_of es j)" for j
    by (induction es) (auto simp: lru_mark_def)
  have "map_option fst \<circ> map_of (lru_mark k d es) = map_option fst \<circ> map_of es"
    by (auto simp: m fun_eq_iff option.map_comp comp_def split_beta)
  from wb_ok_perm [OF assms this] dist
  show "wb_ok off K F (lru_mark k d es) st" "wb_content off (lru_mark k d es) st = wb_content off es st"
    by (simp_all add: m)
qed

section \<open>The cache\<close>

definition cached :: "block_cache \<Rightarrow> u32 \<Rightarrow> addr option" where
  "cached c k = map_option (\<lambda>n. bn_block (bc_nodes c n)) (map_of (bc_map c) k)"

definition cache_content :: "(u32 \<Rightarrow> nat) \<Rightarrow> block_cache \<Rightarrow> store \<Rightarrow> u32 \<Rightarrow> bytes option" where
  "cache_content off c st k =
     (case cached c k of
        Some a \<Rightarrow> map_option (\<lambda>b. clip BLOCK_SIZE (blk_data b)) (heap st a)
      | None \<Rightarrow> disk_read (off k) BLOCK_SIZE (device st))"

definition cache_ok :: "(u32 \<Rightarrow> nat) \<Rightarrow> u32 set \<Rightarrow> u32 set \<Rightarrow> block_cache \<Rightarrow> store \<Rightarrow> bool" where
  "cache_ok off K F c st \<longleftrightarrow> 0 < bc_size c \<and> (\<exists>es. bc_rep c es \<and> wb_ok off K F es st)"

lemma cached_rep: "bc_rep c es \<Longrightarrow> cached c k = map_option fst (map_of es k)"
proof -
  assume "bc_rep c es"
  then obtain ns where ns: "bc_ok c ns" "es = map (payload \<circ> bc_nodes c) ns" unfolding bc_rep_def by blast
  show ?thesis unfolding ns(2) bc_ok_lookup [OF ns(1)] cached_def by (simp add: option.map_comp comp_def)
qed

lemma cache_content_rep: "bc_rep c es \<Longrightarrow> cache_content off c st = wb_content off es st"
  by (auto simp: fun_eq_iff cache_content_def wb_content_def cached_rep split: option.split)

text \<open>
  \<open>recent c ks\<close>: the keys \<open>ks\<close> are at the front of the list, in this order; they are evicted last.
  \<open>marked c k\<close>: block \<open>k\<close> is cached and dirty.
\<close>

definition recent :: "block_cache \<Rightarrow> u32 list \<Rightarrow> bool" where
  "recent c ks \<longleftrightarrow> (\<exists>es ys. bc_rep c es \<and> map fst es = ks @ ys)"

definition marked :: "block_cache \<Rightarrow> u32 \<Rightarrow> bool" where
  "marked c k \<longleftrightarrow> (\<exists>n. map_of (bc_map c) k = Some n \<and> bn_dirty (bc_nodes c n))"

lemma dll_unique:
  "dll f (x # xs @ [t]) \<Longrightarrow> dll f (x # ys @ [t]) \<Longrightarrow> t \<notin> set xs \<Longrightarrow> t \<notin> set ys \<Longrightarrow> xs = ys"
proof (induction xs arbitrary: x ys)
  case Nil
  then show ?case by (cases ys) auto
next
  case (Cons z xs)
  then show ?case by (cases ys) auto
qed

lemma bc_rep_fun: "bc_rep c es \<Longrightarrow> bc_rep c es' \<Longrightarrow> es' = es"
proof -
  assume "bc_rep c es" "bc_rep c es'"
  then obtain ns ns' where ns: "bc_ok c ns" "es = map (payload \<circ> bc_nodes c) ns"
    "bc_ok c ns'" "es' = map (payload \<circ> bc_nodes c) ns'" unfolding bc_rep_def by blast
  have "ns = ns'"
  proof (rule dll_unique [where f = "bc_nodes c" and x = "bc_head c" and t = "bc_tail c"])
    show "bc_tail c \<notin> set ns" "bc_tail c \<notin> set ns'"
      using bc_ok_distinct [OF ns(1)] bc_ok_distinct [OF ns(3)] by simp_all
    show "dll (bc_nodes c) (bc_head c # ns @ [bc_tail c])" using ns(1) unfolding bc_ok_def by blast
    show "dll (bc_nodes c) (bc_head c # ns' @ [bc_tail c])" using ns(3) unfolding bc_ok_def by blast
  qed
  with ns show ?thesis by simp
qed

lemma recent_rep: "bc_rep c es \<Longrightarrow> recent c ks \<longleftrightarrow> (\<exists>ys. map fst es = ks @ ys)"
  unfolding recent_def by (metis bc_rep_fun)

lemma recent_cached: "recent c ks \<Longrightarrow> k \<in> set ks \<Longrightarrow> cached c k \<noteq> None"
proof -
  assume a: "recent c ks" "k \<in> set ks"
  then obtain es ys where es: "bc_rep c es" "map fst es = ks @ ys" by (auto simp: recent_def)
  from a(2) have "k \<in> set (map fst es)" unfolding es(2) by simp
  then have "map_of es k \<noteq> None" by (simp add: map_of_eq_None_iff)
  then show ?thesis by (simp add: cached_rep [OF es(1)])
qed

lemma recent_Nil: "cache_ok off K F c st \<Longrightarrow> recent c []"
  by (auto simp: cache_ok_def recent_def)

lemma recent_prefix: "recent c (ks @ ys) \<Longrightarrow> recent c ks"
  by (auto simp: recent_def)

lemma marked_rep: "bc_rep c es \<Longrightarrow> marked c k \<longleftrightarrow> (\<exists>a. map_of es k = Some (a, True))"
proof -
  assume "bc_rep c es"
  then obtain ns where ns: "bc_ok c ns" "es = map (payload \<circ> bc_nodes c) ns" unfolding bc_rep_def by blast
  show ?thesis unfolding ns(2) bc_ok_lookup [OF ns(1)] marked_def by (auto simp: map_option_eq_Some)
qed

lemma marked_modify: "marked c k \<Longrightarrow> bc_modify k c = c"
proof -
  assume "marked c k"
  then obtain n where n: "map_of (bc_map c) k = Some n" "bn_dirty (bc_nodes c n)" by (auto simp: marked_def)
  then have "(bc_nodes c)(n := (bc_nodes c n)\<lparr>bn_dirty := True\<rparr>) = bc_nodes c"
    by (cases "bc_nodes c n") (auto simp: fun_eq_iff)
  then show ?thesis by (simp add: bc_modify_def n bc_upd_def)
qed

lemma map_fst_delete: "map fst (AList.delete k es) = removeAll k (map fst es)"
  by (induction es) auto

lemma cache_get:
  assumes "cache_ok off K F c st"
  obtains c' where "bc_get k d c st = Some (cached c k, c')" "cache_ok off K F c' st"
    "cached c' = cached c" "bc_size c' = bc_size c" "cached c k \<noteq> None \<Longrightarrow> d \<Longrightarrow> marked c' k"
    "\<And>ks. recent c ks \<Longrightarrow> recent c' (if cached c k = None then ks else k # removeAll k ks)"
    "\<And>j. marked c j \<Longrightarrow> marked c' j"
proof -
  obtain es where es: "bc_rep c es" "wb_ok off K F es st" "0 < bc_size c"
    using assms by (auto simp: cache_ok_def)
  obtain c' where c': "bc_get k d c st = Some (map_option fst (map_of es k), c')"
    "bc_rep c' (lru_touch k d es)" "bc_size c' = bc_size c"
    by (rule bc_get_refines [OF es(1)])
  note C = cached_rep [OF c'(2)] cached_rep [OF es(1)]
  note M = marked_rep [OF c'(2)] marked_rep [OF es(1)]
  show ?thesis
  proof (rule that [of c'])
    show "bc_get k d c st = Some (cached c k, c')" using c'(1) by (simp add: C(2))
    show "cache_ok off K F c' st" using c' es(3) wb_touch(1) [OF es(2)] by (auto simp: cache_ok_def)
    show "cached c' = cached c"
      by (rule ext) (auto simp: C lru_touch_def AList.delete_conv' split: option.split)
    show "marked c' k" if "cached c k \<noteq> None" d
      using that by (auto simp: M C lru_touch_def split: option.split)
    show "marked c' j" if "marked c j" for j
      using that by (auto simp: M lru_touch_def AList.delete_conv' split: option.split)
    show "recent c' (if cached c k = None then ks else k # removeAll k ks)" if r: "recent c ks" for ks
    proof (cases "map_of es k")
      case None
      then show ?thesis using r by (simp add: recent_rep [OF c'(2)] recent_rep [OF es(1)] C lru_touch_def)
    next
      case (Some v)
      obtain ys where "map fst es = ks @ ys" using r recent_rep [OF es(1)] by blast
      then have "map fst (lru_touch k d es) = (k # removeAll k ks) @ removeAll k ys"
        using Some by (cases v) (simp add: lru_touch_def map_fst_delete)
      then show ?thesis using Some by (auto simp: recent_rep [OF c'(2)] C)
    qed
  qed (rule c'(3))
qed

lemma cache_content_cong: "cached c' = cached c \<Longrightarrow> cache_content off c' st = cache_content off c st"
  by (simp add: fun_eq_iff cache_content_def)

text \<open>Room for a new entry, in terms of contents.\<close>

lemma wb_evict:
  assumes "wb_ok off K F es st" "0 < cap"
  defines "es' \<equiv> if length es < cap then es else butlast es"
  obtains st' where "lru_evict cap es st = Some st'" "brk st' = brk st" "ndebug st' = ndebug st"
    "wb_ok off K F es' st'" "set es' \<subseteq> set es"
    "keeps (\<lambda>j. j \<in> K \<and> (j \<notin> F \<or> map_of es' j \<noteq> None)) (wb_content off es st) (wb_content off es' st')"
    "\<And>a. \<forall>e \<in> set es. fst (snd e) \<noteq> a \<Longrightarrow> heap st' a = heap st a"
proof (cases "length es < cap")
  case True
  then show ?thesis using assms(1) by (intro that [of st]) (auto simp: es'_def lru_evict_def)
next
  case False
  then have "es \<noteq> []" using assms(2) by auto
  then obtain ys k v where es: "es = ys @ [(k, v)]" by (metis rev_exhaust surj_pair)
  have nk: "k \<notin> fst ` set ys" using assms(1) by (auto simp: wb_ok_def es)
  have k: "map_of es k = Some v" using nk by (simp add: es map_of_eq_None_iff map_add_Some_iff)
  have del: "AList.delete k es = ys" using nk by (simp add: es delete_append)
  have es': "es' = ys" using False by (simp add: es'_def es)
  obtain st' where st': "retire v st = Some st'" "brk st' = brk st" "ndebug st' = ndebug st"
    "wb_ok off K F ys st'"
    "keeps (\<lambda>j. j \<in> K \<and> (j \<noteq> k \<or> snd v \<or> k \<notin> F)) (wb_content off es st) (wb_content off ys st')"
    by (rule wb_retire [OF assms(1) k, unfolded del]) (rule that)
  have "keeps (\<lambda>j. j \<in> K \<and> (j \<notin> F \<or> map_of ys j \<noteq> None)) (wb_content off es st) (wb_content off ys st')"
    using st'(5) nk unfolding keeps_def by (metis map_of_eq_None_iff)
  moreover have "heap st' a = heap st a" if "\<forall>e \<in> set es. fst (snd e) \<noteq> a" for a
    using heap_retire [OF st'(1), of a] that by (auto simp: es)
  moreover have "lru_evict cap es st = Some st'" using False st'(1) by (simp add: lru_evict_def es)
  ultimately show ?thesis using st'(2-4) by (intro that [of st']) (auto simp: es' es)
qed

lemma map_of_butlast: "map_of (butlast es) j = map_of es j \<or> map_of (butlast es) j = None"
  by (induction es) auto

lemma cache_insert:
  assumes ok: "cache_ok off K F c st" and k: "k \<in> K" "cached c k = None"
    and a: "heap st a = Some b" "blk_offset b = off k" "\<And>j. cached c j \<noteq> Some a"
    and d: "d \<or> k \<in> F \<or> on_device (off k) (blk_data b) st"
  obtains c' st' where "bc_insert k a d c st = Some (c', st')" "cache_ok off K F c' st'"
    "cache_content off c' st' k = Some (clip BLOCK_SIZE (blk_data b))" "heap st' a = Some b"
    "keeps (\<lambda>j. j \<in> K \<and> (j \<notin> F \<or> cached c' j \<noteq> None) \<and> j \<noteq> k) (cache_content off c st) (cache_content off c' st')"
    "brk st' = brk st" "ndebug st' = ndebug st" "cached c' k = Some a" "bc_size c' = bc_size c" "d \<Longrightarrow> marked c' k"
    "\<And>j. j \<noteq> k \<Longrightarrow> cached c' j = cached c j \<or> cached c' j = None"
    "\<And>ks. recent c ks \<Longrightarrow> length ks < bc_size c \<Longrightarrow> recent c' (k # ks)"
proof -
  obtain es where es: "bc_rep c es" "wb_ok off K F es st" "0 < bc_size c"
    using ok by (auto simp: cache_ok_def)
  have kn: "map_of es k = None" using k(2) cached_rep [OF es(1)] by simp
  have fresh: "\<forall>e \<in> set es. fst (snd e) \<noteq> a"
  proof
    fix e assume "e \<in> set es"
    then have "map_of es (fst e) = Some (snd e)" using es(2) by (simp add: wb_ok_def)
    then show "fst (snd e) \<noteq> a" using a(3) [of "fst e"] cached_rep [OF es(1)] by auto
  qed
  let ?es = "if length es < bc_size c then es else butlast es"
  obtain st' where st': "lru_evict (bc_size c) es st = Some st'" "brk st' = brk st" "ndebug st' = ndebug st"
    "wb_ok off K F ?es st'" "set ?es \<subseteq> set es"
    "keeps (\<lambda>j. j \<in> K \<and> (j \<notin> F \<or> map_of ?es j \<noteq> None)) (wb_content off es st) (wb_content off ?es st')"
    "\<And>a. \<forall>e \<in> set es. fst (snd e) \<noteq> a \<Longrightarrow> heap st' a = heap st a"
    by (rule wb_evict [OF es(2,3)]) (rule that)
  obtain c' where c0: "bc_insert k a d c st = map_option (\<lambda>st'. (c', st')) (lru_evict (bc_size c) es st)"
    "bc_rep c' (lru_insert (bc_size c) k a d es)" "bc_size c' = bc_size c"
    by (rule bc_insert_new_refines [OF es(1,3) kn]) (rule that)
  have c': "bc_insert k a d c st = Some (c', st')" using c0(1) st'(1) by simp
  have ne: "map_of ?es k = None" using kn st'(5) by (auto simp: map_of_eq_None_iff)
  have ha: "heap st' a = Some b" using st'(7) [OF fresh] a(1) by simp
  have "d \<or> k \<in> F \<or> on_device (off k) (blk_data b) st'"
  proof (cases "d \<or> k \<in> F")
    case False
    then have "wb_content off es st k = Some (clip BLOCK_SIZE (blk_data b))"
      using d kn by (simp add: wb_content_def on_device_def)
    then have "wb_content off ?es st' k = Some (clip BLOCK_SIZE (blk_data b))"
      using st'(6) k(1) False unfolding keeps_def by blast
    then show ?thesis using ne by (simp add: wb_content_def on_device_def)
  qed blast
  note I = wb_insert [OF st'(4) k(1) ne ha a(2) _ this]
  have f': "\<forall>e \<in> set ?es. fst (snd e) \<noteq> a" using fresh st'(5) by blast
  have R: "lru_insert (bc_size c) k a d es = (k, a, d) # ?es" by (simp add: lru_insert_def)
  show ?thesis
  proof (rule that [of c' st'])
    show "cache_ok off K F c' st'" using c0(2,3) es(3) I(1) [OF f'] unfolding R cache_ok_def by auto
    show "keeps (\<lambda>j. j \<in> K \<and> (j \<notin> F \<or> cached c' j \<noteq> None) \<and> j \<noteq> k) (cache_content off c st) (cache_content off c' st')"
      unfolding cache_content_rep [OF es(1)] cache_content_rep [OF c0(2)] R
      using st'(6) I(3) [OF f'] unfolding cached_rep [OF c0(2)] R by (auto simp: keeps_def)
    show "cache_content off c' st' k = Some (clip BLOCK_SIZE (blk_data b))"
      unfolding cache_content_rep [OF c0(2)] R by (rule I(2) [OF f'])
    show "cached c' k = Some a" unfolding cached_rep [OF c0(2)] R by simp
    show "marked c' k" if d using that unfolding marked_rep [OF c0(2)] R by simp
    show "cached c' j = cached c j \<or> cached c' j = None" if "j \<noteq> k" for j
      unfolding cached_rep [OF c0(2)] cached_rep [OF es(1)] R
      using that map_of_butlast [of es j] by (cases "length es < bc_size c") auto
    show "recent c' (k # ks)" if r: "recent c ks" "length ks < bc_size c" for ks
    proof -
      obtain ys where ys: "map fst es = ks @ ys" using r(1) recent_rep [OF es(1)] by blast
      have len: "length es = length ks + length ys" using arg_cong [OF ys, of length] by simp
      have "map fst ?es = ks @ (if length es < bc_size c then ys else butlast ys)"
      proof (cases "length es < bc_size c")
        case False
        then have "ys \<noteq> []" using r(2) len by auto
        then show ?thesis using False ys by (simp add: map_butlast butlast_append)
      qed (use ys in simp)
      then have "map fst ((k, a, d) # ?es) = (k # ks) @ (if length es < bc_size c then ys else butlast ys)"
        by simp
      then show ?thesis unfolding recent_rep [OF c0(2)] R by blast
    qed
  qed (use c' c0(3) ha st'(2,3) in simp_all)
qed

text \<open>Changing the data of a cached block that is or becomes dirty.\<close>

lemma wb_put:
  assumes ok: "wb_ok off K F es st" and k: "map_of es k = Some (a, d)" and p: "block_put a x st = Some st'"
  shows "wb_ok off K F (lru_mark k True es) st'"
    and "wb_content off es st' = (wb_content off es st)(k \<mapsto> clip BLOCK_SIZE x)"
proof -
  have e: "(k, a, d) \<in> set es" using k by (rule map_of_SomeD)
  obtain b where b: "heap st a = Some b" and st': "st' = st\<lparr>heap := (heap st)(a \<mapsto> b\<lparr>blk_data := x\<rparr>)\<rparr>"
    using p by (auto simp: block_put_def bind_eq_Some_conv)
  have other: "b' \<noteq> a" if "(j, b', d') \<in> set es" "j \<noteq> k" for j b' d'
    using ok e that unfolding wb_ok_def distinct_map inj_on_def by force
  have off: "blk_offset b = off k" using ok e b by (force simp: wb_ok_def wb_entry_def)
  have "wb_entry off F st' (i, c, f \<or> i = k)" if "(i, c, f) \<in> set es" for i c f
  proof (cases "i = k")
    case True
    then have "c = a" using ok e that by (auto simp: wb_ok_def dest: eq_key_imp_eq_value)
    then show ?thesis using True off by (simp add: wb_entry_def st')
  next
    case False
    then show ?thesis using ok that other [OF that] by (force simp: wb_ok_def wb_entry_def st' on_device_def)
  qed
  then have "\<forall>e \<in> set (lru_mark k True es). wb_entry off F st' e" by (auto simp: lru_mark_def)
  moreover have "\<forall>a. brk st' \<le> a \<longrightarrow> heap st' a = None" using ok b by (auto simp: wb_ok_def st')
  moreover have "wb_ok off K F (lru_mark k True es) st" by (rule wb_mark [OF ok])
  moreover have "device st' = device st" by (simp add: st')
  ultimately show "wb_ok off K F (lru_mark k True es) st'" by (simp add: wb_ok_def)
  have "wb_content off es st' j = ((wb_content off es st)(k \<mapsto> clip BLOCK_SIZE x)) j" for j
  proof (cases "j = k")
    case True
    then show ?thesis using k by (simp add: wb_content_def st')
  next
    case False
    then have "fst w \<noteq> a" if "map_of es j = Some w" for w
      using other [of j "fst w" "snd w"] that by (auto dest: map_of_SomeD)
    then show ?thesis using False by (auto simp: wb_content_def st' split: option.split)
  qed
  then show "wb_content off es st' = (wb_content off es st)(k \<mapsto> clip BLOCK_SIZE x)" by (rule ext)
qed

lemma cached_modify: "bc_rep c es \<Longrightarrow> cached (bc_modify k c) = cached c"
  by (auto simp: fun_eq_iff cached_def bc_modify_def bc_upd_def intro!: option.map_cong split: option.split)

lemma cache_modify:
  assumes "cache_ok off K F c st"
  shows "cache_ok off K F (bc_modify k c) st" "cached (bc_modify k c) = cached c" "bc_size (bc_modify k c) = bc_size c"
proof -
  obtain es where es: "bc_rep c es" "wb_ok off K F es st" using assms by (auto simp: cache_ok_def)
  show sz: "bc_size (bc_modify k c) = bc_size c" by (simp add: bc_modify_def bc_upd_def split: option.split)
  show "cached (bc_modify k c) = cached c" by (rule cached_modify [OF es(1)])
  show "cache_ok off K F (bc_modify k c) st"
    using assms sz bc_modify_refines [OF es(1)] wb_mark(1) [OF es(2)] by (auto simp: cache_ok_def)
qed

lemma cache_put:
  assumes ok: "cache_ok off K F c st" and k: "cached c k = Some a" and p: "block_put a x st = Some st'"
  shows "cache_ok off K F (bc_modify k c) st'"
    and "cache_content off (bc_modify k c) st' = (cache_content off c st)(k \<mapsto> clip BLOCK_SIZE x)"
proof -
  obtain es where es: "bc_rep c es" "wb_ok off K F es st" using ok by (auto simp: cache_ok_def)
  obtain d where d: "map_of es k = Some (a, d)"
    using k cached_rep [OF es(1)] by (auto simp: map_option_eq_Some)
  have sz: "bc_size (bc_modify k c) = bc_size c" by (simp add: bc_modify_def bc_upd_def split: option.split)
  note R = bc_modify_refines [OF es(1), of k]
  show "cache_ok off K F (bc_modify k c) st'"
    using ok sz R wb_put(1) [OF es(2) d p] by (auto simp: cache_ok_def)
  show "cache_content off (bc_modify k c) st' = (cache_content off c st)(k \<mapsto> clip BLOCK_SIZE x)"
    unfolding cache_content_cong [OF cached_modify [OF es(1)]] cache_content_rep [OF es(1)]
    by (rule wb_put(2) [OF es(2) d p])
qed

lemma cache_put_marked:
  assumes "cache_ok off K F c st" "cached c k = Some a" "marked c k" "block_put a x st = Some st'"
  shows "cache_ok off K F c st'" "cache_content off c st' = (cache_content off c st)(k \<mapsto> clip BLOCK_SIZE x)"
  using cache_put [OF assms(1,2,4)] unfolding marked_modify [OF assms(3)] by blast+

lemma modify_marked: "cached c k \<noteq> None \<Longrightarrow> marked (bc_modify k c) k"
  by (auto simp: marked_def cached_def bc_modify_def bc_upd_def split: option.split)

lemma recent_modify:
  assumes "cache_ok off K F c st"
  shows "recent (bc_modify k c) ks = recent c ks"
proof -
  obtain es where es: "bc_rep c es" using assms(1) by (auto simp: cache_ok_def)
  have "map fst (lru_mark k True es) = map fst es" by (auto simp: lru_mark_def)
  then show ?thesis unfolding recent_rep [OF bc_modify_refines [OF es]] recent_rep [OF es] by simp
qed

text \<open>A fresh block that is marked is like any other block.\<close>

lemma cache_ok_unfresh:
  assumes "cache_ok off K F c st" "marked c k"
  shows "cache_ok off K (F - {k}) c st"
proof -
  obtain es where es: "bc_rep c es" "wb_ok off K F es st" "0 < bc_size c" using assms by (auto simp: cache_ok_def)
  obtain a where a: "map_of es k = Some (a, True)" using assms(2) marked_rep [OF es(1)] by blast
  have "wb_entry off (F - {k}) st e" if "e \<in> set es" for e
  proof (cases "fst e = k")
    case True
    then have "snd e = (a, True)" using a that es(2) by (cases e) (auto simp: wb_ok_def)
    then show ?thesis using es(2) that by (force simp: wb_ok_def wb_entry_def)
  next
    case False
    then show ?thesis using es(2) that by (force simp: wb_ok_def wb_entry_def)
  qed
  with es show ?thesis by (auto simp: cache_ok_def wb_ok_def)
qed

lemma cache_ok_drop_fresh:
  assumes "cache_ok off K F c st" "\<And>k. k \<in> F - F' \<Longrightarrow> cached c k = None"
  shows "cache_ok off K F' c st"
proof -
  obtain es where es: "bc_rep c es" "wb_ok off K F es st" "0 < bc_size c" using assms by (auto simp: cache_ok_def)
  have "wb_entry off F' st e" if "e \<in> set es" for e
  proof -
    have "map_of es (fst e) \<noteq> None" using that by (simp add: map_of_eq_None_iff)
    then have "cached c (fst e) \<noteq> None" by (simp add: cached_rep [OF es(1)])
    then have "fst e \<notin> F - F'" by (rule contrapos_nn) (rule assms(2))
    then show ?thesis using es(2) that by (force simp: wb_ok_def wb_entry_def)
  qed
  with es show ?thesis by (auto simp: cache_ok_def wb_ok_def)
qed

lemma cache_ok_more_fresh: "cache_ok off K F c st \<Longrightarrow> F \<subseteq> F' \<Longrightarrow> cache_ok off K F' c st"
  by (erule cache_ok_drop_fresh) auto

lemma cache_remove:
  assumes ok: "cache_ok off K F c st"
  obtains c' st' where "bc_remove k c st = Some (c', st')" "cache_ok off K F c' st'" "cached c' = (cached c)(k := None)"
    "keeps (\<lambda>j. j \<in> K \<and> j \<noteq> k) (cache_content off c st) (cache_content off c' st')"
    "ndebug st' = ndebug st" "bc_size c' = bc_size c"
proof -
  obtain es where es: "bc_rep c es" "wb_ok off K F es st" "0 < bc_size c" using ok by (auto simp: cache_ok_def)
  obtain c' where c': "bc_remove k c st = (case map_of es k of None \<Rightarrow> Some (c', st)
        | Some v \<Rightarrow> map_option (\<lambda>st'. (c', st')) (retire v st))"
    "bc_rep c' (AList.delete k es)" "bc_size c' = bc_size c"
    by (rule bc_remove_refines [OF es(1)])
  have cd: "cached c' = (cached c)(k := None)"
    by (rule ext) (simp add: cached_rep [OF es(1)] cached_rep [OF c'(2)] AList.delete_conv')
  show ?thesis
  proof (cases "map_of es k")
    case None
    then have del: "AList.delete k es = es" by (simp add: AList.delete_id map_of_eq_None_iff)
    show ?thesis
      by (rule that [of c' st]) (use None c' es cd in \<open>auto simp: cache_ok_def del cache_content_rep [OF es(1)]
        cache_content_rep [OF c'(2)[unfolded del]]\<close>)
  next
    case (Some v)
    obtain st' where st': "retire v st = Some st'" "brk st' = brk st" "ndebug st' = ndebug st"
      "wb_ok off K F (AList.delete k es) st'"
      "keeps (\<lambda>j. j \<in> K \<and> (j \<noteq> k \<or> snd v \<or> k \<notin> F)) (wb_content off es st) (wb_content off (AList.delete k es) st')"
      by (rule wb_retire [OF es(2) Some]) (rule that)
    have "keeps (\<lambda>j. j \<in> K \<and> j \<noteq> k) (cache_content off c st) (cache_content off c' st')"
      using st'(5) unfolding cache_content_rep [OF es(1)] cache_content_rep [OF c'(2)] keeps_def by blast
    then show ?thesis
      by (intro that [of c' st']) (use Some c' es cd st' in \<open>auto simp: cache_ok_def\<close>)
  qed
qed

text \<open>\<open>get\<close> with the dirty flag, followed by a change of the data.\<close>

lemma lru_touch_mark: "distinct (map fst es) \<Longrightarrow> lru_mark k True (lru_touch k True es) = lru_touch k True es"
proof -
  have "lru_mark k True (AList.delete k es) = AList.delete k es"
    by (rule lru_mark_absent) (simp add: AList.delete_conv')
  moreover have "map_of es k = None \<Longrightarrow> lru_mark k True es = es" by (rule lru_mark_absent)
  ultimately show ?thesis by (auto simp: lru_touch_def split: option.split)
qed

lemma cache_get_put:
  assumes ok: "cache_ok off K F c st" and k: "cached c k = Some a" and p: "block_put a x st = Some st'"
  obtains c' where "bc_get k True c st = Some (Some a, c')" "cache_ok off K F c' st'"
    "cache_content off c' st' = (cache_content off c st)(k \<mapsto> clip BLOCK_SIZE x)" "bc_size c' = bc_size c"
    "cached c' = cached c"
proof -
  obtain es where es: "bc_rep c es" "wb_ok off K F es st" "0 < bc_size c" using ok by (auto simp: cache_ok_def)
  obtain c' where c': "bc_get k True c st = Some (map_option fst (map_of es k), c')"
    "bc_rep c' (lru_touch k True es)" "bc_size c' = bc_size c"
    by (rule bc_get_refines [OF es(1)])
  obtain d where d: "map_of es k = Some (a, d)"
    using k cached_rep [OF es(1)] by (auto simp: map_option_eq_Some)
  have t: "wb_ok off K F (lru_touch k True es) st" by (rule wb_touch [OF es(2)])
  have dt: "map_of (lru_touch k True es) k = Some (a, True)" using d by (simp add: lru_touch_def)
  have "wb_ok off K F (lru_touch k True es) st'"
    using wb_put(1) [OF t dt p] es(2) by (simp add: lru_touch_mark wb_ok_def)
  then have "cache_ok off K F c' st'" using c' es(3) by (auto simp: cache_ok_def)
  moreover have "cache_content off c' st' = (cache_content off c st)(k \<mapsto> clip BLOCK_SIZE x)"
    unfolding cache_content_rep [OF c'(2)] cache_content_rep [OF es(1)]
    using wb_put(2) [OF t dt p] wb_touch(2) [OF es(2)] by simp
  moreover have "cached c' j = cached c j" for j
    unfolding cached_rep [OF c'(2)] cached_rep [OF es(1)]
    by (auto simp: lru_touch_def AList.delete_conv' split: option.split)
  ultimately show ?thesis using c' d by (intro that [of c']) auto
qed

section \<open>Flushing\<close>

text \<open>
  What flushing the nodes of \<open>M\<close> does: they are clean afterwards, nothing else changes in the cache,
  and no content is lost.
\<close>

definition flushed ::
  "(u32 \<Rightarrow> nat) \<Rightarrow> u32 set \<Rightarrow> u32 set \<Rightarrow> addr list \<Rightarrow> addr set \<Rightarrow> block_cache \<times> store \<Rightarrow> block_cache \<times> store \<Rightarrow> bool" where
  "flushed off K F ns M = (\<lambda>(c, st) (c', st').
     bc_ok c' ns \<and> bc_size c' = bc_size c \<and> bc_map c' = bc_map c \<and>
     wb_ok off K F (map (payload \<circ> bc_nodes c') ns) st' \<and>
     keeps (\<lambda>j. j \<in> K) (wb_content off (map (payload \<circ> bc_nodes c) ns) st)
       (wb_content off (map (payload \<circ> bc_nodes c') ns) st') \<and>
     (\<forall>n. bc_nodes c' n = (bc_nodes c n)\<lparr>bn_dirty := bn_dirty (bc_nodes c n) \<and> n \<notin> M\<rparr>) \<and>
     keeps (\<lambda>j. j \<in> K \<and> j \<notin> (\<lambda>n. bn_index (bc_nodes c n)) ` {n \<in> M. bn_dirty (bc_nodes c n)}) (stored off st) (stored off st') \<and>
     heap st' = heap st \<and> brk st' = brk st \<and> ndebug st' = ndebug st)"

lemma flushed_refl:
  "bc_ok c ns \<Longrightarrow> wb_ok off K F (map (payload \<circ> bc_nodes c) ns) st \<Longrightarrow>
   \<forall>n \<in> M. \<not> bn_dirty (bc_nodes c n) \<Longrightarrow> flushed off K F ns M (c, st) (c, st)"
proof -
  assume a: "bc_ok c ns" "wb_ok off K F (map (payload \<circ> bc_nodes c) ns) st" "\<forall>n \<in> M. \<not> bn_dirty (bc_nodes c n)"
  have "bc_nodes c n = (bc_nodes c n)\<lparr>bn_dirty := bn_dirty (bc_nodes c n) \<and> n \<notin> M\<rparr>" for n
    using a(3) by (cases "bc_nodes c n") auto
  then show ?thesis using a unfolding flushed_def by simp
qed

lemma flushed_trans:
  "flushed off K F ns M s s' \<Longrightarrow> flushed off K F ns M' s' s'' \<Longrightarrow> flushed off K F ns (M \<union> M') s s''"
proof -
  obtain c st c' st' c'' st'' where [simp]: "s = (c, st)" "s' = (c', st')" "s'' = (c'', st'')"
    by (cases s, cases s', cases s'')
  assume a: "flushed off K F ns M s s'" "flushed off K F ns M' s' s''"
  have n: "bc_nodes c' n = (bc_nodes c n)\<lparr>bn_dirty := bn_dirty (bc_nodes c n) \<and> n \<notin> M\<rparr>" for n using a(1) by (simp add: flushed_def)
  have "keeps (\<lambda>j. j \<in> K \<and> j \<notin> (\<lambda>n. bn_index (bc_nodes c n)) ` {n \<in> M. bn_dirty (bc_nodes c n)}) (stored off st) (stored off st')"
    "keeps (\<lambda>j. j \<in> K \<and> j \<notin> (\<lambda>n. bn_index (bc_nodes c' n)) ` {n \<in> M'. bn_dirty (bc_nodes c' n)}) (stored off st') (stored off st'')"
    using a by (simp_all add: flushed_def)
  then have "keeps (\<lambda>j. j \<in> K \<and> j \<notin> (\<lambda>n. bn_index (bc_nodes c n)) ` {n \<in> M \<union> M'. bn_dirty (bc_nodes c n)}) (stored off st) (stored off st'')"
    unfolding keeps_def n by (simp add: image_iff) metis
  with a show ?thesis by (auto simp: flushed_def intro: keeps_trans)
qed

lemma flushed_step:
  assumes ok: "bc_ok c ns" and wb: "wb_ok off K F (map (payload \<circ> bc_nodes c) ns) st"
    and n: "n \<in> set ns" "bn_dirty (bc_nodes c n)"
  obtains st' where "block_flush (bn_block (bc_nodes c n)) st = Some (0, st')"
    "flushed off K F ns {n} (c, st) (bc_upd n (\<lambda>x. x\<lparr>bn_dirty := False\<rparr>) c, st')"
proof -
  let ?c = "bc_upd n (\<lambda>x. x\<lparr>bn_dirty := False\<rparr>) c" and ?es = "\<lambda>c. map (payload \<circ> bc_nodes c) ns"
  let ?k = "bn_index (bc_nodes c n)" and ?a = "bn_block (bc_nodes c n)"
  have e: "(?k, ?a, True) \<in> set (?es c)" using n by (auto simp: payload_def image_iff)
  obtain st1 where st1: "block_flush ?a st = Some (0, st1)" "heap st1 = heap st" "brk st1 = brk st"
    "ndebug st1 = ndebug st" "wb_ok off K F (?es c) st1"
    "keeps (\<lambda>j. j \<in> K) (wb_content off (?es c) st) (wb_content off (?es c) st1)"
    "\<And>b. heap st ?a = Some b \<Longrightarrow> on_device (off ?k) (blk_data b) st1"
    "keeps (\<lambda>j. j \<in> K \<and> j \<noteq> ?k) (stored off st) (stored off st1)"
    by (rule wb_flush [OF wb e]) (rule that)
  have ok1: "bc_ok ?c ns" using ok by (rule bc_ok_dirty)
  have P: "payload (bc_nodes ?c x) = (if x = n then (?k, ?a, False) else payload (bc_nodes c x))" for x
    by (simp add: bc_upd_def payload_def)
  have fs: "map fst (?es ?c) = map fst (?es c)" "map (fst \<circ> snd) (?es ?c) = map (fst \<circ> snd) (?es c)"
    by (auto simp: bc_upd_def payload_def)
  have "wb_entry off F st1 (payload (bc_nodes ?c x))" if "x \<in> set ns" for x
  proof -
    have "wb_entry off F st1 (payload (bc_nodes c x))" using st1(5) that by (simp add: wb_ok_def)
    then show ?thesis using st1(2,7) by (auto simp: P) (auto simp: wb_entry_def payload_def)
  qed
  then have "\<forall>e \<in> set (?es ?c). wb_entry off F st1 e" by auto
  moreover have "fst ` set (?es ?c) = fst ` set (?es c)" using arg_cong [OF fs(1), of set] by (simp only: set_map)
  ultimately have ok2: "wb_ok off K F (?es ?c) st1"
    using st1(5) fs unfolding wb_ok_def by (intro conjI) (simp_all only: simp_thms, blast)
  have "map_option fst (map_of (?es ?c) k) = map_option fst (map_of (?es c) k)" for k
    unfolding bc_ok_lookup [OF ok1] bc_ok_lookup [OF ok]
    by (simp add: bc_upd_def option.map_comp comp_def) (rule option.map_cong, auto)
  then have "wb_content off (?es ?c) st1 k = wb_content off (?es c) st1 k" for k
    unfolding wb_content_fst by simp
  then have "wb_content off (?es ?c) st1 = wb_content off (?es c) st1" by (rule ext)
  moreover have "{x \<in> {n}. bn_dirty (bc_nodes c x)} = {n}" using n(2) by auto
  ultimately show ?thesis using that [OF st1(1)] ok1 ok2 st1(2,3,4,6,8) by (auto simp: flushed_def bc_upd_def)
qed

lemma bc_flush_loop_ok:
  assumes "bc_ok c ns" "wb_ok off K F (map (payload \<circ> bc_nodes c) ns) st" "\<forall>(k, n) \<in> set m. n \<in> set ns"
    and sel: "\<And>x. sel (x\<lparr>bn_dirty := False\<rparr>) = sel x"
  shows "\<exists>c' st'. bc_flush_loop sel m c st = Some (c', st') \<and>
           flushed off K F ns {n \<in> snd ` set m. sel (bc_nodes c n)} (c, st) (c', st')"
  using assms(1-3)
proof (induction m arbitrary: c st)
  case Nil
  then show ?case using flushed_refl [OF Nil.prems(1,2), of "{}"] by simp
next
  case (Cons p m)
  obtain j n where p: "p = (j, n)" by force
  have n: "n \<in> set ns" and m: "\<forall>(k, n) \<in> set m. n \<in> set ns" using Cons.prems(3) by (simp_all add: p)
  let ?M = "\<lambda>m c. {n \<in> snd ` set m. sel (bc_nodes c n)}"
  show ?case
  proof (cases "sel (bc_nodes c n) \<and> bn_dirty (bc_nodes c n)")
    case False
    obtain c' st' where I: "bc_flush_loop sel m c st = Some (c', st')" "flushed off K F ns (?M m c) (c, st) (c', st')"
      using Cons.IH [OF Cons.prems(1,2) m] by blast
    let ?N = "if sel (bc_nodes c n) then {n} else {}"
    have "flushed off K F ns ?N (c, st) (c, st)" by (rule flushed_refl [OF Cons.prems(1,2)]) (use False in auto)
    from flushed_trans [OF this I(2)] have "flushed off K F ns (?N \<union> ?M m c) (c, st) (c', st')" .
    moreover have "?N \<union> ?M m c = ?M (p # m) c" by (auto simp: p)
    ultimately show ?thesis using I(1) False by (auto simp: p)
  next
    case True
    let ?c = "bc_upd n (\<lambda>x. x\<lparr>bn_dirty := False\<rparr>) c"
    obtain st1 where st1: "block_flush (bn_block (bc_nodes c n)) st = Some (0, st1)"
      "flushed off K F ns {n} (c, st) (?c, st1)"
      using flushed_step [OF Cons.prems(1,2) n] True by metis
    then have ok: "bc_ok ?c ns" "wb_ok off K F (map (payload \<circ> bc_nodes ?c) ns) st1"
      by (simp_all add: flushed_def)
    obtain c' st' where I: "bc_flush_loop sel m ?c st1 = Some (c', st')" "flushed off K F ns (?M m ?c) (?c, st1) (c', st')"
      using Cons.IH [OF ok m] by blast
    have "{n} \<union> ?M m ?c = ?M (p # m) c" using True sel by (auto simp: p bc_upd_def)
    then have "flushed off K F ns (?M (p # m) c) (c, st) (c', st')"
      using flushed_trans [OF st1(2) I(2)] by simp
    then show ?thesis using True st1(1) I(1) by (auto simp: p)
  qed
qed

lemma flushed_stored:
  assumes "bc_ok c ns" "flushed off K F ns M (c, st) (c', st')" "M \<subseteq> set ns"
  shows "keeps (\<lambda>j. j \<in> K \<and> \<not> marked c j) (stored off st) (stored off st')"
proof -
  have "marked c (bn_index (bc_nodes c n))" if "n \<in> M" "bn_dirty (bc_nodes c n)" for n
    using bc_ok_index [OF assms(1), of n] that assms(3) by (auto simp: marked_def)
  then show ?thesis using assms(2) unfolding flushed_def keeps_def by auto
qed

lemma bc_ok_mapD: "bc_ok c ns \<Longrightarrow> map_of (bc_map c) k = Some n \<Longrightarrow> n \<in> set ns \<and> bn_index (bc_nodes c n) = k"
  by (auto simp: bc_ok_def dest: map_of_SomeD)

text \<open>After a flush, a block outside \<open>F\<close> that was selected, or is not cached, is on the device.\<close>

lemma flushed_clean:
  assumes ok: "bc_ok c ns" and f: "flushed off K F ns M (c, st) (c', st')"
    and k: "k \<notin> F" "cache_content off c' st' k = Some x" "\<And>n. map_of (bc_map c) k = Some n \<Longrightarrow> n \<in> M"
  shows "stored off st' k = Some x"
proof -
  let ?es = "map (payload \<circ> bc_nodes c') ns"
  have ok': "bc_ok c' ns" "bc_map c' = bc_map c" using f by (simp_all add: flushed_def)
  have R: "bc_rep c' ?es" using ok' by (auto simp: bc_rep_def)
  have wb: "wb_ok off K F ?es st'" using f by (simp add: flushed_def)
  show ?thesis
  proof (cases "map_of ?es k")
    case None
    then show ?thesis using k(2) by (simp add: cache_content_rep [OF R] wb_content_def stored_def)
  next
    case (Some v)
    then obtain n where n: "map_of (bc_map c) k = Some n" "v = snd (payload (bc_nodes c' n))"
      unfolding bc_ok_lookup [OF ok'(1)] ok'(2) by (auto simp: payload_def)
    have "\<not> snd v" using k(3) [OF n(1)] f n(2) by (simp add: flushed_def payload_def)
    moreover have "wb_entry off F st' (k, v)" using wb map_of_SomeD [OF Some] unfolding wb_ok_def by blast
    ultimately show ?thesis using k Some
      by (auto simp: wb_entry_def on_device_def cache_content_rep [OF R] wb_content_def stored_def)
  qed
qed

text \<open>A dirty block need not be on the device, so it need not be exempt either.\<close>

lemma cache_ok_marked:
  assumes "cache_ok off K F c st"
  shows "cache_ok off K (F - {k. marked c k}) c st"
proof -
  obtain es where es: "bc_rep c es" "wb_ok off K F es st" "0 < bc_size c" using assms by (auto simp: cache_ok_def)
  have "wb_entry off (F - {k. marked c k}) st e" if "e \<in> set es" for e
  proof -
    have "wb_entry off F st e" "map_of es (fst e) = Some (snd e)" using es(2) that by (simp_all add: wb_ok_def)
    then show ?thesis by (cases e) (auto simp: wb_entry_def marked_rep [OF es(1)])
  qed
  then show ?thesis using es by (auto simp: cache_ok_def wb_ok_def)
qed

text \<open>An insertion writes at the place of no block that is not cached.\<close>

lemma cache_insert_stored:
  assumes ok: "cache_ok off K F c st" and i: "bc_insert k a d c st = Some (c', st')" "cached c k = None"
  shows "marked c' k \<longleftrightarrow> d" "keeps (\<lambda>j. j \<in> K \<and> cached c j = None) (stored off st) (stored off st')"
proof -
  obtain es where es: "bc_rep c es" "wb_ok off K F es st" "0 < bc_size c" using ok by (auto simp: cache_ok_def)
  have kn: "map_of es k = None" using i(2) cached_rep [OF es(1)] by simp
  obtain c0 where c0: "bc_insert k a d c st = map_option (\<lambda>st'. (c0, st')) (lru_evict (bc_size c) es st)"
    "bc_rep c0 (lru_insert (bc_size c) k a d es)"
    by (rule bc_insert_new_refines [OF es(1,3) kn])
  have e: "c0 = c'" "lru_evict (bc_size c) es st = Some st'" using c0(1) unfolding i(1) by (cases "lru_evict (bc_size c) es st", simp_all)+
  show "marked c' k \<longleftrightarrow> d" using marked_rep [OF c0(2), of k] by (simp add: e(1) lru_insert_def)
  show "keeps (\<lambda>j. j \<in> K \<and> cached c j = None) (stored off st) (stored off st')"
  proof (cases "length es < bc_size c")
    case False
    then obtain ys q b m where q: "es = ys @ [(q, b, m)]" using es(3) by (metis append_butlast_last_id list.size(3) surj_pair)
    then have r: "retire (b, m) st = Some st'" using e(2) False by (simp add: lru_evict_def)
    have qc: "cached c q \<noteq> None" unfolding cached_rep [OF es(1)] by (simp add: q map_add_def split: option.split)
    have qs: "(q, b, m) \<in> set es" by (simp add: q)
    obtain st1 where st1: "block_flush b st = Some (0, st1)" "keeps (\<lambda>j. j \<in> K \<and> j \<noteq> q) (stored off st) (stored off st1)"
      by (rule wb_flush [OF es(2) qs])
    have "device st' = (if m then device st1 else device st)" using r st1(1)
      by (auto simp: retire_def block_delete_def split: bind_splits if_splits)
    then show ?thesis using st1(2) qc by (auto simp: keeps_def stored_def split: if_splits)
  qed (use e(2) in \<open>simp add: lru_evict_def\<close>)
qed

text \<open>Flushing the whole cache puts every content on the device.\<close>

lemma cache_flush:
  assumes ok: "cache_ok off K F c st"
  obtains c' st' where "bc_flush c st = Some (c', st')" "cache_ok off K F c' st'" "cached c' = cached c"
    "heap st' = heap st" "brk st' = brk st" "ndebug st' = ndebug st" "bc_size c' = bc_size c"
    "keeps (\<lambda>j. j \<in> K) (cache_content off c st) (cache_content off c' st')"
    "keeps (\<lambda>j. j \<in> K \<and> j \<notin> F) (cache_content off c st) (stored off st')"
    "keeps (\<lambda>j. j \<in> K \<and> \<not> marked c j) (stored off st) (stored off st')"
proof -
  obtain es ns where es: "bc_rep c es" "wb_ok off K F es st" "0 < bc_size c" "bc_ok c ns"
    and e: "es = map (payload \<circ> bc_nodes c) ns"
    using ok by (auto simp: cache_ok_def bc_rep_def)
  have m: "\<forall>(k, n) \<in> set (bc_map c). n \<in> set ns"
    using es(4) by (auto simp: bc_ok_def)
  obtain c' st' where f: "bc_flush c st = Some (c', st')"
    "flushed off K F ns (snd ` set (bc_map c)) (c, st) (c', st')"
    using bc_flush_loop_ok [OF es(4) es(2) [unfolded e] m, of "\<lambda>_. True"] by (auto simp: bc_flush_def)
  let ?es = "map (payload \<circ> bc_nodes c') ns"
  have R: "bc_rep c' ?es" using f(2) by (auto simp: flushed_def bc_rep_def)
  have wb: "wb_ok off K F ?es st'" using f(2) by (simp add: flushed_def)
  have clean: "\<not> bn_dirty (bc_nodes c' n)" if "n \<in> set ns" for n
    using f(2) bc_ok_index [OF es(4) that] by (force simp: flushed_def dest: map_of_SomeD)
  have keep: "keeps (\<lambda>j. j \<in> K) (cache_content off c st) (cache_content off c' st')"
    using f(2) unfolding cache_content_rep [OF es(1)] cache_content_rep [OF R] e by (simp add: flushed_def)
  have "stored off st' k = Some x" if k: "k \<in> K" "k \<notin> F" "cache_content off c' st' k = Some x" for k x
    by (rule flushed_clean [OF es(4) f(2) k(2,3)]) (force dest: map_of_SomeD)
  then have "keeps (\<lambda>j. j \<in> K \<and> j \<notin> F) (cache_content off c st) (stored off st')"
    using keep by (auto simp: keeps_def stored_def)
  moreover have "cached c' = cached c"
    using f(2) by (auto simp: flushed_def cached_def fun_eq_iff intro!: option.map_cong)
  moreover have "keeps (\<lambda>j. j \<in> K \<and> \<not> marked c j) (stored off st) (stored off st')"
    by (rule flushed_stored [OF es(4) f(2)]) (use m in auto)
  ultimately show ?thesis using f R wb es(3) keep
    by (intro that [of c' st']) (auto simp: flushed_def cache_ok_def)
qed

text \<open>Flushing with an inode number writes the block that happens to have that number, if any.\<close>

lemma cache_flush_index:
  assumes ok: "cache_ok off K F c st"
  obtains c' st' where "bc_flush_index i c st = Some (c', st')" "cache_ok off K F c' st'" "cached c' = cached c"
    "keeps (\<lambda>j. j \<in> K) (cache_content off c st) (cache_content off c' st')"
    "keeps (\<lambda>j. j \<in> K \<and> j \<noteq> i) (stored off st) (stored off st')"
    "i \<in> K \<Longrightarrow> i \<notin> F \<Longrightarrow> keeps (\<lambda>j. j = i) (cache_content off c st) (stored off st')"
proof -
  obtain es ns where es: "bc_rep c es" "wb_ok off K F es st" "0 < bc_size c" "bc_ok c ns"
    and e: "es = map (payload \<circ> bc_nodes c) ns"
    using ok by (auto simp: cache_ok_def bc_rep_def)
  have m: "\<forall>(k, n) \<in> set (bc_map c). n \<in> set ns"
    using es(4) by (auto simp: bc_ok_def)
  let ?M = "{n \<in> snd ` set (bc_map c). bn_index (bc_nodes c n) = i}"
  obtain c' st' where f: "bc_flush_index i c st = Some (c', st')" "flushed off K F ns ?M (c, st) (c', st')"
    using bc_flush_loop_ok [OF es(4) es(2) [unfolded e] m, of "\<lambda>x. bn_index x = i"] by (auto simp: bc_flush_index_def)
  have R: "bc_rep c' (map (payload \<circ> bc_nodes c') ns)" using f(2) by (auto simp: flushed_def bc_rep_def)
  have "keeps (\<lambda>j. j \<in> K) (cache_content off c st) (cache_content off c' st')"
    using f(2) unfolding cache_content_rep [OF es(1)] cache_content_rep [OF R] e by (simp add: flushed_def)
  moreover have "keeps (\<lambda>j. j \<in> K \<and> j \<noteq> i) (stored off st) (stored off st')"
    using f(2) by (auto simp: flushed_def keeps_def)
  moreover have "cached c' = cached c"
    using f(2) by (auto simp: flushed_def cached_def fun_eq_iff intro!: option.map_cong)
  moreover have "keeps (\<lambda>j. j = i) (cache_content off c st) (stored off st')" if "i \<in> K" "i \<notin> F"
    unfolding keeps_def
  proof (intro allI impI)
    fix j x assume j: "j = i" "cache_content off c st j = Some x"
    then have "cache_content off c' st' j = Some x" using calculation(1) that(1) by (auto simp: keeps_def)
    then show "stored off st' j = Some x"
      by (rule flushed_clean [OF es(4) f(2), rotated]) (use bc_ok_mapD [OF es(4)] that(2) j(1) in \<open>force dest: map_of_SomeD\<close>)+
  qed
  ultimately show ?thesis using f R es(3)
    by (intro that [of c' st']) (auto simp: flushed_def cache_ok_def)
qed

section \<open>The contract the file system relies on\<close>

text \<open>
  \<open>content c st k\<close> is what block \<open>k\<close> contains, wherever it is kept; \<open>holds c k\<close> the object in which it
  is cached. Looking a block up changes no content, inserting a block that was read from its place
  on the device changes no content, and neither does creating another object. Blocks of \<open>F\<close> are
  exempt: they are clean in the cache without being on the device.
\<close>

definition store_add :: "block \<Rightarrow> store \<Rightarrow> store" where
  "store_add b st = st\<lparr>heap := (heap st)(brk st \<mapsto> b), brk := Suc (brk st)\<rparr>"

locale write_back =
  fixes ok :: "'c \<Rightarrow> store \<Rightarrow> bool"
    and content :: "'c \<Rightarrow> store \<Rightarrow> u32 \<Rightarrow> bytes option"
    and holds :: "'c \<Rightarrow> u32 \<Rightarrow> addr option"
    and cap :: "'c \<Rightarrow> nat" and newest :: "'c \<Rightarrow> u32 list \<Rightarrow> bool" and dirty :: "'c \<Rightarrow> u32 \<Rightarrow> bool"
    and place :: "u32 \<Rightarrow> nat"
    and K :: "u32 set" and F :: "u32 set"
    and get :: "u32 \<Rightarrow> bool \<Rightarrow> 'c \<Rightarrow> store \<Rightarrow> (addr option \<times> 'c) option"
    and ins :: "u32 \<Rightarrow> addr \<Rightarrow> bool \<Rightarrow> 'c \<Rightarrow> store \<Rightarrow> ('c \<times> store) option"
  assumes get_law: "ok c st \<Longrightarrow>
      \<exists>c'. get k d c st = Some (holds c k, c') \<and> ok c' st \<and> holds c' = holds c \<and> cap c' = cap c \<and>
        (holds c k \<noteq> None \<and> d \<longrightarrow> dirty c' k) \<and>
        (\<forall>ks. newest c ks \<longrightarrow> newest c' (if holds c k = None then ks else k # removeAll k ks))"
    and miss_law: "holds c k = None \<Longrightarrow> content c st k = disk_read (place k) BLOCK_SIZE (device st)"
    and hit_law: "holds c k = Some a \<Longrightarrow> content c st k = map_option (clip BLOCK_SIZE) (block_get a st)"
    and add_law: "ok c st \<Longrightarrow> ok c (store_add b st)"
    and live_law: "ok c st \<Longrightarrow> holds c k = Some a \<Longrightarrow> a < brk st"
    and ins_law: "ok c st \<Longrightarrow> k \<in> K \<Longrightarrow> holds c k = None \<Longrightarrow> heap st a = Some b \<Longrightarrow> blk_offset b = place k \<Longrightarrow>
      (\<And>j. holds c j \<noteq> Some a) \<Longrightarrow> d \<or> k \<in> F \<or> on_device (place k) (blk_data b) st \<Longrightarrow>
      \<exists>c' st'. ins k a d c st = Some (c', st') \<and> ok c' st' \<and> holds c' k = Some a \<and> heap st' a = Some b \<and>
        ndebug st' = ndebug st \<and> cap c' = cap c \<and> (d \<longrightarrow> dirty c' k) \<and>
        (\<forall>j. j \<noteq> k \<longrightarrow> holds c' j = holds c j \<or> holds c' j = None) \<and>
        (\<forall>ks. newest c ks \<longrightarrow> length ks < cap c \<longrightarrow> newest c' (k # ks)) \<and>
        keeps (\<lambda>j. j \<in> K \<and> (j \<notin> F \<or> holds c' j \<noteq> None) \<and> j \<noteq> k) (content c st) (content c' st')"
begin

lemma content_add:
  assumes "ok c st"
  shows "content c (store_add b st) = content c st"
proof
  fix k
  show "content c (store_add b st) k = content c st k"
    using live_law [OF assms, of k]
    by (cases "holds c k") (auto simp: miss_law hit_law store_add_def block_get_def)
qed

lemma content_cong: "holds c' = holds c \<Longrightarrow> content c' st = content c st"
proof
  fix k assume "holds c' = holds c"
  then show "content c' st k = content c st k" by (cases "holds c k") (simp_all add: miss_law hit_law)
qed

text \<open>A block that is not cached: reading it from its place and inserting it.\<close>

lemma load:
  assumes ok: "ok c st" and k: "k \<in> K" "holds c k = None" "content c st k = Some x"
  obtains a st1 c2 st2 where "block_new (place k) False st = Some (a, st1)" "ins k a d c st1 = Some (c2, st2)"
    "ok c2 st2" "holds c2 k = Some a" "content c2 st2 k = Some x" "ndebug st2 = ndebug st" "cap c2 = cap c"
    "d \<Longrightarrow> dirty c2 k" "\<And>j. j \<noteq> k \<Longrightarrow> holds c2 j = holds c j \<or> holds c2 j = None"
    "\<And>ks. newest c ks \<Longrightarrow> length ks < cap c \<Longrightarrow> newest c2 (k # ks)"
    "keeps (\<lambda>j. j \<in> K \<and> (j \<notin> F \<or> holds c2 j \<noteq> None)) (content c st) (content c2 st2)"
proof -
  have x: "disk_read (place k) BLOCK_SIZE (device st) = Some x" using k(2,3) miss_law by simp
  then have cx: "clip BLOCK_SIZE x = x" by (auto simp: disk_read_def bind_eq_Some_conv)
  let ?b = "\<lparr>blk_offset = place k, blk_data = x\<rparr>" and ?a = "brk st"
  let ?st = "store_add ?b st"
  have new: "block_new (place k) False st = Some (?a, ?st)"
    using x by (simp add: block_new_def block_data_def store_add_def)
  have nh: "holds c j \<noteq> Some ?a" for j using live_law [OF ok, of j ?a] by auto
  have "heap ?st ?a = Some ?b" "blk_offset ?b = place k" "d \<or> k \<in> F \<or> on_device (place k) (blk_data ?b) ?st"
    using x cx by (simp_all add: on_device_def store_add_def)
  from ins_law [OF add_law [OF ok] k(1,2) this(1,2) nh this(3)]
  obtain c2 st2 where i: "ins k ?a d c ?st = Some (c2, st2)" "ok c2 st2" "holds c2 k = Some ?a"
    "heap st2 ?a = Some ?b" "ndebug st2 = ndebug ?st" "cap c2 = cap c" "d \<longrightarrow> dirty c2 k"
    "\<forall>j. j \<noteq> k \<longrightarrow> holds c2 j = holds c j \<or> holds c2 j = None"
    "\<forall>ks. newest c ks \<longrightarrow> length ks < cap c \<longrightarrow> newest c2 (k # ks)"
    "keeps (\<lambda>j. j \<in> K \<and> (j \<notin> F \<or> holds c2 j \<noteq> None) \<and> j \<noteq> k) (content c ?st) (content c2 st2)"
    by blast
  have ck: "content c2 st2 k = Some x" using i(3,4) cx by (simp add: hit_law block_get_def)
  have "keeps (\<lambda>j. j \<in> K \<and> (j \<notin> F \<or> holds c2 j \<noteq> None)) (content c st) (content c2 st2)"
    using i(10) ck k(3) unfolding content_add [OF ok] keeps_def by metis
  then show ?thesis using that [OF new i(1,2,3) ck] i(5-9) by (simp add: store_add_def)
qed

end

lemma wb_add: "wb_ok off K F es st \<Longrightarrow> wb_ok off K F es (store_add b st)"
proof -
  assume ok: "wb_ok off K F es st"
  have "wb_entry off F (store_add b st) e" if "e \<in> set es" for e
  proof -
    have w: "wb_entry off F st e" using ok that unfolding wb_ok_def by blast
    then have "fst (snd e) \<noteq> brk st" using ok unfolding wb_entry_def wb_ok_def by force
    with w show ?thesis by (auto simp: wb_entry_def store_add_def on_device_def)
  qed
  with ok show ?thesis by (auto simp: wb_ok_def store_add_def)
qed

interpretation cache: write_back "cache_ok off K F" "cache_content off" cached bc_size recent marked off K F bc_get bc_insert
  for off K F
proof
  fix c st k d
  assume ok: "cache_ok off K F c st"
  show "\<exists>c'. bc_get k d c st = Some (cached c k, c') \<and> cache_ok off K F c' st \<and> cached c' = cached c \<and>
      bc_size c' = bc_size c \<and> (cached c k \<noteq> None \<and> d \<longrightarrow> marked c' k) \<and>
      (\<forall>ks. recent c ks \<longrightarrow> recent c' (if cached c k = None then ks else k # removeAll k ks))"
    by (rule cache_get [OF ok, of k d]) blast
  show "cache_ok off K F c (store_add b st)" for b
    using ok wb_add by (auto simp: cache_ok_def)
  show "a < brk st" if h: "cached c k = Some a" for a
  proof -
    obtain es where es: "bc_rep c es" "wb_ok off K F es st" using ok by (auto simp: cache_ok_def)
    obtain v where "map_of es k = Some v" "fst v = a"
      using h cached_rep [OF es(1), of k] by (cases "map_of es k") auto
    then have "(k, v) \<in> set es" by (simp add: map_of_SomeD)
    then have "heap st a \<noteq> None" using es(2) \<open>fst v = a\<close> by (force simp: wb_ok_def wb_entry_def)
    then show ?thesis using es(2) unfolding wb_ok_def by (meson not_le)
  qed
next
  fix c k st a
  show "cached c k = None \<Longrightarrow> cache_content off c st k = disk_read (off k) BLOCK_SIZE (device st)"
    by (simp add: cache_content_def)
  show "cached c k = Some a \<Longrightarrow> cache_content off c st k = map_option (clip BLOCK_SIZE) (block_get a st)"
    by (simp add: cache_content_def block_get_def option.map_comp comp_def)
next
  fix c st k a b d
  assume "cache_ok off K F c st" "k \<in> K" "cached c k = None" "heap st a = Some b" "blk_offset b = off k"
    "\<And>j. cached c j \<noteq> Some a" "d \<or> k \<in> F \<or> on_device (off k) (blk_data b) st"
  then show "\<exists>c' st'. bc_insert k a d c st = Some (c', st') \<and> cache_ok off K F c' st' \<and> cached c' k = Some a \<and>
      heap st' a = Some b \<and> ndebug st' = ndebug st \<and> bc_size c' = bc_size c \<and> (d \<longrightarrow> marked c' k) \<and>
      (\<forall>j. j \<noteq> k \<longrightarrow> cached c' j = cached c j \<or> cached c' j = None) \<and>
      (\<forall>ks. recent c ks \<longrightarrow> length ks < bc_size c \<longrightarrow> recent c' (k # ks)) \<and>
      keeps (\<lambda>j. j \<in> K \<and> (j \<notin> F \<or> cached c' j \<noteq> None) \<and> j \<noteq> k) (cache_content off c st) (cache_content off c' st')"
    by (rule cache_insert) blast
qed

section \<open>Properties\<close>

text \<open>
  C17 (safety): \<open>BlockCache::flush\<close> makes blocks durable. In a consistent cache on a sound device it
  always completes, changes the content of no block, and afterwards the device holds, at its place,
  the content of every block that is marked dirty, and of every block outside \<open>F\<close>. The set \<open>F\<close> is that
  of the blocks which are in the cache without ever having been written: such a block, when it is not
  dirty, is not written here either.
\<close>

theorem block_cache_flush_durable:
  assumes "cache_ok off K F c st"
  shows "\<exists>c' st'. bc_flush c st = Some (c', st') \<and>
           (\<forall>k x. k \<in> K \<and> cache_content off c st k = Some x \<longrightarrow>
              cache_content off c' st' k = Some x \<and>
              (marked c k \<or> k \<notin> F \<longrightarrow> disk_read (off k) BLOCK_SIZE (device st') = Some x))"
  by (rule cache_flush [OF cache_ok_marked [OF assms]]) (auto simp: keeps_def stored_def)

lemma demo_cache:
  obtains c where "bc_insert 7 0 True (BlockCache_new 3) demo_store = Some (c, demo_store)"
    "cache_ok (\<lambda>_. 0) {7} {} c demo_store" "cached c 7 = Some 0"
proof -
  have sz: "bc_size (BlockCache_new 3) = 3" by (simp add: BlockCache_new_def)
  obtain c where c: "bc_insert 7 0 True (BlockCache_new 3) demo_store = Some (c, demo_store)"
    "bc_rep c [(7, 0, True)]" "bc_size c = 3"
    using bc_insert_new_refines [OF bc_rep_new, of 3 7 0 True demo_store]
    unfolding sz by (auto simp: lru_evict_def lru_insert_def)
  have "wb_ok (\<lambda>_. 0) {7} {} [(7, 0, True)] demo_store"
    by (auto simp: wb_ok_def layout_def seekable_def wb_entry_def demo_store_def)
  with c show ?thesis by (intro that [of c]) (auto simp: cache_ok_def cached_rep)
qed

theorem block_cache_flush_durable_witness:
  "\<exists>c c' st'. bc_insert 7 0 True (BlockCache_new 3) demo_store = Some (c, demo_store) \<and>
     bc_flush c demo_store = Some (c', st') \<and> disk_read 0 BLOCK_SIZE (device st') = Some (\<lambda>_. 0)"
proof -
  obtain c where c: "bc_insert 7 0 True (BlockCache_new 3) demo_store = Some (c, demo_store)"
    "cache_ok (\<lambda>_. 0) {7} {} c demo_store" "cached c 7 = Some 0" by (rule demo_cache)
  have "cache_content (\<lambda>_. 0) c demo_store 7 = Some (\<lambda>_. 0)"
    using c(3) by (auto simp: cache_content_def demo_store_def clip_def)
  with block_cache_flush_durable [OF c(2)] c(1) show ?thesis by blast
qed

text \<open>
  C27 (error): \<open>flush(inode_index)\<close>, which \<open>fsync\<close> relies on, compares the inode number with block
  numbers. A modified block \<open>k\<close> of the file stays unwritten unless \<open>k\<close> happens to equal the inode
  number: the device keeps its old bytes at the place of \<open>k\<close>. The block that has the inode number as
  its number is the one that is written.
\<close>

theorem flush_index_misses_data:
  assumes "cache_ok off K F c st" "k \<in> K" "k \<noteq> inode_index"
    and "disk_read (off k) BLOCK_SIZE (device st) = Some old" "cache_content off c st k = Some new"
  shows "\<exists>c' st'. bc_flush_index inode_index c st = Some (c', st') \<and>
           disk_read (off k) BLOCK_SIZE (device st') = Some old \<and> cache_content off c' st' k = Some new \<and>
           (\<forall>x. inode_index \<in> K \<and> marked c inode_index \<and> cache_content off c st inode_index = Some x \<longrightarrow>
              disk_read (off inode_index) BLOCK_SIZE (device st') = Some x)"
  by (rule cache_flush_index [OF cache_ok_marked [OF assms(1)], of inode_index]) (use assms(2-5) in \<open>auto simp: keeps_def stored_def\<close>)

theorem flush_index_misses_data_witness:
  "\<exists>c c' st'. bc_insert 7 0 True (BlockCache_new 3) demo_store = Some (c, demo_store) \<and>
     cache_content (\<lambda>_. 0) c demo_store 7 = Some (\<lambda>_. 0) \<and>
     bc_flush_index 1 c demo_store = Some (c', st') \<and> disk_read 0 BLOCK_SIZE (device st') = Some (clip 4096 (\<lambda>_. 1))"
proof -
  obtain c where c: "bc_insert 7 0 True (BlockCache_new 3) demo_store = Some (c, demo_store)"
    "cache_ok (\<lambda>_. 0) {7} {} c demo_store" "cached c 7 = Some 0" by (rule demo_cache)
  have "cache_content (\<lambda>_. 0) c demo_store 7 = Some (\<lambda>_. 0)"
    using c(3) by (auto simp: cache_content_def demo_store_def clip_def)
  moreover have "disk_read 0 BLOCK_SIZE (device demo_store) = Some (clip 4096 (\<lambda>_. 1))"
    by (simp add: disk_read_def demo_store_def)
  ultimately show ?thesis
    using flush_index_misses_data [OF c(2), of 7 1 "clip 4096 (\<lambda>_. 1)" "\<lambda>_. 0"] c(1) by auto
qed

end
