(* ===== verification/Group_Reload.thy ===== *)
theory Group_Reload
  imports Block_Group
begin

text \<open>
  What a flush puts on the device is what the next mount reads: the super block with its
  descriptors, and the bitmaps and inode tables of a block group. The last section shows where
  the layout of a group breaks this.
\<close>

section \<open>Writing several blocks\<close>

definition write_all :: "(nat \<times> bytes) list \<Rightarrow> disk \<Rightarrow> disk" where
  "write_all ws d = fold (\<lambda>(p, x) d. snd (disk_write p BLOCK_SIZE x d)) ws d"

lemma write_all_simps [simp]:
  "write_all [] d = d" "write_all ((p, x) # ws) d = write_all ws (snd (disk_write p BLOCK_SIZE x d))"
  "write_all (xs @ ys) d = write_all ys (write_all xs d)"
  by (simp_all add: write_all_def)

lemma dk_size_write_all: "dk_size d \<le> dk_size (write_all ws d)"
proof (induction ws arbitrary: d)
  case (Cons w ws)
  obtain p x where w: "w = (p, x)" by (cases w)
  have "dk_size d \<le> dk_size (snd (disk_write p BLOCK_SIZE x d))" by (rule dk_size_disk_write)
  also have "\<dots> \<le> dk_size (write_all ws (snd (disk_write p BLOCK_SIZE x d)))" by (rule Cons.IH)
  finally show ?case by (simp add: w)
qed simp

definition block_aligned :: "nat \<Rightarrow> bool" where
  "block_aligned p \<longleftrightarrow> BLOCK_SIZE dvd p \<and> seekable p"

lemma aligned_disjoint:
  assumes "BLOCK_SIZE dvd p" "BLOCK_SIZE dvd q" "p \<noteq> q"
  shows "p + BLOCK_SIZE \<le> q \<or> q + BLOCK_SIZE \<le> p"
proof -
  obtain a b where ab: "p = BLOCK_SIZE * a" "q = BLOCK_SIZE * b" using assms(1,2) by (auto simp: dvd_def)
  with assms(3) have "a < b \<or> b < a" by auto
  then show ?thesis unfolding ab by (auto simp: Suc_le_eq)
qed

lemma read_write_all_other:
  assumes "\<forall>w \<in> set ws. block_aligned (fst w) \<and> fst w \<noteq> p" "BLOCK_SIZE dvd p" "disk_read p BLOCK_SIZE d = Some x"
  shows "disk_read p BLOCK_SIZE (write_all ws d) = Some x"
  using assms(1,3)
proof (induction ws arbitrary: d)
  case (Cons w ws)
  obtain q y where w: "w = (q, y)" by (cases w)
  have q: "seekable q" "BLOCK_SIZE dvd q" "q \<noteq> p" using Cons.prems(1) by (auto simp: w block_aligned_def)
  have "disk_read p BLOCK_SIZE (snd (disk_write q BLOCK_SIZE y d)) = Some x"
    using disk_read_write_other [OF _ Cons.prems(2)] aligned_disjoint [OF assms(2) q(2)] q(3) by blast
  with Cons.IH Cons.prems(1) show ?case by (simp add: w)
qed simp

lemma dk_faults_write_all [simp]: "dk_faults d = [] \<Longrightarrow> dk_faults (write_all ws d) = []"
  by (induction ws arbitrary: d) auto

lemma read_write_all:
  assumes "dk_faults d = []" "\<forall>w \<in> set ws. block_aligned (fst w)" "distinct (map fst ws)" "(p, x) \<in> set ws"
  shows "disk_read p BLOCK_SIZE (write_all ws d) = Some (clip BLOCK_SIZE x)"
proof -
  obtain us vs where ws: "ws = us @ (p, x) # vs" using assms(4) by (meson split_list)
  have p: "block_aligned p" using assms(2,4) by fastforce
  have "\<forall>w \<in> set vs. block_aligned (fst w) \<and> fst w \<noteq> p"
    using assms(2,3) unfolding ws by (auto simp: image_iff)
  then show ?thesis
    unfolding ws using read_write_all_other [of vs p] disk_read_write_same [of p "write_all us d" x] p assms(1)
    by (simp add: block_aligned_def)
qed

section \<open>Bitmaps, inode tables and the super block\<close>

lemma bit_at_reload:
  assumes "i < 32768"
  shows "bit_at (bitmap_of_bytes (clip BLOCK_SIZE (bitmap_bytes b))) i = bit_at b i"
proof -
  have k: "i div 32 < 1024" using assms by (simp add: less_mult_imp_div_less)
  have "get_u32 (clip BLOCK_SIZE (bitmap_bytes b)) (0 + i div 32 * 4) = bm_data b (i div 32)"
    by (rule u32c.get_array_shifted [where n = 1024]) (use k in \<open>auto simp: bitmap_bytes_def clip_def\<close>)
  with k show ?thesis by (simp add: bit_at_def bitmap_of_bytes_def)
qed

lemma bitmap_reload:
  assumes "bm_words b = 1024"
  shows "bm_used (bitmap_of_bytes (clip BLOCK_SIZE (bitmap_bytes b))) = bm_used b"
proof -
  have "bm_cap (bitmap_of_bytes (clip BLOCK_SIZE (bitmap_bytes b))) = 32768" "bm_cap b = 32768"
    using assms by (simp_all add: bm_cap_def bitmap_of_bytes_def)
  then show ?thesis using bit_at_reload [of _ b] unfolding bm_used_def by auto
qed

lemma inode_table_reload:
  assumes "k < INODES_PER_BLOCK" "wf_inode (itb_inodes t k)"
  shows "get_inode_at (clip BLOCK_SIZE (inode_table_bytes t)) (k * sizeof_inode) = itb_inodes t k"
proof -
  have "get_inode_at (clip BLOCK_SIZE (inode_table_bytes t)) (0 + k * sizeof_inode) = itb_inodes t k"
    by (rule inodec.get_array_shifted [where n = 32])
      (use assms in \<open>auto simp: inode_table_bytes_def clip_def\<close>)
  then show ?thesis by simp
qed

definition wf_super_block :: "super_block \<Rightarrow> bool" where
  "wf_super_block sb \<longleftrightarrow> wf_super (sb_super sb) \<and> (\<forall>k < NUM_DESC_SLOTS. wf_desc (sb_descs sb k))"

lemma super_reload:
  assumes "wf_super_block sb"
  shows "get_super_at (clip BLOCK_SIZE (super_bytes sb)) 0 = sb_super sb"
    and "k < NUM_DESC_SLOTS \<Longrightarrow>
      get_desc_at (clip BLOCK_SIZE (super_bytes sb)) (sizeof_super_block + k * sizeof_group_desc) = sb_descs sb k"
proof -
  let ?d = "clip BLOCK_SIZE (super_bytes sb)"
  have "get_super_at ?d 0 = get_super_at (put_super (\<lambda>_. 0) 0 (sb_super sb)) 0"
    by (rule superc.get_local) (simp add: clip_def super_bytes_def)
  then show "get_super_at ?d 0 = sb_super sb"
    using assms superc.get_put by (simp add: wf_super_block_def)
  show "get_desc_at ?d (sizeof_super_block + k * sizeof_group_desc) = sb_descs sb k" if "k < NUM_DESC_SLOTS"
    by (rule descc.get_array_shifted [where n = NUM_DESC_SLOTS])
      (use assms that in \<open>auto simp: clip_def super_bytes_def wf_super_block_def\<close>)
qed

lemma SuperBlock_reload:
  assumes "wf_super_block sb" "s_state (sb_super sb) = NORMAL" "num_block_groups (sb_super sb) = Some n"
    and "disk_read 0 BLOCK_SIZE d = Some (clip BLOCK_SIZE (super_bytes sb))"
  obtains sb' where "SuperBlock_new d = Some (sb', d)" "sb_super sb' = sb_super sb"
    "\<And>k. k < NUM_DESC_SLOTS \<Longrightarrow> sb_descs sb' k = sb_descs sb k" "desc_table sb' = [0..<unat n]"
proof -
  let ?x = "clip BLOCK_SIZE (super_bytes sb)"
  let ?sb = "\<lparr>sb_super = get_super_at ?x 0, sb_descs = (\<lambda>k. get_desc_at ?x (sizeof_super_block + k * sizeof_group_desc)),
     desc_table = []\<rparr>"
  have "SuperBlock_new d = Some (?sb\<lparr>desc_table := [0..<unat n]\<rparr>, d)"
    using assms(2-) super_reload(1) [OF assms(1)] by (simp add: SuperBlock_new_def init_super_block_def)
  then show ?thesis
    by (rule that) (use super_reload [OF assms(1)] in simp_all)
qed

section \<open>A block group\<close>

text \<open>
  The positions of group \<open>gi\<close>: the inode bitmap, the block bitmap, then the blocks of the inode
  table. Fifteen groups stay below 2 GiB.
\<close>

definition group_pos :: "nat \<Rightarrow> nat" where
  "group_pos gi = gi * MAX_BLOCK_GROUP_SIZE"

definition table_pos :: "nat \<Rightarrow> nat \<Rightarrow> nat" where
  "table_pos gi k = group_pos gi + (k + 3) * BLOCK_SIZE"

definition group_wf :: "nat \<Rightarrow> block_group \<Rightarrow> bool" where
  "group_wf gi g \<longleftrightarrow> gi < 15 \<and>
     bb_offset (inode_bitmap g) = group_pos gi + BLOCK_SIZE \<and> bm_words (bb_bitmap (inode_bitmap g)) = 1024 \<and>
     bb_offset (block_bitmap g) = group_pos gi + 2 * BLOCK_SIZE \<and> bm_words (bb_bitmap (block_bitmap g)) = 1024 \<and>
     omap_ok (inode_table g) \<and>
     (\<forall>k t. (k, t) \<in> set (inode_table g) \<longrightarrow>
        unat k < NUM_INODE_TABLE_BLOCKS \<and> itb_offset t = table_pos gi (unat k) \<and> (\<forall>j. wf_inode (itb_inodes t j)))"

definition group_writes :: "block_group \<Rightarrow> (nat \<times> bytes) list" where
  "group_writes g = (bb_offset (block_bitmap g), bitmap_bytes (bb_bitmap (block_bitmap g))) #
     (bb_offset (inode_bitmap g), bitmap_bytes (bb_bitmap (inode_bitmap g))) #
     map (\<lambda>(_, t). (itb_offset t, inode_table_bytes t)) (inode_table g)"

lemma group_flush_eq: "group_flush g d = write_all (group_writes g) d"
proof -
  have "fold (\<lambda>(_, t). inode_table_flush t) tab d = write_all (map (\<lambda>(_, t). (itb_offset t, inode_table_bytes t)) tab) d"
    for tab :: "(u32 \<times> inode_table_block) list" and d
    by (induction tab arbitrary: d) (auto simp: inode_table_flush_def)
  then show ?thesis by (simp add: group_flush_def group_writes_def bitmap_block_flush_def)
qed

lemma group_positions:
  assumes "group_wf gi g"
  shows "\<forall>w \<in> set (group_writes g). block_aligned (fst w)" "distinct (map fst (group_writes g))"
proof -
  note wf = assms [unfolded group_wf_def]
  have gp: "group_pos gi \<le> 14 * MAX_BLOCK_GROUP_SIZE" "BLOCK_SIZE dvd group_pos gi"
    using wf by (auto simp: group_pos_def dvd_def)
  have t: "block_aligned (table_pos gi k)" if "k < 1024" for k
    using gp that by (auto simp: block_aligned_def seekable_def table_pos_def)
  have b: "block_aligned (group_pos gi + 2 * BLOCK_SIZE)" "block_aligned (group_pos gi + BLOCK_SIZE)"
    using gp by (auto simp: block_aligned_def seekable_def)
  show "\<forall>w \<in> set (group_writes g). block_aligned (fst w)"
    using wf t b by (auto simp: group_writes_def)
  have pos: "itb_offset u = table_pos gi (unat k)" if "(k, u) \<in> set (inode_table g)" for k u
    using wf that by blast
  have "map (fst \<circ> (\<lambda>(_, t). (itb_offset t, inode_table_bytes t))) (inode_table g) =
      map (table_pos gi \<circ> unat \<circ> fst) (inode_table g)"
    using pos by auto
  moreover have "distinct (map (table_pos gi \<circ> unat \<circ> fst) (inode_table g))"
    using wf omap_ok_distinct [of "inode_table g"]
    by (auto simp: distinct_map inj_on_def table_pos_def word_unat_eq_iff)
  ultimately have "distinct (map (fst \<circ> (\<lambda>(_, t). (itb_offset t, inode_table_bytes t))) (inode_table g))"
    by (rule ssubst)
  then show "distinct (map fst (group_writes g))"
    using wf pos by (auto simp: group_writes_def table_pos_def)
qed

text \<open>The inode with a given number as the group sees it, in its cache or on the device.\<close>

definition peek_inode :: "u32 \<Rightarrow> block_group \<Rightarrow> disk \<Rightarrow> ext2_inode option" where
  "peek_inode i g d = do {
     (ok, g) \<leftarrow> group_get_inode i g d;
     if ok then group_inode g i else None
   }"

text \<open>A device \<open>d'\<close> on which group \<open>g\<close>, whose unloaded table blocks are on \<open>d\<close>, is up to date.\<close>

definition group_stored :: "nat \<Rightarrow> block_group \<Rightarrow> disk \<Rightarrow> disk \<Rightarrow> bool" where
  "group_stored gi g d d' \<longleftrightarrow>
     (\<forall>(p, x) \<in> set (group_writes g). disk_read p BLOCK_SIZE d' = Some (clip BLOCK_SIZE x)) \<and>
     (\<forall>k < NUM_INODE_TABLE_BLOCKS. word_of_nat k \<notin> fst ` set (inode_table g) \<longrightarrow>
        disk_read (table_pos gi k) BLOCK_SIZE d' = disk_read (table_pos gi k) BLOCK_SIZE d)"

lemma group_flush_stored:
  assumes "group_wf gi g" "table_pos gi NUM_INODE_TABLE_BLOCKS \<le> dk_size d" "dk_faults d = []"
  shows "group_stored gi g d (group_flush g d)"
  unfolding group_stored_def
proof (intro conjI ballI allI impI)
  fix w assume w: "w \<in> set (group_writes g)"
  obtain p x where [simp]: "w = (p, x)" by (cases w)
  show "case w of (p, x) \<Rightarrow> disk_read p BLOCK_SIZE (group_flush g d) = Some (clip BLOCK_SIZE x)"
    unfolding group_flush_eq using read_write_all [OF assms(3) group_positions [OF assms(1)], of p x] w by simp
next
  fix k assume k: "k < NUM_INODE_TABLE_BLOCKS" "word_of_nat k \<notin> fst ` set (inode_table g)"
  have "disk_read (table_pos gi k) BLOCK_SIZE d = Some (clip BLOCK_SIZE (\<lambda>i. dk_bytes d (table_pos gi k + i)))"
    using assms(2) k(1) by (simp add: disk_read_def table_pos_def)
  moreover have "fst w \<noteq> table_pos gi k" if "w \<in> set (group_writes g)" for w
    using assms(1) that k
    by (fastforce simp: group_writes_def group_wf_def table_pos_def image_iff)
  moreover have "BLOCK_SIZE dvd table_pos gi k" by (simp add: table_pos_def group_pos_def)
  ultimately show "disk_read (table_pos gi k) BLOCK_SIZE (group_flush g d) = disk_read (table_pos gi k) BLOCK_SIZE d"
    unfolding group_flush_eq using read_write_all_other group_positions(1) [OF assms(1)] by simp
qed

lemma InodeTableBlock_stored:
  assumes "disk_read p BLOCK_SIZE d = Some (clip BLOCK_SIZE (inode_table_bytes t))" "\<forall>j. wf_inode (itb_inodes t j)"
  obtains t' where "InodeTableBlock_new p d = Some t'" "\<And>j. j < INODES_PER_BLOCK \<Longrightarrow> itb_inodes t' j = itb_inodes t j"
  using assms inode_table_reload [of _ t] by (auto simp: InodeTableBlock_new_def)

lemma inode_block_offset_wf:
  "group_wf gi g \<Longrightarrow> i < 32768 \<Longrightarrow> inode_block_offset g (word_of_nat i div 32) = table_pos gi (i div 32)"
  by (simp add: inode_block_offset_eq [simplified] group_wf_def table_pos_def)

lemma peek_inode_eq:
  assumes "group_wf gi g" "i < 32768"
  shows "peek_inode (word_of_nat i) g d =
    (if i \<in> bm_used (bb_bitmap (inode_bitmap g)) then
       (case map_of (inode_table g) (word_of_nat (i div 32)) of
          Some t \<Rightarrow> Some (itb_inodes t (i mod 32))
        | None \<Rightarrow> map_option (\<lambda>x. get_inode_at x (i mod 32 * sizeof_inode)) (disk_read (table_pos gi (i div 32)) BLOCK_SIZE d))
     else None)"
proof -
  have u: "unat (word_of_nat i :: u32) = i" using assms(2) by (simp add: unat_of_nat)
  have t: "bitmap_test i (bb_bitmap (inode_bitmap g)) = Some (i \<in> bm_used (bb_bitmap (inode_bitmap g)))"
    using assms by (simp add: bitmap_test_eq bm_used_def bm_cap_def group_wf_def)
  note w = word_div_32 [OF assms(2)] word_mod_32 [OF assms(2)] inode_block_offset_wf [OF assms]
  show ?thesis
  proof (cases "i \<in> bm_used (bb_bitmap (inode_bitmap g))")
    case False
    then show ?thesis using t u by (simp add: peek_inode_def group_get_inode_def)
  next
    case True
    show ?thesis
    proof (cases "map_of (inode_table g) (word_of_nat (i div 32))")
      case None
      then show ?thesis using True t u w
        by (cases "disk_read (table_pos gi (i div 32)) BLOCK_SIZE d")
          (simp_all add: peek_inode_def group_get_inode_def group_inode_def InodeTableBlock_new_def)
    next
      case (Some x)
      then show ?thesis using True t u w by (simp add: peek_inode_def group_get_inode_def group_inode_def)
    qed
  qed
qed

text \<open>Mounting the group again: the same bitmaps and the same inodes.\<close>

lemma group_reload:
  assumes wf: "group_wf gi g" and st: "group_stored gi g d d'"
    and x: "desc_at sb k = Some x" "unat (bg_block_bitmap x) = bb_offset (block_bitmap g)"
      "unat (bg_inode_bitmap x) = bb_offset (inode_bitmap g)"
  obtains g' where "BlockGroup_new (Some k) False sb d' = Some g'" "group_wf gi g'" "grp_desc g' = k"
    "bm_used (bb_bitmap (block_bitmap g')) = bm_used (bb_bitmap (block_bitmap g))"
    "bm_used (bb_bitmap (inode_bitmap g')) = bm_used (bb_bitmap (inode_bitmap g))"
    "\<And>i. i < 32768 \<Longrightarrow> peek_inode (word_of_nat i) g' d' = peek_inode (word_of_nat i) g d"
proof -
  let ?bb = "bb_bitmap (block_bitmap g)" and ?ib = "bb_bitmap (inode_bitmap g)"
  have rd: "disk_read p BLOCK_SIZE d' = Some (clip BLOCK_SIZE y)" if "(p, y) \<in> set (group_writes g)" for p y
    using st that by (auto simp: group_stored_def)
  let ?g = "\<lparr>grp_desc = k,
     block_bitmap = \<lparr>bb_offset = bb_offset (block_bitmap g), bb_bitmap = bitmap_of_bytes (clip BLOCK_SIZE (bitmap_bytes ?bb))\<rparr>,
     inode_bitmap = \<lparr>bb_offset = bb_offset (inode_bitmap g), bb_bitmap = bitmap_of_bytes (clip BLOCK_SIZE (bitmap_bytes ?ib))\<rparr>,
     inode_table = []\<rparr>"
  have "disk_read (bb_offset (block_bitmap g)) BLOCK_SIZE d' = Some (clip BLOCK_SIZE (bitmap_bytes ?bb))"
    "disk_read (bb_offset (inode_bitmap g)) BLOCK_SIZE d' = Some (clip BLOCK_SIZE (bitmap_bytes ?ib))"
    by (rule rd; simp add: group_writes_def)+
  then have new: "BlockGroup_new (Some k) False sb d' = Some ?g"
    using x by (simp add: BlockGroup_new_def BitmapBlock_new_def block_data_def)
  have used: "bm_used (bb_bitmap (block_bitmap ?g)) = bm_used ?bb" "bm_used (bb_bitmap (inode_bitmap ?g)) = bm_used ?ib"
    using wf bitmap_reload by (simp_all add: group_wf_def)
  have wf': "group_wf gi ?g" using wf by (simp add: group_wf_def bitmap_of_bytes_def)
  have "peek_inode (word_of_nat i) ?g d' = peek_inode (word_of_nat i) g d" if i: "i < 32768" for i
  proof (cases "map_of (inode_table g) (word_of_nat (i div 32))")
    case None
    have k: "i div 32 < 1024" using i by (simp add: less_mult_imp_div_less)
    with None st have "disk_read (table_pos gi (i div 32)) BLOCK_SIZE d' = disk_read (table_pos gi (i div 32)) BLOCK_SIZE d"
      by (simp add: group_stored_def map_of_eq_None_iff)
    with None used show ?thesis unfolding peek_inode_eq [OF wf' i] peek_inode_eq [OF wf i] by simp
  next
    case (Some t)
    have k: "i div 32 < 1024" using i by (simp add: less_mult_imp_div_less)
    have t: "(word_of_nat (i div 32), t) \<in> set (inode_table g)" using Some by (rule map_of_SomeD)
    then have tp: "itb_offset t = table_pos gi (i div 32)" "\<forall>j. wf_inode (itb_inodes t j)"
      using wf k by (auto simp: group_wf_def unat_of_nat)
    have "(itb_offset t, inode_table_bytes t) \<in> set (group_writes g)"
      using t by (force simp: group_writes_def)
    then have "disk_read (table_pos gi (i div 32)) BLOCK_SIZE d' = Some (clip BLOCK_SIZE (inode_table_bytes t))"
      using rd tp(1) by simp
    with Some used tp(2) show ?thesis
      unfolding peek_inode_eq [OF wf' i] peek_inode_eq [OF wf i] by (simp add: inode_table_reload [simplified])
  qed
  then show ?thesis using that [OF new wf' _ used] by simp
qed

section \<open>Properties\<close>

text \<open>
  C13 (round trip): a group that is flushed to a sound device and loaded again from its descriptor is the same group:
  the same blocks and the same inodes are in use, and every inode number gives the same inode,
  whether its table block was loaded before the flush or not.
\<close>

theorem group_flush_reload:
  assumes "group_wf gi g" "table_pos gi NUM_INODE_TABLE_BLOCKS \<le> dk_size d" "dk_faults d = []"
    and "desc_at sb k = Some x" "unat (bg_block_bitmap x) = bb_offset (block_bitmap g)"
      "unat (bg_inode_bitmap x) = bb_offset (inode_bitmap g)"
  shows "\<exists>g'. BlockGroup_new (Some k) False sb (group_flush g d) = Some g' \<and>
     bm_used (bb_bitmap (block_bitmap g')) = bm_used (bb_bitmap (block_bitmap g)) \<and>
     bm_used (bb_bitmap (inode_bitmap g')) = bm_used (bb_bitmap (inode_bitmap g)) \<and>
     (\<forall>i < 32768. peek_inode (word_of_nat i) g' (group_flush g d) = peek_inode (word_of_nat i) g d)"
  by (rule group_reload [OF assms(1) group_flush_stored [OF assms(1-3)] assms(4-6)]) blast

definition demo_inode :: ext2_inode where
  "demo_inode = zero_inode\<lparr>i_mode := 0x81A4, i_size := 42\<rparr>"

definition demo_group :: block_group where
  "demo_group = \<lparr>grp_desc = 0,
     block_bitmap = \<lparr>bb_offset = 8192, bb_bitmap = \<lparr>bm_words = 1024, bm_data = (\<lambda>_. 0)\<rparr>\<rparr>,
     inode_bitmap = \<lparr>bb_offset = 4096, bb_bitmap = \<lparr>bm_words = 1024, bm_data = (\<lambda>_. 0)(0 := 3)\<rparr>\<rparr>,
     inode_table = [(0, \<lparr>itb_offset = 12288, itb_inodes = (\<lambda>_. zero_inode)(1 := demo_inode)\<rparr>)]\<rparr>"

definition demo_super :: super_block where
  "demo_super = \<lparr>sb_super = get_super_at (\<lambda>_. 0) 0,
     sb_descs = (\<lambda>_. (get_desc_at (\<lambda>_. 0) 0)\<lparr>bg_block_bitmap := 8192, bg_inode_bitmap := 4096,
       bg_free_blocks_count := 32768, bg_free_inodes_count := 32766\<rparr>),
     desc_table = [0]\<rparr>"

lemma demo_group_wf: "group_wf 0 demo_group"
  by (auto simp: group_wf_def demo_group_def group_pos_def table_pos_def omap_ok_def wf_inode_def zero_inode_def demo_inode_def)

theorem group_flush_reload_witness:
  "\<exists>g'. BlockGroup_new (Some 0) False demo_super (group_flush demo_group (sound_disk 8388608 (\<lambda>_. 0))) = Some g' \<and>
     peek_inode 1 g' (group_flush demo_group (sound_disk 8388608 (\<lambda>_. 0))) = Some demo_inode"
proof -
  let ?d = "(sound_disk 8388608 (\<lambda>_. 0))"
  have "1 \<in> bm_used (bb_bitmap (inode_bitmap demo_group))"
    by (simp add: bm_used_def demo_group_def bm_cap_def bit_at_def bit_simps)
  then have "peek_inode 1 demo_group ?d = Some demo_inode"
    using peek_inode_eq [OF demo_group_wf, of 1 ?d] by (simp add: demo_group_def)
  moreover have "\<exists>g'. BlockGroup_new (Some 0) False demo_super (group_flush demo_group ?d) = Some g' \<and>
     bm_used (bb_bitmap (block_bitmap g')) = bm_used (bb_bitmap (block_bitmap demo_group)) \<and>
     bm_used (bb_bitmap (inode_bitmap g')) = bm_used (bb_bitmap (inode_bitmap demo_group)) \<and>
     (\<forall>i < 32768. peek_inode (word_of_nat i) g' (group_flush demo_group ?d) = peek_inode (word_of_nat i) demo_group ?d)"
    by (rule group_flush_reload [OF demo_group_wf, where x = "sb_descs demo_super 0"])
      (simp_all add: table_pos_def group_pos_def desc_at_def demo_super_def demo_group_def)
  then obtain g' where g': "BlockGroup_new (Some 0) False demo_super (group_flush demo_group ?d) = Some g'"
    "\<forall>i < 32768. peek_inode (word_of_nat i) g' (group_flush demo_group ?d) = peek_inode (word_of_nat i) demo_group ?d"
    by blast
  from g'(2) [rule_format, of 1] have
    "peek_inode 1 g' (group_flush demo_group ?d) = peek_inode 1 demo_group ?d" by simp
  ultimately show ?thesis using g'(1) by auto
qed

text \<open>
  C29 (error): the first data block of a group and the last block of its inode table have the same
  place on the device, because \<open>data_block_offset\<close> leaves out the block bitmap itself. Flushing a
  group in which that table block is loaded to a sound device overwrites the contents of data block 0 with inodes.
\<close>

theorem group_flush_clobbers_data:
  assumes "group_wf gi g" "(1023, t) \<in> set (inode_table g)" "dk_faults d = []"
  shows "data_block_offset g 0 = inode_block_offset g 1023 \<and>
    disk_read (data_block_offset g 0) BLOCK_SIZE (group_flush g d) = Some (clip BLOCK_SIZE (inode_table_bytes t))"
proof -
  have off: "data_block_offset g 0 = table_pos gi 1023"
    using assms(1) by (simp add: data_block_offset_def group_wf_def table_pos_def)
  then have "data_block_offset g 0 = inode_block_offset g 1023"
    using inode_block_offset_wf [OF assms(1), of 32736] by simp
  moreover have "itb_offset t = table_pos gi 1023" using assms by (auto simp: group_wf_def)
  moreover have "(itb_offset t, inode_table_bytes t) \<in> set (group_writes g)"
    using assms(2) by (force simp: group_writes_def)
  ultimately show ?thesis
    unfolding off group_flush_eq using read_write_all [OF assms(3) group_positions [OF assms(1)]] by simp
qed

theorem group_flush_clobbers_data_witness:
  "let t = \<lparr>itb_offset = 4202496, itb_inodes = (\<lambda>_. demo_inode)\<rparr>; g = demo_group\<lparr>inode_table := [(1023, t)]\<rparr>
   in disk_read (data_block_offset g 0) BLOCK_SIZE (group_flush g (sound_disk 8388608 (\<lambda>_. 0))) =
        Some (clip BLOCK_SIZE (inode_table_bytes t))"
proof -
  let ?t = "\<lparr>itb_offset = 4202496, itb_inodes = (\<lambda>_. demo_inode)\<rparr>"
  let ?g = "demo_group\<lparr>inode_table := [(1023, ?t)]\<rparr>"
  have "group_wf 0 ?g"
    by (auto simp: group_wf_def demo_group_def group_pos_def table_pos_def omap_ok_def wf_inode_def zero_inode_def demo_inode_def)
  then show ?thesis unfolding Let_def by (intro group_flush_clobbers_data [THEN conjunct2]) simp_all
qed

end
