(* ===== verification/Fs_Coherence.thy ===== *)
theory Fs_Coherence
  imports Fs_Blocks Write_Back Group_Reload
begin

text \<open>
  Blocks as \<open>FileSystem\<close> sees them. The invariant \<open>fs_ok F fs\<close> puts the block groups and the block
  cache together: every loaded group has the place that its number gives it, every cached block is
  allocated, and the contents of the cache agree with the device except for the blocks of \<open>F\<close>, the
  newly allocated blocks that are clean in the cache without being on the device. \<open>fs_content\<close> is
  the content of each block, and the lemmas say what \<open>get_block\<close>, \<open>alloc_block\<close> and \<open>free_block\<close> do
  to it.
\<close>

section \<open>Places of blocks\<close>

definition disk_blocks :: "u32 set" where
  "disk_blocks = {k. unat k < 15 * TOTAL_BLOCKS_PER_GROUP \<and> unat k mod TOTAL_BLOCKS_PER_GROUP < BLOCKS_PER_GROUP}"

definition block_place :: "u32 \<Rightarrow> nat" where
  "block_place k = (unat k + 1026) * BLOCK_SIZE"

lemma layout_disk_blocks: "layout block_place disk_blocks"
proof -
  have "block_place i + BLOCK_SIZE \<le> block_place j \<or> block_place j + BLOCK_SIZE \<le> block_place i" if "i \<noteq> j" for i j
  proof -
    have "unat i < unat j \<or> unat j < unat i" using that by (metis nat_neq_iff word_unat_eq_iff)
    then show ?thesis by (auto simp: block_place_def)
  qed
  then show ?thesis by (auto simp: layout_def disk_blocks_def seekable_def block_place_def)
qed

text \<open>A block number and its group and index inside the group.\<close>

definition block_number :: "u32 \<Rightarrow> nat \<Rightarrow> u32" where
  "block_number gi i = gi * 33794 + word_of_nat i"

lemma unat_block_number:
  assumes "unat gi < 15" "i < 33794"
  shows "unat (block_number gi i) = unat gi * 33794 + i"
proof -
  have "unat gi * 33794 + i < 2 ^ 32" using assms by simp
  moreover have "block_number gi i = word_of_nat (unat gi * 33794 + i)"
    by (simp add: block_number_def)
  ultimately show ?thesis by (simp only: unat_of_nat) simp
qed

lemma block_number_div_mod:
  assumes "unat gi < 15" "i < 33794"
  shows "block_number gi i div 33794 = gi" "block_number gi i mod 33794 = word_of_nat i"
proof -
  have "unat (block_number gi i div 33794) = unat gi" "unat (block_number gi i mod 33794) = i"
    using assms by (simp_all add: unat_div unat_mod unat_block_number)
  then show "block_number gi i div 33794 = gi" "block_number gi i mod 33794 = word_of_nat i"
    using assms(2) by (simp_all add: word_unat_eq_iff unat_of_nat)
qed

lemma block_number_disk_blocks: "unat gi < 15 \<Longrightarrow> i < 32768 \<Longrightarrow> block_number gi i \<in> disk_blocks"
  by (simp add: disk_blocks_def unat_block_number)

lemma disk_blocksE:
  assumes "k \<in> disk_blocks"
  obtains gi i where "k = block_number gi i" "unat gi < 15" "i < 32768"
proof
  let ?gi = "k div 33794" and ?i = "unat (k mod 33794)"
  show "unat ?gi < 15" "?i < 32768"
    using assms by (auto simp: disk_blocks_def unat_div unat_mod less_mult_imp_div_less)
  have "unat (block_number ?gi ?i) = unat ?gi * 33794 + ?i"
    by (rule unat_block_number) (use \<open>unat ?gi < 15\<close> \<open>?i < 32768\<close> in simp_all)
  also have "\<dots> = unat k" by (simp add: unat_div unat_mod)
  finally show "k = block_number ?gi ?i" by (simp add: word_unat_eq_iff)
qed

lemma data_block_offset_place:
  assumes "group_wf (unat gi) g" "i < 32768"
  shows "data_block_offset g (word_of_nat i) = block_place (block_number gi i)"
proof -
  have gi: "unat gi < 15" using assms(1) by (simp add: group_wf_def)
  have "(word_of_nat i :: u32) * 4096 = word_of_nat (i * 4096)" by simp
  moreover have "i * 4096 < 2 ^ 32" using assms(2) by simp
  ultimately have "unat ((word_of_nat i :: u32) * 4096) = i * 4096" by (simp only: unat_of_nat) simp
  then show ?thesis
    using assms gi by (simp add: data_block_offset_def block_place_def unat_block_number group_wf_def group_pos_def)
qed

section \<open>The invariant\<close>

definition group_at :: "fs \<Rightarrow> u32 \<Rightarrow> block_group option" where
  "group_at fs gi = (case map_of (fs_groups fs) gi of None \<Rightarrow> None | Some a \<Rightarrow> fs_gheap fs a)"

definition allocated :: "fs \<Rightarrow> u32 \<Rightarrow> bool" where
  "allocated fs k \<longleftrightarrow> k \<in> disk_blocks \<and>
     (case group_at fs (k div 33794) of
        None \<Rightarrow> False
      | Some g \<Rightarrow> unat (k mod 33794) \<in> bm_used (bb_bitmap (block_bitmap g)))"

definition groups_ok :: "fs \<Rightarrow> bool" where
  "groups_ok fs \<longleftrightarrow> s_blocks_per_group (super_of fs) = 33794 \<and> s_inodes_per_group (super_of fs) = 32768 \<and>
     omap_ok (fs_groups fs) \<and> distinct (map snd (fs_groups fs)) \<and>
     (\<forall>gi a. (gi, a) \<in> set (fs_groups fs) \<longrightarrow> a < fs_gbrk fs \<and>
        (\<exists>g. fs_gheap fs a = Some g \<and> group_wf (unat gi) g \<and> grp_desc g = unat gi \<and> blocks_ok (g, fs_super fs, fs_store fs)))"

definition fs_content :: "fs \<Rightarrow> u32 \<Rightarrow> bytes option" where
  "fs_content fs = cache_content block_place (fs_cache fs) (fs_store fs)"

text \<open>The loaded groups lie inside the device.\<close>

definition fits :: "fs \<Rightarrow> bool" where
  "fits fs \<longleftrightarrow> (\<forall>gi \<in> fst ` set (fs_groups fs). group_pos (Suc (unat gi)) \<le> dk_size (fs_device fs))"

definition fs_ok :: "u32 set \<Rightarrow> fs \<Rightarrow> bool" where
  "fs_ok F fs \<longleftrightarrow> groups_ok fs \<and> fits fs \<and> cache_ok block_place disk_blocks F (fs_cache fs) (fs_store fs) \<and>
     bc_size (fs_cache fs) = BLOCK_CACHE_SIZE \<and> (\<forall>k. cached (fs_cache fs) k \<noteq> None \<longrightarrow> allocated fs k)"

lemma fits_mono:
  "fits fs \<Longrightarrow> fs_groups fs' = fs_groups fs \<Longrightarrow> dk_size (fs_device fs) \<le> dk_size (fs_device fs') \<Longrightarrow> fits fs'"
  unfolding fits_def by fastforce

lemma fits_cache [simp]: "fits (fs\<lparr>fs_cache := c\<rparr>) = fits fs"
  by (simp add: fits_def)

lemma dk_size_block_flush: "block_flush a st = Some (r, st') \<Longrightarrow> dk_size (device st) \<le> dk_size (device st')"
  using dk_size_disk_write by (auto simp: block_flush_def bind_eq_Some_conv Let_def split_beta)

lemma device_block_delete: "block_delete a st = Some st' \<Longrightarrow> device st' = device st"
  by (auto simp: block_delete_def bind_eq_Some_conv)

lemma dk_size_release: "bc_release n c st = Some (c', st') \<Longrightarrow> dk_size (device st) \<le> dk_size (device st')"
  by (auto simp: bc_release_def Let_def bind_eq_Some_conv split: if_splits dest!: dk_size_block_flush device_block_delete)

lemma dk_size_insert: "bc_insert k a d c st = Some (c', st') \<Longrightarrow> dk_size (device st) \<le> dk_size (device st')"
  by (auto simp: bc_insert_def Let_def bind_eq_Some_conv ASSERT_def split: option.splits if_splits dest!: dk_size_release)

lemma dk_size_remove: "bc_remove k c st = Some (c', st') \<Longrightarrow> dk_size (device st) \<le> dk_size (device st')"
  by (auto simp: bc_remove_def Let_def bind_eq_Some_conv ASSERT_def split: option.splits if_splits dest!: dk_size_release)

lemma device_block_new: "block_new off alloc st = Some (a, st') \<Longrightarrow> device st' = device st"
  by (auto simp: block_new_def bind_eq_Some_conv)

text \<open>A step that only moves blocks between cache and device: the state it leaves has the same contents.\<close>

definition fs_reads :: "u32 set \<Rightarrow> fs \<Rightarrow> fs \<Rightarrow> bool" where
  "fs_reads F fs fs' \<longleftrightarrow> (\<exists>c st. fs' = fs\<lparr>fs_cache := c, fs_store := st\<rparr>) \<and> fs_ndebug fs' = fs_ndebug fs \<and>
     fs_ok F fs' \<and> keeps (\<lambda>j. j \<in> disk_blocks \<and> j \<notin> F) (fs_content fs) (fs_content fs')"

lemma blocks_ok_store: "blocks_ok (g, sb, st) = blocks_ok (g, sb, st')"
  by (simp add: blocks_ok_def)

lemma groups_ok_frame [simp]: "groups_ok (fs\<lparr>fs_cache := c\<rparr>) = groups_ok fs" "groups_ok (fs\<lparr>fs_store := st\<rparr>) = groups_ok fs"
  by (simp_all add: groups_ok_def blocks_ok_def)

lemma allocated_frame [simp]:
  "allocated (fs\<lparr>fs_cache := c\<rparr>) = allocated fs" "allocated (fs\<lparr>fs_store := st\<rparr>) = allocated fs"
  by (auto simp: fun_eq_iff allocated_def group_at_def split: option.split)

lemma fs_reads_allocated: "fs_reads F fs fs' \<Longrightarrow> allocated fs' = allocated fs"
  by (auto simp: fs_reads_def)

lemma fs_reads_content:
  "fs_reads F fs fs' \<Longrightarrow> k \<in> disk_blocks \<Longrightarrow> k \<notin> F \<Longrightarrow> fs_content fs k = Some x \<Longrightarrow> fs_content fs' k = Some x"
  by (auto simp: fs_reads_def keeps_def)

lemma fs_reads_ok: "fs_reads F fs fs' \<Longrightarrow> fs_ok F fs'"
  by (simp add: fs_reads_def)

lemma fs_reads_refl: "fs_ok F fs \<Longrightarrow> fs_reads F fs fs"
  unfolding fs_reads_def by (intro conjI exI [of _ "fs_cache fs"] exI [of _ "fs_store fs"]) simp_all

lemma fs_reads_trans: "fs_reads F fs fs' \<Longrightarrow> fs_reads F fs' fs'' \<Longrightarrow> fs_reads F fs fs''"
proof -
  assume a: "fs_reads F fs fs'" "fs_reads F fs' fs''"
  then obtain c st c' st' where "fs' = fs\<lparr>fs_cache := c, fs_store := st\<rparr>" "fs'' = fs'\<lparr>fs_cache := c', fs_store := st'\<rparr>"
    by (auto simp: fs_reads_def)
  then have "fs'' = fs\<lparr>fs_cache := c', fs_store := st'\<rparr>" by simp
  with a show ?thesis unfolding fs_reads_def by (blast intro: keeps_trans)
qed

text \<open>Block pointers that are still valid: the blocks \<open>ps\<close> were used last, most recent first.\<close>

definition front :: "fs \<Rightarrow> (u32 \<times> addr) list \<Rightarrow> bool" where
  "front fs ps \<longleftrightarrow> recent (fs_cache fs) (map fst ps) \<and> (\<forall>(k, a) \<in> set ps. cached (fs_cache fs) k = Some a)"

definition push :: "u32 \<Rightarrow> addr \<Rightarrow> (u32 \<times> addr) list \<Rightarrow> (u32 \<times> addr) list" where
  "push k a ps = (k, a) # filter (\<lambda>p. fst p \<noteq> k) ps"

lemma front_push:
  assumes "front fs ps" "recent (fs_cache fs') (k # removeAll k (map fst ps))" "cached (fs_cache fs') k = Some a"
    and "\<And>j. j \<noteq> k \<Longrightarrow> cached (fs_cache fs') j = cached (fs_cache fs) j \<or> cached (fs_cache fs') j = None"
  shows "front fs' (push k a ps)"
proof -
  have "map fst (push k a ps) = k # removeAll k (map fst ps)"
    by (simp add: push_def removeAll_filter_not_eq filter_map comp_def eq_commute)
  moreover have "cached (fs_cache fs') j = Some b" if jb: "(j, b) \<in> set ps" "j \<noteq> k" for j b
  proof -
    have "j \<in> set (k # removeAll k (map fst ps))" using jb by force
    then have "cached (fs_cache fs') j \<noteq> None" by (rule recent_cached [OF assms(2)])
    then show ?thesis using assms(1,4) jb by (fastforce simp: front_def)
  qed
  ultimately show ?thesis using assms(2,3) by (auto simp: front_def push_def)
qed

lemma front_Nil [simp]: "fs_ok F fs \<Longrightarrow> front fs []"
  by (auto simp: front_def fs_ok_def intro: recent_Nil)

text \<open>A block that stays in the cache keeps its content, fresh or not.\<close>

definition stays :: "u32 \<Rightarrow> fs \<Rightarrow> fs \<Rightarrow> bool" where
  "stays k fs fs' \<longleftrightarrow> keeps (\<lambda>j. j \<in> disk_blocks \<and> j \<noteq> k \<and> cached (fs_cache fs') j \<noteq> None) (fs_content fs) (fs_content fs')"

section \<open>Reading and writing blocks\<close>

lemma allocated_group:
  assumes "fs_ok F fs" "allocated fs k"
  obtains a g i where "map_of (fs_groups fs) (k div 33794) = Some a" "fs_gheap fs a = Some g"
    "group_wf (unat (k div 33794)) g" "k = block_number (k div 33794) i" "k mod 33794 = word_of_nat i" "i < 32768"
    "i \<in> bm_used (bb_bitmap (block_bitmap g))" "unat (k div 33794) < 15"
proof -
  obtain gi i where k: "k = block_number gi i" "unat gi < 15" "i < 32768"
    using assms(2) by (auto simp: allocated_def elim: disk_blocksE)
  note dm = block_number_div_mod [OF k(2), of i]
  have d: "k div 33794 = gi" "k mod 33794 = word_of_nat i" using dm k by auto
  obtain a g where ag: "map_of (fs_groups fs) gi = Some a" "fs_gheap fs a = Some g"
    "i \<in> bm_used (bb_bitmap (block_bitmap g))"
    using assms(2) k(3) by (auto simp: allocated_def d group_at_def unat_of_nat split: option.splits)
  have "group_wf (unat gi) g"
    using assms(1) map_of_SomeD [OF ag(1)] ag(2) by (fastforce simp: fs_ok_def groups_ok_def)
  with ag k d show ?thesis by (intro that [of a g i]) simp_all
qed

lemma find_block_ok:
  assumes ok: "fs_ok F fs" and k: "allocated fs k" "fs_content fs k = Some x"
  obtains a fs' where "find_block k d fs = Some (Some a, fs')" "fs_reads F fs fs'"
    "cached (fs_cache fs') k = Some a" "fs_content fs' k = Some x" "d \<Longrightarrow> marked (fs_cache fs') k" "stays k fs fs'"
    "\<And>ps. front fs ps \<Longrightarrow> length ps < BLOCK_CACHE_SIZE \<Longrightarrow> front fs' (push k a ps)"
proof -
  have c: "cache_ok block_place disk_blocks F (fs_cache fs) (fs_store fs)" and sz: "bc_size (fs_cache fs) = BLOCK_CACHE_SIZE"
    using ok by (simp_all add: fs_ok_def)
  from cache.get_law [OF c, of k d]
  obtain c1 where c1: "bc_get k d (fs_cache fs) (fs_store fs) = Some (cached (fs_cache fs) k, c1)"
    "cache_ok block_place disk_blocks F c1 (fs_store fs)" "cached c1 = cached (fs_cache fs)"
    "bc_size c1 = BLOCK_CACHE_SIZE" "cached (fs_cache fs) k \<noteq> None \<and> d \<longrightarrow> marked c1 k"
    "\<forall>ks. recent (fs_cache fs) ks \<longrightarrow> recent c1 (if cached (fs_cache fs) k = None then ks else k # removeAll k ks)"
    unfolding sz by blast
  show ?thesis
  proof (cases "cached (fs_cache fs) k")
    case (Some a)
    let ?fs = "fs\<lparr>fs_cache := c1\<rparr>"
    have same: "fs_content ?fs = fs_content fs" by (simp add: fs_content_def cache_content_cong [OF c1(3)])
    show ?thesis
    proof (rule that [of a ?fs])
      show "find_block k d fs = Some (Some a, ?fs)" using c1(1) Some by (simp add: find_block_def)
      show "fs_reads F fs ?fs"
        unfolding fs_reads_def same using ok c1(2-4)
        by (intro conjI exI [of _ c1] exI [of _ "fs_store fs"]) (auto simp: fs_ok_def)
      show "cached (fs_cache ?fs) k = Some a" "fs_content ?fs k = Some x" using Some c1(3) k(2) same by simp_all
      show "marked (fs_cache ?fs) k" if d using that c1(5) Some by simp
      show "stays k fs ?fs" by (simp add: stays_def same)
      show "front ?fs (push k a ps)" if "front fs ps" for ps
        using that c1(3,6) Some by (intro front_push [OF that]) (simp_all add: front_def)
    qed
  next
    case None
    from cache.get_law [OF c1(2), of k False]
    obtain c2 where c2: "bc_get k False c1 (fs_store fs) = Some (None, c2)"
      "cache_ok block_place disk_blocks F c2 (fs_store fs)" "cached c2 = cached (fs_cache fs)"
      "bc_size c2 = BLOCK_CACHE_SIZE" "\<forall>ks. recent c1 ks \<longrightarrow> recent c2 ks"
      unfolding c1(3,4) None by auto
    obtain ga g i where g: "map_of (fs_groups fs) (k div 33794) = Some ga" "fs_gheap fs ga = Some g"
      "group_wf (unat (k div 33794)) g" "k = block_number (k div 33794) i" "k mod 33794 = word_of_nat i" "i < 32768"
      "i \<in> bm_used (bb_bitmap (block_bitmap g))" "unat (k div 33794) < 15"
      by (rule allocated_group [OF ok k(1)])
    have place: "data_block_offset g (word_of_nat i) = block_place k"
      using data_block_offset_place [OF g(3,6)] g(4) by simp
    have t: "bitmap_test (unat (word_of_nat i :: u32)) (bb_bitmap (block_bitmap g)) = Some True"
      using g(6,7) by (simp add: bitmap_test_eq bm_used_def unat_of_nat)
    have kin: "k \<in> disk_blocks" using k(1) by (simp add: allocated_def)
    have cc: "cache_content block_place c2 (fs_store fs) = fs_content fs"
      by (simp add: fs_content_def cache_content_cong [OF c2(3)])
    have n2: "cached c2 k = None" "cache_content block_place c2 (fs_store fs) k = Some x"
      using None c2(3) k(2) cc by simp_all
    obtain a st1 c3 st2 where l: "block_new (block_place k) False (fs_store fs) = Some (a, st1)"
      "bc_insert k a d c2 st1 = Some (c3, st2)" "cache_ok block_place disk_blocks F c3 st2" "cached c3 k = Some a"
      "cache_content block_place c3 st2 k = Some x" "ndebug st2 = ndebug (fs_store fs)" "bc_size c3 = bc_size c2"
      "d \<Longrightarrow> marked c3 k" "\<And>j. j \<noteq> k \<Longrightarrow> cached c3 j = cached c2 j \<or> cached c3 j = None"
      "\<And>ks. recent c2 ks \<Longrightarrow> length ks < bc_size c2 \<Longrightarrow> recent c3 (k # ks)"
      "keeps (\<lambda>j. j \<in> disk_blocks \<and> (j \<notin> F \<or> cached c3 j \<noteq> None)) (cache_content block_place c2 (fs_store fs)) (cache_content block_place c3 st2)"
      by (rule cache.load [OF c2(2) kin n2, of d]) blast
    let ?fs = "fs\<lparr>fs_cache := c3, fs_store := st2\<rparr>"
    have bpg: "blocks_per_group (fs\<lparr>fs_cache := c1\<rparr>) = Some 33794"
      using ok by (simp add: blocks_per_group_def fs_ok_def groups_ok_def)
    have fit: "fits ?fs"
      by (rule fits_mono [of fs]) (use ok dk_size_insert [OF l(2)] device_block_new [OF l(1)] in \<open>simp_all add: fs_ok_def\<close>)
    have alloc: "allocated fs j" if "cached c3 j \<noteq> None" for j
      using ok that l(9) [of j] c2(3) k(1) by (cases "j = k") (auto simp: fs_ok_def)
    show ?thesis
    proof (rule that [of a ?fs])
      show "find_block k d fs = Some (Some a, ?fs)"
        using None c1(1) c2(1) bpg g(1,2,5) t place l(1,2) by (simp add: find_block_def find_group_def group_get_block_def)
      show "fs_reads F fs ?fs"
        unfolding fs_reads_def using ok l(3,6,7,11) c2(4) alloc cc fit
        by (intro conjI exI [of _ c3] exI [of _ st2]) (auto simp: fs_ok_def fs_content_def keeps_def)
      show "cached (fs_cache ?fs) k = Some a" "fs_content ?fs k = Some x" using l(4,5) by (simp_all add: fs_content_def)
      show "marked (fs_cache ?fs) k" if d using that l(8) by simp
      show "stays k fs ?fs" using l(11) cc by (auto simp: stays_def keeps_def fs_content_def)
      show "front ?fs (push k a ps)" if f: "front fs ps" "length ps < BLOCK_CACHE_SIZE" for ps
      proof (rule front_push [OF f(1)])
        have r: "recent (fs_cache fs) (map fst ps)" using f(1) by (simp add: front_def)
        then have "recent c2 (map fst ps)" using c1(6) c2(5) None by simp
        then have "recent c3 (k # map fst ps)" using f(2) c2(4) by (intro l(10)) simp_all
        moreover have "k \<notin> set (map fst ps)" using recent_cached [OF r] None by blast
        ultimately show "recent (fs_cache ?fs) (k # removeAll k (map fst ps))" by (simp add: removeAll_id)
      qed (use l(4,9) c2(3) in simp_all)
    qed
  qed
qed

text \<open>Every allocated block has a content.\<close>

lemma fits_place:
  assumes "fits fs" "(gi, ga) \<in> set (fs_groups fs)" "unat gi < 15" "i < 32768"
  shows "block_place (block_number gi i) + BLOCK_SIZE \<le> dk_size (fs_device fs)"
proof -
  have "gi \<in> fst ` set (fs_groups fs)" using assms(2) by force
  then have "group_pos (Suc (unat gi)) \<le> dk_size (fs_device fs)" using assms(1) unfolding fits_def by blast
  then show ?thesis using unat_block_number [OF assms(3), of i] assms(4) by (simp add: block_place_def group_pos_def)
qed

lemma allocated_content:
  assumes ok: "fs_ok F fs" and k: "allocated fs k"
  obtains x where "fs_content fs k = Some x" "clip BLOCK_SIZE x = x"
proof (cases "cached (fs_cache fs) k")
  case (Some a)
  obtain es where es: "bc_rep (fs_cache fs) es" "wb_ok block_place disk_blocks F es (fs_store fs)"
    using ok by (auto simp: fs_ok_def cache_ok_def)
  obtain v where "map_of es k = Some v" "fst v = a"
    using Some cached_rep [OF es(1), of k] by (cases "map_of es k") auto
  then obtain b where "heap (fs_store fs) a = Some b"
    using es(2) map_of_SomeD [of es k v] by (force simp: wb_ok_def wb_entry_def)
  then show ?thesis using that Some by (simp add: fs_content_def cache_content_def)
next
  case None
  obtain ga g i where g: "map_of (fs_groups fs) (k div 33794) = Some ga" "k = block_number (k div 33794) i" "i < 32768"
    "unat (k div 33794) < 15"
    by (rule allocated_group [OF ok k])
  have "block_place k + BLOCK_SIZE \<le> dk_size (fs_device fs)"
    by (subst g(2), rule fits_place) (use ok map_of_SomeD [OF g(1)] g(3,4) in \<open>simp_all add: fs_ok_def\<close>)
  then have "fs_content fs k = Some (clip BLOCK_SIZE (\<lambda>i. dk_bytes (fs_device fs) (block_place k + i)))"
    using None by (simp add: fs_content_def cache_content_def disk_read_def)
  then show ?thesis by (rule that) simp
qed

text \<open>A change of the content of one block.\<close>

definition fs_writes :: "u32 set \<Rightarrow> u32 \<Rightarrow> bytes \<Rightarrow> fs \<Rightarrow> fs \<Rightarrow> bool" where
  "fs_writes F k y fs fs' \<longleftrightarrow> (\<exists>c st. fs' = fs\<lparr>fs_cache := c, fs_store := st\<rparr>) \<and> fs_ndebug fs' = fs_ndebug fs \<and>
     fs_ok (F - {k}) fs' \<and> fs_content fs' k = Some y \<and>
     keeps (\<lambda>j. j \<in> disk_blocks \<and> j \<notin> F \<and> j \<noteq> k) (fs_content fs) (fs_content fs')"

lemma fs_writes_allocated: "fs_writes F k y fs fs' \<Longrightarrow> allocated fs' = allocated fs"
  by (auto simp: fs_writes_def)

lemma get_bytes_clip: "off + n \<le> m \<Longrightarrow> get_bytes (clip m d) off n = get_bytes d off n"
  by (auto simp: get_bytes_def clip_def)

lemma put_bytes_clip: "off + length bs \<le> m \<Longrightarrow> clip m (put_bytes d off bs) = put_bytes (clip m d) off bs"
  by (auto simp: put_bytes_def clip_def fun_eq_iff)

lemma cached_data:
  assumes "cached (fs_cache fs) k = Some a" "fs_content fs k = Some x"
  obtains d where "block_get a (fs_store fs) = Some d" "clip BLOCK_SIZE d = x"
  using assms by (auto simp: fs_content_def cache_content_def block_get_def)

text \<open>Overwriting the data of a cached dirty block through its pointer.\<close>

lemma block_put_ok:
  assumes ok: "fs_ok F fs" and c: "cached (fs_cache fs) k = Some a" "marked (fs_cache fs) k"
  obtains st where "block_put a d (fs_store fs) = Some st" "fs_writes F k (clip BLOCK_SIZE d) fs (fs\<lparr>fs_store := st\<rparr>)"
    "\<And>ps. front fs ps \<Longrightarrow> front (fs\<lparr>fs_store := st\<rparr>) ps" "stays k fs (fs\<lparr>fs_store := st\<rparr>)"
proof -
  have co: "cache_ok block_place disk_blocks F (fs_cache fs) (fs_store fs)" using ok by (simp add: fs_ok_def)
  obtain es where es: "bc_rep (fs_cache fs) es" "wb_ok block_place disk_blocks F es (fs_store fs)"
    using co by (auto simp: cache_ok_def)
  obtain v where "map_of es k = Some v" "fst v = a"
    using c(1) cached_rep [OF es(1), of k] by (cases "map_of es k") auto
  then obtain b where b: "heap (fs_store fs) a = Some b"
    using es(2) map_of_SomeD [of es k v] by (force simp: wb_ok_def wb_entry_def)
  define st where "st = (fs_store fs)\<lparr>heap := (heap (fs_store fs))(a \<mapsto> b\<lparr>blk_data := d\<rparr>)\<rparr>"
  have p: "block_put a d (fs_store fs) = Some st" using b by (simp add: block_put_def st_def)
  note m = cache_put_marked [OF co c p]
  have "fits (fs\<lparr>fs_store := st\<rparr>)" using ok by (simp add: fs_ok_def fits_def st_def)
  then have "fs_ok (F - {k}) (fs\<lparr>fs_store := st\<rparr>)"
    using ok cache_ok_unfresh [OF m(1) c(2)] by (simp add: fs_ok_def)
  then have "fs_writes F k (clip BLOCK_SIZE d) fs (fs\<lparr>fs_store := st\<rparr>)"
    using m(2) unfolding fs_writes_def
    by (intro conjI exI [of _ "fs_cache fs"] exI [of _ st]) (auto simp: fs_content_def keeps_def st_def)
  moreover have "stays k fs (fs\<lparr>fs_store := st\<rparr>)" using m(2) by (auto simp: stays_def keeps_def fs_content_def)
  ultimately show ?thesis using that [OF p] by (simp add: front_def)
qed

lemma get_block_read:
  assumes ok: "fs_ok F fs" and k: "allocated fs k" "fs_content fs k = Some x" and n: "off + n \<le> BLOCK_SIZE"
  obtains a fs' where "get_block k False off buf n fs = Some (Some (a, get_bytes x off n), fs')" "fs_reads F fs fs'"
    "cached (fs_cache fs') k = Some a" "fs_content fs' k = Some x" "stays k fs fs'"
    "\<And>ps. front fs ps \<Longrightarrow> length ps < BLOCK_CACHE_SIZE \<Longrightarrow> front fs' (push k a ps)"
proof -
  obtain a fs' where f: "find_block k False fs = Some (Some a, fs')" "fs_reads F fs fs'"
    "cached (fs_cache fs') k = Some a" "fs_content fs' k = Some x" "False \<Longrightarrow> marked (fs_cache fs') k" "stays k fs fs'"
    "\<And>ps. front fs ps \<Longrightarrow> length ps < BLOCK_CACHE_SIZE \<Longrightarrow> front fs' (push k a ps)"
    by (rule find_block_ok [OF ok k, of False]) blast
  obtain d where d: "block_get a (fs_store fs') = Some d" "clip BLOCK_SIZE d = x" by (rule cached_data [OF f(3,4)])
  have "block_copy False off buf n a (fs_store fs') = Some (get_bytes x off n, fs_store fs')"
    using d n get_bytes_clip [of off n BLOCK_SIZE d] by (auto simp: block_copy_def get_bytes_def)
  then have "get_block k False off buf n fs = Some (Some (a, get_bytes x off n), fs')"
    using f(1) by (simp add: get_block_def)
  then show ?thesis using that f(2,3,4,6,7) by blast
qed

lemma get_block_write:
  assumes ok: "fs_ok F fs" and k: "allocated fs k" "fs_content fs k = Some x"
    and n: "off + n \<le> BLOCK_SIZE" "n \<le> length buf"
  obtains a fs' where "get_block k True off buf n fs = Some (Some (a, []), fs')"
    "fs_writes F k (put_bytes x off (take n buf)) fs fs'" "cached (fs_cache fs') k = Some a" "stays k fs fs'"
    "\<And>ps. front fs ps \<Longrightarrow> length ps < BLOCK_CACHE_SIZE \<Longrightarrow> front fs' (push k a ps)"
proof -
  obtain a fs1 where f: "find_block k True fs = Some (Some a, fs1)" "fs_reads F fs fs1"
    "cached (fs_cache fs1) k = Some a" "fs_content fs1 k = Some x" "True \<Longrightarrow> marked (fs_cache fs1) k" "stays k fs fs1"
    "\<And>ps. front fs ps \<Longrightarrow> length ps < BLOCK_CACHE_SIZE \<Longrightarrow> front fs1 (push k a ps)"
    by (rule find_block_ok [OF ok k, of True]) blast
  obtain d where d: "block_get a (fs_store fs1) = Some d" "clip BLOCK_SIZE d = x" by (rule cached_data [OF f(3,4)])
  obtain st where st: "block_put a (put_bytes d off (take n buf)) (fs_store fs1) = Some st"
    "fs_writes F k (clip BLOCK_SIZE (put_bytes d off (take n buf))) fs1 (fs1\<lparr>fs_store := st\<rparr>)"
    "\<And>ps. front fs1 ps \<Longrightarrow> front (fs1\<lparr>fs_store := st\<rparr>) ps" "stays k fs1 (fs1\<lparr>fs_store := st\<rparr>)"
    by (rule block_put_ok [OF fs_reads_ok [OF f(2)] f(3) f(5) [OF TrueI]]) blast
  have pc: "clip BLOCK_SIZE (put_bytes d off (take n buf)) = put_bytes x off (take n buf)"
    using d(2) n by (simp add: put_bytes_clip)
  have w: "fs_writes F k (put_bytes x off (take n buf)) fs (fs1\<lparr>fs_store := st\<rparr>)"
  proof -
    obtain c1 st1 where fs1: "fs1 = fs\<lparr>fs_cache := c1, fs_store := st1\<rparr>" using f(2) by (auto simp: fs_reads_def)
    have "keeps (\<lambda>j. j \<in> disk_blocks \<and> j \<notin> F \<and> j \<noteq> k) (fs_content fs) (fs_content fs1)"
      using f(2) by (auto simp: fs_reads_def keeps_def)
    then show ?thesis using st(2) f(2) unfolding pc fs_writes_def fs_reads_def
      by (auto simp: fs1 intro: keeps_trans)
  qed
  show ?thesis
  proof (cases "n = 0")
    case True
    have "fs_writes F k (put_bytes x off (take n buf)) fs fs1"
      using f(2) cache_ok_unfresh [OF _ f(5) [OF TrueI], of block_place disk_blocks F] True f(4)
      by (auto simp: fs_writes_def fs_reads_def fs_ok_def keeps_def)
    moreover have "get_block k True off buf n fs = Some (Some (a, []), fs1)"
      using f(1) True by (simp add: get_block_def block_copy_def)
    ultimately show ?thesis using that f(3,6,7) by blast
  next
    case False
    have "block_copy True off buf n a (fs_store fs1) = Some ([], st)"
      using d(1) n st(1) False by (simp add: block_copy_def)
    then have "get_block k True off buf n fs = Some (Some (a, []), fs1\<lparr>fs_store := st\<rparr>)"
      using f(1) by (simp add: get_block_def)
    moreover have "stays k fs (fs1\<lparr>fs_store := st\<rparr>)" using f(6) st(4) by (auto simp: stays_def keeps_def)
    ultimately show ?thesis using that [OF _ w] f(3,7) st(3) by simp
  qed
qed

section \<open>Block access refines an array of blocks\<close>

datatype block_io = Read u32 nat nat | Write u32 nat "byte list"

fun io_run :: "block_io list \<Rightarrow> fs \<Rightarrow> (byte list list \<times> fs) option" where
  "io_run [] fs = Some ([], fs)"
| "io_run (Read k off n # xs) fs = do {
     (r, fs) \<leftarrow> get_block k False off [] n fs;
     (_, bs) \<leftarrow> r;
     (rs, fs) \<leftarrow> io_run xs fs;
     Some (bs # rs, fs)
   }"
| "io_run (Write k off bs # xs) fs = do {
     (r, fs) \<leftarrow> get_block k True off bs (length bs) fs;
     _ \<leftarrow> r;
     (rs, fs) \<leftarrow> io_run xs fs;
     Some ([] # rs, fs)
   }"

text \<open>The specification: an array of blocks without cache and device.\<close>

fun array_run :: "block_io list \<Rightarrow> (u32 \<Rightarrow> bytes) \<Rightarrow> byte list list \<times> (u32 \<Rightarrow> bytes)" where
  "array_run [] m = ([], m)"
| "array_run (Read k off n # xs) m = (let (rs, m') = array_run xs m in (get_bytes (m k) off n # rs, m'))"
| "array_run (Write k off bs # xs) m =
     (let (rs, m') = array_run xs (m(k := put_bytes (m k) off bs)) in ([] # rs, m'))"

fun io_legal :: "u32 set \<Rightarrow> fs \<Rightarrow> block_io \<Rightarrow> bool" where
  "io_legal F fs (Read k off n) \<longleftrightarrow> allocated fs k \<and> k \<notin> F \<and> off + n \<le> BLOCK_SIZE"
| "io_legal F fs (Write k off bs) \<longleftrightarrow> allocated fs k \<and> k \<notin> F \<and> off + length bs \<le> BLOCK_SIZE"

definition shows_array :: "u32 set \<Rightarrow> fs \<Rightarrow> (u32 \<Rightarrow> bytes) \<Rightarrow> bool" where
  "shows_array F fs m \<longleftrightarrow> fs_ok F fs \<and> (\<forall>k. allocated fs k \<and> k \<notin> F \<longrightarrow> fs_content fs k = Some (m k))"

lemma allocated_disk_blocks: "allocated fs k \<Longrightarrow> k \<in> disk_blocks"
  by (simp add: allocated_def)

lemma shows_array_reads: "shows_array F fs m \<Longrightarrow> fs_reads F fs fs' \<Longrightarrow> shows_array F fs' m"
  by (auto simp: shows_array_def fs_reads_allocated fs_reads_ok intro: fs_reads_content allocated_disk_blocks)

lemma shows_array_writes:
  assumes "shows_array F fs m" "fs_writes F k y fs fs'" "k \<notin> F"
  shows "shows_array F fs' (m(k := y))"
  using assms unfolding shows_array_def fs_writes_allocated [OF assms(2)]
  by (auto simp: fs_writes_def keeps_def intro: allocated_disk_blocks)

lemma io_legal_cong: "allocated fs' = allocated fs \<Longrightarrow> io_legal F fs' x = io_legal F fs x"
  by (cases x) simp_all

lemma io_run_refines:
  assumes "shows_array F fs m" "\<forall>x \<in> set xs. io_legal F fs x"
  shows "\<exists>fs'. io_run xs fs = Some (fst (array_run xs m), fs') \<and> shows_array F fs' (snd (array_run xs m)) \<and>
    allocated fs' = allocated fs"
  using assms
proof (induction xs arbitrary: fs m)
  case (Cons x xs)
  have ok: "fs_ok F fs" using Cons.prems(1) by (simp add: shows_array_def)
  show ?case
  proof (cases x)
    case (Read k off n)
    have k: "allocated fs k" "fs_content fs k = Some (m k)" "off + n \<le> BLOCK_SIZE"
      using Cons.prems by (simp_all add: Read shows_array_def)
    obtain a fs1 where g: "get_block k False off [] n fs = Some (Some (a, get_bytes (m k) off n), fs1)" "fs_reads F fs fs1"
      by (rule get_block_read [OF ok k])
    have "\<forall>x \<in> set xs. io_legal F fs1 x"
      using Cons.prems(2) io_legal_cong [OF fs_reads_allocated [OF g(2)]] by simp
    from Cons.IH [OF shows_array_reads [OF Cons.prems(1) g(2)] this] g(1)
    show ?thesis by (auto simp: Read Let_def split_beta fs_reads_allocated [OF g(2)])
  next
    case (Write k off bs)
    have k: "allocated fs k" "fs_content fs k = Some (m k)" "off + length bs \<le> BLOCK_SIZE" "k \<notin> F"
      using Cons.prems by (simp_all add: Write shows_array_def)
    obtain a fs1 where g: "get_block k True off bs (length bs) fs = Some (Some (a, []), fs1)"
      "fs_writes F k (put_bytes (m k) off (take (length bs) bs)) fs fs1"
      by (rule get_block_write [OF ok k(1-3) order_refl]) blast
    have "\<forall>x \<in> set xs. io_legal F fs1 x"
      using Cons.prems(2) io_legal_cong [OF fs_writes_allocated [OF g(2)]] by simp
    from Cons.IH [OF shows_array_writes [OF Cons.prems(1) g(2) k(4)] this] g(1)
    show ?thesis by (auto simp: Write Let_def split_beta fs_writes_allocated [OF g(2)] fun_upd_def)
  qed
qed auto

section \<open>A small file system\<close>

text \<open>One group with three allocated blocks and an empty cache, for examples.\<close>

definition small_group :: block_group where
  "small_group = \<lparr>grp_desc = 0,
     block_bitmap = \<lparr>bb_offset = 8192, bb_bitmap = \<lparr>bm_words = 1024, bm_data = (\<lambda>_. 0)(0 := 7)\<rparr>\<rparr>,
     inode_bitmap = \<lparr>bb_offset = 4096, bb_bitmap = \<lparr>bm_words = 1024, bm_data = (\<lambda>_. 0)(0 := 1)\<rparr>\<rparr>,
     inode_table = []\<rparr>"

definition small_super :: super_block where
  "small_super = \<lparr>sb_super = (get_super_at (\<lambda>_. 0) 0)\<lparr>s_log_block_size := 2, s_blocks_per_group := 33794,
       s_inodes_per_group := 32768, s_blocks_count := 6, s_inodes_count := 1, s_state := NORMAL\<rparr>,
     sb_descs = (\<lambda>_. (get_desc_at (\<lambda>_. 0) 0)\<lparr>bg_block_bitmap := 8192, bg_inode_bitmap := 4096,
       bg_free_blocks_count := 32765, bg_free_inodes_count := 32767\<rparr>),
     desc_table = [0]\<rparr>"

definition small_fs :: fs where
  "small_fs = \<lparr>fs_store = \<lparr>ndebug = False, device = sound_disk 268435456 (\<lambda>_. 1), heap = (\<lambda>_. None), brk = 0\<rparr>,
     fs_super = small_super, fs_root = (0, 0), fs_gheap = [0 \<mapsto> small_group], fs_gbrk = 1, fs_groups = [(0, 0)],
     fs_cache = BlockCache_new BLOCK_CACHE_SIZE,
     fs_dcache = \<lparr>dc_ndebug = False, dc_nodes = [0 \<mapsto> \<lparr>dn_inode = 0, dn_name_len = 1, dn_childs = None, dn_next = None, dn_name = [47]\<rparr>],
       dc_brk = 1, dc_root = 0, dc_size = 1, dc_max_size = 1024\<rparr>\<rparr>"

lemma free_count_eq: "bm_words b = 1024 \<Longrightarrow> bm.free_count b = 32768 - card (bm_used b)"
proof -
  assume "bm_words b = 1024"
  then have "bm_cap b = 32768" by (simp add: bm_cap_def)
  then show ?thesis using bm.used_cap [of b] by (simp add: bm.free_count_def card_Diff_subset)
qed

lemma bm_used_low:
  assumes "\<And>i. i < 32 \<Longrightarrow> bit w i = (i < n)" "n \<le> 32"
  shows "bm_used \<lparr>bm_words = 1024, bm_data = (\<lambda>_. 0)(0 := w)\<rparr> = {..<n}"
proof -
  have "bit_at \<lparr>bm_words = 1024, bm_data = (\<lambda>_. 0)(0 := w)\<rparr> i \<longleftrightarrow> i < n" for i
  proof (cases "i < 32")
    case True
    then show ?thesis using assms(1) by (simp add: bit_at_def)
  next
    case False
    then have "i div 32 \<noteq> 0" by (simp add: div_eq_0_iff)
    with False assms(2) show ?thesis by (simp add: bit_at_def)
  qed
  then have "bm_used \<lparr>bm_words = 1024, bm_data = (\<lambda>_. 0)(0 := w)\<rparr> = {i. i < 32768 \<and> i < n}"
    by (simp add: bm_used_def bm_cap_def)
  also have "\<dots> = {..<n}" using assms(2) by auto
  finally show ?thesis .
qed

lemma bit_7: "i < 32 \<Longrightarrow> bit (7 :: u32) i \<longleftrightarrow> i < 3"
  using bit_mask_iff [of 3 i, where 'a = u32] by (auto simp: mask_eq_exp_minus_1)

lemma small_group_used: "bm_used (bb_bitmap (block_bitmap small_group)) = {..<3}"
  using bm_used_low [of 7 3] bit_7 by (simp add: small_group_def)

lemma small_group_wf: "group_wf 0 small_group"
  by (simp add: group_wf_def small_group_def group_pos_def)

lemma small_fs_groups_ok: "groups_ok small_fs"
proof -
  have "bm.free_count (bb_bitmap (block_bitmap small_group)) = 32765"
    by (subst free_count_eq) (simp add: small_group_def, simp add: small_group_used)
  then have "blocks_ok (small_group, small_super, st)" for st
    by (simp add: blocks_ok_def small_group_def small_super_def)
  moreover have "grp_desc small_group = 0" by (simp add: small_group_def)
  ultimately show ?thesis
    using small_group_wf by (simp add: groups_ok_def small_fs_def omap_ok_def) (simp add: small_super_def)
qed

lemma cache_ok_new:
  assumes "\<forall>a. brk st \<le> a \<longrightarrow> heap st a = None" "0 < n" "layout off K" "dk_faults (device st) = []"
  shows "cache_ok off K F (BlockCache_new n) st"
  using assms bc_rep_new [of n] unfolding cache_ok_def by (auto simp: wb_ok_def BlockCache_new_def)

lemma cached_new [simp]: "cached (BlockCache_new n) k = None"
  by (simp add: cached_rep [OF bc_rep_new])

lemma small_fs_ok: "fs_ok {} small_fs"
  unfolding fs_ok_def fits_def
  using small_fs_groups_ok
  by (auto simp: small_fs_def layout_disk_blocks group_pos_def intro!: cache_ok_new) (simp add: BlockCache_new_def)

lemma small_fs_allocated: "allocated small_fs k \<longleftrightarrow> unat k < 3"
proof
  assume k: "unat k < 3"
  then have "unat (k div 33794) = 0" by (simp add: unat_div)
  then have "k div 33794 = 0" by (simp add: unat_eq_0)
  with k show "allocated small_fs k"
    by (simp add: allocated_def disk_blocks_def group_at_def small_fs_def small_group_used unat_mod)
next
  assume a: "allocated small_fs k"
  then have "k div 33794 = 0" "unat (k mod 33794) < 3"
    by (auto simp: allocated_def group_at_def small_fs_def small_group_used split: option.splits if_splits)
  then have "unat k div 33794 = 0" "unat k mod 33794 < 3" by (simp_all add: word_unat_eq_iff unat_div unat_mod)
  then show "unat k < 3" by (simp add: div_eq_0_iff)
qed

lemma small_fs_content: "unat k < 3 \<Longrightarrow> fs_content small_fs k = Some (clip BLOCK_SIZE (\<lambda>_. 1))"
  by (auto simp: fs_content_def cache_content_def small_fs_def disk_read_def block_place_def)

lemma small_fs_array: "shows_array {} small_fs (\<lambda>_. clip BLOCK_SIZE (\<lambda>_. 1))"
  using small_fs_ok small_fs_allocated small_fs_content by (simp add: shows_array_def)

section \<open>Properties\<close>

text \<open>
  C6 (refinement): \<open>get_block\<close> on allocated blocks behaves as an array of blocks, on a sound device.
  Whatever sequence of reads and writes is run, and however the cache evicts, writes back and reloads
  blocks on the way, every read returns exactly the bytes that the sequence has written there last (or
  that were there before), the run completes, and afterwards every block has the content of the array.
  Exempt are the blocks of \<open>F\<close>, which were allocated and not yet written: they are clean in the cache
  without being on the device, are not used by the sequence, and may lose their content.
\<close>

theorem block_io_refines_array:
  assumes "shows_array F fs m" "\<forall>x \<in> set xs. io_legal F fs x"
  shows "\<exists>fs'. io_run xs fs = Some (fst (array_run xs m), fs') \<and>
           (\<forall>k. allocated fs k \<and> k \<notin> F \<longrightarrow> fs_content fs' k = Some (snd (array_run xs m) k))"
proof -
  obtain fs' where "io_run xs fs = Some (fst (array_run xs m), fs')" "shows_array F fs' (snd (array_run xs m))"
    "allocated fs' = allocated fs"
    using io_run_refines [OF assms] by blast
  then show ?thesis by (auto simp: shows_array_def)
qed

theorem block_io_refines_array_witness:
  "\<exists>fs'. io_run [Write 1 10 [5, 6], Read 2 0 1, Read 1 9 3] small_fs = Some ([[], [1], [1, 5, 6]], fs')"
proof -
  let ?xs = "[Write 1 10 [5, 6], Read 2 0 1, Read 1 9 3]"
  have "fst (array_run ?xs (\<lambda>_. clip BLOCK_SIZE (\<lambda>_. 1))) = [[], [1], [1, 5, 6]]"
    by (simp add: get_bytes_def put_bytes_def clip_def upt_rec)
  moreover have "\<forall>x \<in> set ?xs. io_legal {} small_fs x" by (simp add: small_fs_allocated)
  ultimately show ?thesis
    using block_io_refines_array [OF small_fs_array, of ?xs] by (simp only:) blast
qed

end
