(* ===== verification/Fs_Alloc.thy ===== *)
theory Fs_Alloc
  imports Fs_Coherence
begin

text \<open>
  Allocation and release of blocks by \<open>FileSystem\<close>: what \<open>alloc_block\<close> and \<open>free_block\<close> do to the
  invariant of \<open>Fs_Coherence\<close>, to the set of allocated blocks and to the contents of the others.
\<close>

section \<open>Allocation\<close>

definition group_full :: "block_group \<Rightarrow> bool" where
  "group_full g \<longleftrightarrow> bm_used (bb_bitmap (block_bitmap g)) = {..<32768}"

definition has_room :: "fs \<Rightarrow> bool" where
  "has_room fs \<longleftrightarrow> (\<exists>(gi, a) \<in> set (fs_groups fs). \<exists>g. fs_gheap fs a = Some g \<and> \<not> group_full g)"

lemma distinct_snd: "distinct (map snd xs) \<Longrightarrow> (a, x) \<in> set xs \<Longrightarrow> (b, x) \<in> set xs \<Longrightarrow> a = b"
  by (induction xs) (auto simp: image_iff)

lemma groups_okD:
  assumes "groups_ok fs" "(gi, a) \<in> set (fs_groups fs)"
  obtains g where "fs_gheap fs a = Some g" "group_wf (unat gi) g" "grp_desc g = unat gi"
    "blocks_ok (g, fs_super fs, st)" "a < fs_gbrk fs" "unat gi < 15" "map_of (fs_groups fs) gi = Some a"
proof -
  obtain g where g: "fs_gheap fs a = Some g" "group_wf (unat gi) g" "grp_desc g = unat gi"
    "blocks_ok (g, fs_super fs, fs_store fs)" "a < fs_gbrk fs"
    using assms unfolding groups_ok_def by blast
  have "distinct (map fst (fs_groups fs))" using assms(1) omap_ok_distinct by (auto simp: groups_ok_def)
  then have "map_of (fs_groups fs) gi = Some a" using assms(2) by (rule map_of_is_SomeI)
  moreover have "unat gi < 15" using g(2) by (simp add: group_wf_def)
  moreover have "blocks_ok (g, fs_super fs, st)" using g(4) by (simp add: blocks_ok_def)
  ultimately show ?thesis using that [OF g(1-3)] g(5) by blast
qed

lemma free_count_full: "blocks_ok (g, sb, st) \<Longrightarrow> bg_free_blocks_count (sb_descs sb (grp_desc g)) = 0 \<longleftrightarrow> group_full g"
proof -
  assume a: "blocks_ok (g, sb, st)"
  then have "bm_cap (bb_bitmap (block_bitmap g)) = 32768" by (simp add: blocks_ok_def bm_cap_def)
  with a bm.free_count_eq_0 [of "bb_bitmap (block_bitmap g)"] show ?thesis
    by (auto simp: blocks_ok_def group_full_def unat_eq_0 [symmetric])
qed

text \<open>The loop stops at the first group with a free block and leaves the others alone.\<close>

lemma alloc_block_loop_skip:
  assumes "groups_ok fs" "set gs \<subseteq> set (fs_groups fs)"
    and "\<forall>(gi, a) \<in> set gs. \<forall>g. fs_gheap fs a = Some g \<longrightarrow> group_full g"
  shows "alloc_block_loop (gs @ rest) fs = alloc_block_loop rest fs"
  using assms(2,3)
proof (induction gs)
  case (Cons x gs)
  obtain gi ga where x: "x = (gi, ga)" by (cases x)
  have "(gi, ga) \<in> set (fs_groups fs)" using Cons.prems(1) by (simp add: x)
  then obtain g where g: "fs_gheap fs ga = Some g" "blocks_ok (g, fs_super fs, fs_store fs)"
    by (rule groups_okD [OF assms(1)])
  have slot: "desc_at (fs_super fs) (grp_desc g) = Some (sb_descs (fs_super fs) (grp_desc g))"
    using g(2) by (simp add: desc_at_def blocks_ok_def)
  have "group_full g" using Cons.prems(2) g(1) by (simp add: x)
  then have z: "bg_free_blocks_count (sb_descs (fs_super fs) (grp_desc g)) = 0" using free_count_full [OF g(2)] by simp
  have "alloc_block_loop ((x # gs) @ rest) fs = alloc_block_loop (gs @ rest) fs"
    unfolding x using g(1) slot z by simp
  also have "\<dots> = alloc_block_loop rest fs" using Cons.prems by (intro Cons.IH) simp_all
  finally show ?case .
qed simp

lemma alloc_block_loop_ok:
  assumes ok: "groups_ok fs" and room: "has_room fs"
  obtains gi ga g i b bm sb' st' where "(gi, ga) \<in> set (fs_groups fs)" "fs_gheap fs ga = Some g" "i < 32768"
    "i \<notin> bm_used (bb_bitmap (block_bitmap g))" "bm_used bm = insert i (bm_used (bb_bitmap (block_bitmap g)))" "bm_words bm = 1024"
    "sb' = desc_set (fs_super fs) (unat gi) (\<lambda>x. x\<lparr>bg_free_blocks_count := bg_free_blocks_count x - 1\<rparr>)"
    "blocks_ok (with_blocks bm g, sb', st')"
    "block_new (data_block_offset g (word_of_nat i)) True (fs_store fs) = Some (b, st')"
    "alloc_block_loop (fs_groups fs) fs = Some (Some (gi, b, word_of_nat i),
       (fs_set_group ga (with_blocks bm g) fs)\<lparr>fs_super := sb', fs_store := st'\<rparr>)"
proof -
  let ?full = "\<lambda>p. \<forall>g. fs_gheap fs (snd p) = Some g \<longrightarrow> group_full g"
  have "\<exists>x \<in> set (fs_groups fs). \<not> ?full x" using room by (force simp: has_room_def)
  then obtain pre x post where split: "fs_groups fs = pre @ x # post" "\<not> ?full x" "\<forall>y \<in> set pre. ?full y"
    using split_list_first_prop [of "fs_groups fs" "\<lambda>p. \<not> ?full p"] by blast
  obtain gi ga where x: "x = (gi, ga)" by (cases x)
  have mem: "(gi, ga) \<in> set (fs_groups fs)" using split(1) by (simp add: x)
  then obtain g where g: "fs_gheap fs ga = Some g" "grp_desc g = unat gi" "blocks_ok (g, fs_super fs, fs_store fs)"
    by (rule groups_okD [OF ok])
  have slot: "desc_at (fs_super fs) (grp_desc g) = Some (sb_descs (fs_super fs) (grp_desc g))"
    using g(3) by (simp add: desc_at_def blocks_ok_def)
  have nf: "\<not> group_full g" using split(2) g(1) by (simp add: x)
  then have nz: "bg_free_blocks_count (sb_descs (fs_super fs) (grp_desc g)) \<noteq> 0" using free_count_full [OF g(3)] by simp
  show ?thesis
  proof (cases rule: group_alloc_block_cases [OF g(3)])
    case 1
    then show ?thesis using nf by (simp add: blocks_used_def group_full_def)
  next
    case ok: (2 i a bm sb' st')
    have "alloc_block_loop (fs_groups fs) fs = alloc_block_loop (x # post) fs"
      unfolding split(1) by (rule alloc_block_loop_skip [OF assms(1)]) (use split in auto)
    also have "\<dots> = Some (Some (gi, a, word_of_nat i), (fs_set_group ga (with_blocks bm g) fs)\<lparr>fs_super := sb', fs_store := st'\<rparr>)"
      unfolding x using g(1) slot nz ok(4) by (simp add: alloc_block_in_def)
    finally show ?thesis
      using ok by (intro that [OF mem g(1) ok(1)]) (simp_all add: blocks_used_def g(2))
  qed
qed

text \<open>What does not change: everything but blocks, their bitmaps and the counters.\<close>

definition same_meta :: "fs \<Rightarrow> fs \<Rightarrow> bool" where
  "same_meta fs fs' \<longleftrightarrow> fs_groups fs' = fs_groups fs \<and> fs_root fs' = fs_root fs \<and> fs_dcache fs' = fs_dcache fs \<and>
     fs_gbrk fs' = fs_gbrk fs \<and> fs_ndebug fs' = fs_ndebug fs \<and>
     s_log_block_size (super_of fs') = s_log_block_size (super_of fs) \<and>
     (\<forall>a. map_option (\<lambda>g. (grp_desc g, inode_bitmap g, inode_table g)) (fs_gheap fs' a) =
          map_option (\<lambda>g. (grp_desc g, inode_bitmap g, inode_table g)) (fs_gheap fs a))"

lemma same_meta_refl [simp]: "same_meta fs fs"
  by (simp add: same_meta_def)

lemma same_meta_trans: "same_meta fs fs' \<Longrightarrow> same_meta fs' fs'' \<Longrightarrow> same_meta fs fs''"
  by (simp add: same_meta_def)

lemma same_meta_inode:
  assumes "same_meta fs fs'"
  shows "fs_inode p fs' = fs_inode p fs"
proof -
  have "map_option (\<lambda>g. (grp_desc g, inode_bitmap g, inode_table g)) (fs_gheap fs' (fst p)) =
      map_option (\<lambda>g. (grp_desc g, inode_bitmap g, inode_table g)) (fs_gheap fs (fst p))"
    using assms by (simp add: same_meta_def)
  then show ?thesis
    by (cases "fs_gheap fs' (fst p)"; cases "fs_gheap fs (fst p)") (simp_all add: fs_inode_def group_inode_def)
qed

lemma fs_reads_meta: "fs_reads F fs fs' \<Longrightarrow> same_meta fs fs'"
  by (auto simp: fs_reads_def same_meta_def)

lemma fs_writes_meta: "fs_writes F k y fs fs' \<Longrightarrow> same_meta fs fs'"
  by (auto simp: fs_writes_def same_meta_def)

definition fs_allocs :: "u32 set \<Rightarrow> u32 \<Rightarrow> addr \<Rightarrow> fs \<Rightarrow> fs \<Rightarrow> bool" where
  "fs_allocs F k b fs fs' \<longleftrightarrow> k \<in> disk_blocks \<and> \<not> allocated fs k \<and> allocated fs' = (allocated fs)(k := True) \<and>
     fs_ok (insert k F) fs' \<and> fs_content fs' k = Some (\<lambda>_. 0) \<and> cached (fs_cache fs') k = Some b \<and> same_meta fs fs' \<and>
     keeps (\<lambda>j. j \<in> disk_blocks \<and> j \<notin> F \<and> j \<noteq> k) (fs_content fs) (fs_content fs')"

lemma group_at_upd:
  assumes "groups_ok fs" "(gi, ga) \<in> set (fs_groups fs)"
    and "fs_groups fs' = fs_groups fs" "fs_gheap fs' = (fs_gheap fs)(ga \<mapsto> g')"
  shows "group_at fs' = (group_at fs)(gi \<mapsto> g')"
proof
  fix gj
  have d: "distinct (map fst (fs_groups fs))" "distinct (map snd (fs_groups fs))"
    using assms(1) omap_ok_distinct by (auto simp: groups_ok_def)
  have m: "map_of (fs_groups fs) gi = Some ga" using d(1) assms(2) by simp
  show "group_at fs' gj = ((group_at fs)(gi \<mapsto> g')) gj"
  proof (cases "gj = gi")
    case True
    then show ?thesis using m by (simp add: group_at_def assms(3,4))
  next
    case False
    have "b \<noteq> ga" if "map_of (fs_groups fs) gj = Some b" for b
      using map_of_SomeD [OF that] distinct_snd [OF d(2) assms(2)] False by auto
    then show ?thesis using False by (auto simp: group_at_def assms(3,4) split: option.split)
  qed
qed

lemma allocated_upd:
  assumes "group_at fs' = (group_at fs)(gi \<mapsto> g')" "group_at fs gi = Some g" "unat gi < 15" "i < 32768"
    and "\<And>j. j \<noteq> i \<Longrightarrow> j \<in> bm_used (bb_bitmap (block_bitmap g')) \<longleftrightarrow> j \<in> bm_used (bb_bitmap (block_bitmap g))"
  shows "allocated fs' = (allocated fs)(block_number gi i := i \<in> bm_used (bb_bitmap (block_bitmap g')))"
proof
  fix k
  show "allocated fs' k = ((allocated fs)(block_number gi i := i \<in> bm_used (bb_bitmap (block_bitmap g')))) k"
  proof (cases "k \<in> disk_blocks")
    case False
    then show ?thesis using block_number_disk_blocks [OF assms(3,4)] by (auto simp: allocated_def)
  next
    case True
    then obtain gj j where k: "k = block_number gj j" "unat gj < 15" "j < 32768" by (rule disk_blocksE)
    note dk = block_number_div_mod [OF k(2), of j, folded k(1)]
    have dm: "k div 33794 = gj" "unat (k mod 33794) = j" using dk k(3) by (simp_all add: unat_of_nat)
    note di = block_number_div_mod [OF assms(3), of i]
    have "gj = gi \<and> j = i" if "k = block_number gi i"
      using di dm assms(4) unfolding that by (simp add: unat_of_nat)
    then have eq: "k = block_number gi i \<longleftrightarrow> gj = gi \<and> j = i" using k(1) by blast
    show ?thesis
    proof (cases "gj = gi")
      case True
      then show ?thesis using \<open>k \<in> disk_blocks\<close> assms(2) assms(5) [of j] by (simp add: allocated_def dm assms(1) eq)
    next
      case False
      then show ?thesis using \<open>k \<in> disk_blocks\<close> by (simp add: allocated_def dm assms(1) eq)
    qed
  qed
qed

lemma groups_ok_set:
  assumes ok: "groups_ok fs" and m: "(gi, ga) \<in> set (fs_groups fs)" "fs_gheap fs ga = Some g"
    and b: "bm_words bm = 1024" "blocks_ok (with_blocks bm g, desc_set (fs_super fs) (unat gi) f, st)"
  shows "groups_ok ((fs_set_group ga (with_blocks bm g) fs)\<lparr>fs_super := desc_set (fs_super fs) (unat gi) f, fs_store := st\<rparr>)"
proof -
  have d: "distinct (map snd (fs_groups fs))" using ok by (simp add: groups_ok_def)
  let ?fs = "(fs_set_group ga (with_blocks bm g) fs)\<lparr>fs_super := desc_set (fs_super fs) (unat gi) f, fs_store := st\<rparr>"
  have "a < fs_gbrk ?fs \<and> (\<exists>g. fs_gheap ?fs a = Some g \<and> group_wf (unat gj) g \<and> grp_desc g = unat gj \<and>
      blocks_ok (g, fs_super ?fs, fs_store ?fs))" if mj: "(gj, a) \<in> set (fs_groups fs)" for gj a
  proof -
    obtain h where h: "fs_gheap fs a = Some h" "group_wf (unat gj) h" "grp_desc h = unat gj"
      "blocks_ok (h, fs_super fs, st)" "a < fs_gbrk fs" "unat gj < 15" "map_of (fs_groups fs) gj = Some a"
      by (rule groups_okD [OF ok mj])
    show ?thesis
    proof (cases "a = ga")
      case True
      then have gj: "gj = gi" using distinct_snd [OF d m(1)] mj by simp
      have "h = g" using h(1) m(2) True by simp
      then show ?thesis using h b True by (simp add: fs_set_group_def gj group_wf_def)
    next
      case False
      have "map_of (fs_groups fs) gi = Some ga" by (rule groups_okD [OF ok m(1)])
      with False h(7) have "gj \<noteq> gi" by auto
      then have "unat gj \<noteq> unat gi" by (simp add: word_unat_eq_iff)
      then show ?thesis using h False by (simp add: fs_set_group_def blocks_ok_def)
    qed
  qed
  then show ?thesis using ok by (simp add: groups_ok_def fs_set_group_def)
qed

lemma super_upd_counts [simp]:
  "groups_ok (super_upd f fs) = groups_ok fs" if "\<And>s. s_blocks_per_group (f s) = s_blocks_per_group s" "\<And>s. s_inodes_per_group (f s) = s_inodes_per_group s"
  using that by (simp add: groups_ok_def super_upd_def blocks_ok_def)

lemma super_upd_simps [simp]:
  "fs_store (super_upd f fs) = fs_store fs" "fs_groups (super_upd f fs) = fs_groups fs" "fs_gheap (super_upd f fs) = fs_gheap fs"
  "fs_cache (super_upd f fs) = fs_cache fs" "fs_gbrk (super_upd f fs) = fs_gbrk fs" "fs_root (super_upd f fs) = fs_root fs"
  "fs_dcache (super_upd f fs) = fs_dcache fs" "super_of (super_upd f fs) = f (super_of fs)"
  "sb_descs (fs_super (super_upd f fs)) = sb_descs (fs_super fs)" "desc_table (fs_super (super_upd f fs)) = desc_table (fs_super fs)"
  by (simp_all add: super_upd_def)

lemma fs_set_group_simps [simp]:
  "fs_store (fs_set_group a g fs) = fs_store fs" "fs_groups (fs_set_group a g fs) = fs_groups fs"
  "fs_gheap (fs_set_group a g fs) = (fs_gheap fs)(a \<mapsto> g)" "fs_super (fs_set_group a g fs) = fs_super fs"
  "fs_cache (fs_set_group a g fs) = fs_cache fs" "fs_gbrk (fs_set_group a g fs) = fs_gbrk fs"
  "fs_root (fs_set_group a g fs) = fs_root fs" "fs_dcache (fs_set_group a g fs) = fs_dcache fs"
  by (simp_all add: fs_set_group_def)

text \<open>Inserting the zeroed object of a new block into the cache.\<close>

lemma insert_fresh:
  assumes ok: "cache_ok block_place disk_blocks F c st" and k: "k \<in> disk_blocks" "cached c k = None"
    and b: "block_new (block_place k) True st = Some (b, st1)" and sz: "bc_size c = BLOCK_CACHE_SIZE"
  obtains c' st' where "bc_insert k b False c st1 = Some (c', st')" "cache_ok block_place disk_blocks (insert k F) c' st'"
    "cached c' k = Some b" "ndebug st' = ndebug st" "bc_size c' = BLOCK_CACHE_SIZE"
    "cache_content block_place c' st' k = Some (\<lambda>_. 0)"
    "\<And>j. j \<noteq> k \<Longrightarrow> cached c' j = cached c j \<or> cached c' j = None"
    "\<And>ks. recent c ks \<Longrightarrow> length ks < BLOCK_CACHE_SIZE \<Longrightarrow> recent c' (k # ks)"
    "keeps (\<lambda>j. j \<in> disk_blocks \<and> (j \<notin> F \<or> cached c' j \<noteq> None) \<and> j \<noteq> k) (cache_content block_place c st) (cache_content block_place c' st')"
    "\<not> marked c' k" "keeps (\<lambda>j. j = k) (stored block_place st) (stored block_place st')"
proof -
  let ?b = "\<lparr>blk_offset = block_place k, blk_data = (\<lambda>_. 0)\<rparr>"
  have st1: "b = brk st" "st1 = store_add ?b st"
    using b by (auto simp: block_new_def block_data_def store_add_def)
  have ok': "cache_ok block_place disk_blocks (insert k F) c st" using ok by (rule cache_ok_more_fresh) auto
  have nh: "cached c j \<noteq> Some b" for j using cache.live_law [OF ok, of j b] by (auto simp: st1(1))
  have h: "heap st1 b = Some ?b" "blk_offset ?b = block_place k" by (simp_all add: st1 store_add_def)
  have "False \<or> k \<in> insert k F \<or> on_device (block_place k) (blk_data ?b) st1" by simp
  from cache.ins_law [OF cache.add_law [OF ok', of ?b, folded st1(2)] k h nh this]
  obtain c' st' where i: "bc_insert k b False c st1 = Some (c', st')" "cache_ok block_place disk_blocks (insert k F) c' st'"
    "cached c' k = Some b" "heap st' b = Some ?b" "ndebug st' = ndebug st1" "bc_size c' = bc_size c"
    "\<forall>j. j \<noteq> k \<longrightarrow> cached c' j = cached c j \<or> cached c' j = None"
    "\<forall>ks. recent c ks \<longrightarrow> length ks < bc_size c \<longrightarrow> recent c' (k # ks)"
    "keeps (\<lambda>j. j \<in> disk_blocks \<and> (j \<notin> insert k F \<or> cached c' j \<noteq> None) \<and> j \<noteq> k) (cache_content block_place c st1) (cache_content block_place c' st')"
    by blast
  have "keeps (\<lambda>j. j \<in> disk_blocks \<and> (j \<notin> F \<or> cached c' j \<noteq> None) \<and> j \<noteq> k) (cache_content block_place c st) (cache_content block_place c' st')"
    using i(9) unfolding st1(2) cache.content_add [OF ok'] keeps_def by simp
  moreover have "cache_content block_place c' st' k = Some (\<lambda>_. 0)"
    using i(3,4) by (simp add: cache_content_def clip_def fun_eq_iff)
  moreover have "\<not> marked c' k" "keeps (\<lambda>j. j \<in> disk_blocks \<and> cached c j = None) (stored block_place st1) (stored block_place st')"
    using cache_insert_stored [OF cache.add_law [OF ok', of ?b, folded st1(2)] i(1) k(2)] by simp_all
  moreover from this(2) have "keeps (\<lambda>j. j = k) (stored block_place st) (stored block_place st')"
    using k by (simp add: keeps_def stored_def st1(2) store_add_def)
  ultimately show ?thesis
    using that [OF i(1-3)] i(5-8) sz by (simp add: st1(2) store_add_def)
qed

lemma alloc_block_ok:
  assumes ok: "fs_ok F fs" and room: "has_room fs"
  obtains k b fs' where "alloc_block fs = Some (Some (b, k), fs')" "fs_allocs F k b fs fs'"
    "\<And>ps. front fs ps \<Longrightarrow> length ps < BLOCK_CACHE_SIZE \<Longrightarrow> front fs' (push k b ps)" "stays k fs fs'"
    "\<not> marked (fs_cache fs') k" "keeps (\<lambda>j. j = k) (stored block_place (fs_store fs)) (stored block_place (fs_store fs'))"
    "stored block_place (fs_store fs) k \<noteq> None"
proof -
  define fs0 where "fs0 = super_upd (\<lambda>s. s\<lparr>s_free_blocks_count := s_free_blocks_count s - 1,
      s_blocks_count := s_blocks_count s + 1\<rparr>) fs"
  have g0: "groups_ok fs0" using ok by (simp add: fs0_def fs_ok_def)
  have r0: "has_room fs0" using room by (simp add: has_room_def fs0_def)
  obtain gi ga g i b bm sb' st1 where a: "(gi, ga) \<in> set (fs_groups fs0)" "fs_gheap fs0 ga = Some g" "i < 32768"
    "i \<notin> bm_used (bb_bitmap (block_bitmap g))" "bm_used bm = insert i (bm_used (bb_bitmap (block_bitmap g)))" "bm_words bm = 1024"
    "sb' = desc_set (fs_super fs0) (unat gi) (\<lambda>x. x\<lparr>bg_free_blocks_count := bg_free_blocks_count x - 1\<rparr>)"
    "blocks_ok (with_blocks bm g, sb', st1)"
    "block_new (data_block_offset g (word_of_nat i)) True (fs_store fs0) = Some (b, st1)"
    "alloc_block_loop (fs_groups fs0) fs0 = Some (Some (gi, b, word_of_nat i),
       (fs_set_group ga (with_blocks bm g) fs0)\<lparr>fs_super := sb', fs_store := st1\<rparr>)"
    by (rule alloc_block_loop_ok [OF g0 r0])
  define fs1 where "fs1 = (fs_set_group ga (with_blocks bm g) fs0)\<lparr>fs_super := sb', fs_store := st1\<rparr>"
  have g1: "groups_ok fs1" unfolding fs1_def a(7) by (rule groups_ok_set [OF g0 a(1,2,6)]) (use a(7,8) in simp)
  obtain h where h: "fs_gheap fs0 ga = Some h" "group_wf (unat gi) h" "unat gi < 15" "map_of (fs_groups fs0) gi = Some ga"
    by (rule groups_okD [OF g0 a(1)])
  have wf: "group_wf (unat gi) g" "unat gi < 15" "map_of (fs_groups fs) gi = Some ga"
    using h a(2) by (simp_all add: fs0_def)
  define k where "k = block_number gi i"
  have ks: "gi * s_blocks_per_group (super_of fs1) + word_of_nat i = k"
    using g1 by (simp add: groups_ok_def k_def block_number_def)
  have kd: "k \<in> disk_blocks" unfolding k_def by (rule block_number_disk_blocks [OF wf(2) a(3)])
  have ga: "group_at fs gi = Some g" using wf(3) a(2) by (simp add: group_at_def fs0_def)
  have "group_at fs1 = (group_at fs)(gi \<mapsto> with_blocks bm g)"
    by (rule group_at_upd [of fs gi ga]) (use ok a(1) in \<open>simp_all add: fs_ok_def fs1_def fs0_def\<close>)
  from allocated_upd [OF this ga wf(2) a(3)] a(5)
  have al: "allocated fs1 = (allocated fs)(k := True)" by (auto simp: k_def)
  have na: "\<not> allocated fs k"
    using ga a(4) block_number_div_mod [OF wf(2), of i] a(3) by (simp add: allocated_def k_def unat_of_nat)
  have co: "cache_ok block_place disk_blocks F (fs_cache fs) (fs_store fs)" "cached (fs_cache fs) k = None"
    "bc_size (fs_cache fs) = BLOCK_CACHE_SIZE"
    using ok na by (auto simp: fs_ok_def)
  have bn: "block_new (block_place k) True (fs_store fs) = Some (b, st1)"
    using a(9) data_block_offset_place [OF wf(1) a(3)] by (simp add: k_def fs0_def)
  obtain c' st' where c': "bc_insert k b False (fs_cache fs) st1 = Some (c', st')"
    "cache_ok block_place disk_blocks (insert k F) c' st'" "cached c' k = Some b" "ndebug st' = ndebug (fs_store fs)"
    "bc_size c' = BLOCK_CACHE_SIZE" "cache_content block_place c' st' k = Some (\<lambda>_. 0)"
    "\<And>j. j \<noteq> k \<Longrightarrow> cached c' j = cached (fs_cache fs) j \<or> cached c' j = None"
    "\<And>ks. recent (fs_cache fs) ks \<Longrightarrow> length ks < BLOCK_CACHE_SIZE \<Longrightarrow> recent c' (k # ks)"
    "keeps (\<lambda>j. j \<in> disk_blocks \<and> (j \<notin> F \<or> cached c' j \<noteq> None) \<and> j \<noteq> k) (cache_content block_place (fs_cache fs) (fs_store fs)) (cache_content block_place c' st')"
    "\<not> marked c' k" "keeps (\<lambda>j. j = k) (stored block_place (fs_store fs)) (stored block_place st')"
    by (rule insert_fresh [OF co(1) kd co(2) bn co(3)]) (rule that)
  let ?fs = "fs1\<lparr>fs_cache := c', fs_store := st'\<rparr>"
  show ?thesis
  proof (rule that [of b k ?fs])
    show "alloc_block fs = Some (Some (b, k), ?fs)"
      using a(10) c'(1) ks unfolding alloc_block_def fs0_def [symmetric] Let_def fs1_def [symmetric]
      by (simp add: fs1_def fs0_def)
    have "allocated fs1 j" if "cached c' j \<noteq> None" for j
      using ok that c'(7) [of j] by (cases "j = k") (auto simp: al fs_ok_def)
    moreover have "fits ?fs"
      by (rule fits_mono [of fs])
        (use ok dk_size_insert [OF c'(1)] device_block_new [OF bn] in \<open>simp_all add: fs_ok_def fs1_def fs0_def\<close>)
    ultimately have okf: "fs_ok (insert k F) ?fs" using g1 c'(2,5) by (simp add: fs_ok_def)
    have meta: "same_meta fs ?fs"
      using a(2) c'(4) a(7) by (auto simp: same_meta_def fs1_def fs0_def)
    show "fs_allocs F k b fs ?fs"
      unfolding fs_allocs_def using kd na al okf c'(3,6,9) meta by (simp add: fs_content_def keeps_def)
    show "stays k fs ?fs" using c'(9) by (auto simp: stays_def keeps_def fs_content_def)
    have "block_place k + BLOCK_SIZE \<le> dk_size (fs_device fs)"
      unfolding k_def by (rule fits_place [OF _ _ wf(2) a(3)]) (use ok a(1) in \<open>simp_all add: fs_ok_def fs0_def\<close>)
    then show "stored block_place (fs_store fs) k \<noteq> None" by (simp add: stored_def disk_read_def)
    show "\<not> marked (fs_cache ?fs) k" "keeps (\<lambda>j. j = k) (stored block_place (fs_store fs)) (stored block_place (fs_store ?fs))"
      using c'(10,11) by simp_all
    show "front ?fs (push k b ps)" if f: "front fs ps" "length ps < BLOCK_CACHE_SIZE" for ps
    proof (rule front_push [OF f(1)])
      have r: "recent (fs_cache fs) (map fst ps)" using f(1) by (simp add: front_def)
      then have "recent c' (k # map fst ps)" using f(2) by (intro c'(8)) simp_all
      moreover have "k \<notin> set (map fst ps)" using recent_cached [OF r] co(2) by blast
      ultimately show "recent (fs_cache ?fs) (k # removeAll k (map fst ps))" by (simp add: removeAll_id)
    qed (use c'(3,7) in simp_all)
  qed
qed

section \<open>Release\<close>

lemma free_block_ok:
  assumes ok: "fs_ok F fs" and k: "allocated fs k"
  obtains fs' where "free_block k fs = Some (True, fs')" "fs_ok (F - {k}) fs'" "allocated fs' = (allocated fs)(k := False)"
    "same_meta fs fs'" "keeps (\<lambda>j. j \<in> disk_blocks \<and> j \<noteq> k) (fs_content fs) (fs_content fs')"
proof -
  define fs0 where "fs0 = super_upd (\<lambda>s. s\<lparr>s_free_blocks_count := s_free_blocks_count s + 1,
      s_blocks_count := s_blocks_count s - 1\<rparr>) fs"
  have g0: "groups_ok fs0" using ok by (simp add: fs0_def fs_ok_def)
  define gi where "gi = k div 33794"
  obtain ga g i where g: "map_of (fs_groups fs) gi = Some ga" "fs_gheap fs ga = Some g"
    "group_wf (unat gi) g" "k = block_number gi i" "k mod 33794 = word_of_nat i" "i < 32768"
    "i \<in> bm_used (bb_bitmap (block_bitmap g))" "unat gi < 15"
    unfolding gi_def by (rule allocated_group [OF ok k])
  have m: "(gi, ga) \<in> set (fs_groups fs0)" "fs_gheap fs0 ga = Some g"
    using map_of_SomeD [OF g(1)] g(2) by (simp_all add: fs0_def)
  have bo: "blocks_ok (g, fs_super fs0, fs_store fs0)" "grp_desc g = unat gi"
    using groups_okD [OF g0 m(1)] m(2) by (metis option.inject)+
  obtain bm sb' where f: "group_free_block (word_of_nat i) g (fs_super fs0) = Some (True, with_blocks bm g, sb')"
    "sb' = desc_set (fs_super fs0) (unat gi) (\<lambda>x. x\<lparr>bg_free_blocks_count := bg_free_blocks_count x + 1\<rparr>)"
    "blocks_ok (with_blocks bm g, sb', fs_store fs0)" "bm_used bm = bm_used (bb_bitmap (block_bitmap g)) - {i}" "bm_words bm = 1024"
    by (cases rule: group_free_block_cases [OF bo(1) g(6)]) (use g(7) bo(2) in \<open>auto simp: blocks_used_def\<close>)
  define fs1 where "fs1 = (fs_set_group ga (with_blocks bm g) fs0)\<lparr>fs_super := sb'\<rparr>"
  have fs1s: "fs1 = (fs_set_group ga (with_blocks bm g) fs0)\<lparr>fs_super := sb', fs_store := fs_store fs0\<rparr>"
    by (simp add: fs1_def)
  have g1: "groups_ok fs1" unfolding fs1s f(2) by (rule groups_ok_set [OF g0 m f(5)]) (use f(2,3) in simp)
  have at: "group_at fs gi = Some g" using g(1,2) by (simp add: group_at_def)
  have "group_at fs1 = (group_at fs)(gi \<mapsto> with_blocks bm g)"
    by (rule group_at_upd [of fs gi ga]) (use ok m(1) in \<open>simp_all add: fs_ok_def fs1_def fs0_def\<close>)
  from allocated_upd [OF this at g(8,6)] f(4)
  have al: "allocated fs1 = (allocated fs)(k := False)" by (auto simp: g(4))
  have co: "cache_ok block_place disk_blocks F (fs_cache fs) (fs_store fs)" "bc_size (fs_cache fs) = BLOCK_CACHE_SIZE"
    using ok by (auto simp: fs_ok_def)
  obtain c' st' where c': "bc_remove k (fs_cache fs) (fs_store fs) = Some (c', st')"
    "cache_ok block_place disk_blocks F c' st'" "cached c' = (cached (fs_cache fs))(k := None)"
    "keeps (\<lambda>j. j \<in> disk_blocks \<and> j \<noteq> k) (cache_content block_place (fs_cache fs) (fs_store fs)) (cache_content block_place c' st')"
    "ndebug st' = ndebug (fs_store fs)" "bc_size c' = bc_size (fs_cache fs)"
    by (rule cache_remove [OF co(1)])
  let ?fs = "fs1\<lparr>fs_cache := c', fs_store := st'\<rparr>"
  have bpg: "blocks_per_group fs0 = Some 33794" using g0 by (simp add: blocks_per_group_def groups_ok_def)
  show ?thesis
  proof (rule that [of ?fs])
    show "free_block k fs = Some (True, ?fs)"
      using bpg g(1,2,5) f(1) c'(1)
      unfolding free_block_def fs0_def [symmetric] Let_def
      by (simp add: find_group_def fs1_def fs0_def gi_def [symmetric])
    have "allocated fs1 j" if "cached c' j \<noteq> None" for j
      using ok that by (auto simp: al c'(3) fs_ok_def split: if_splits)
    moreover have "cache_ok block_place disk_blocks (F - {k}) c' st'"
      by (rule cache_ok_drop_fresh [OF c'(2)]) (simp add: c'(3))
    moreover have "fits ?fs"
      by (rule fits_mono [of fs]) (use ok dk_size_remove [OF c'(1)] in \<open>simp_all add: fs_ok_def fs1_def fs0_def\<close>)
    ultimately show "fs_ok (F - {k}) ?fs" using g1 c'(6) co(2) by (simp add: fs_ok_def)
    show "allocated ?fs = (allocated fs)(k := False)" by (simp add: al)
    show "same_meta fs ?fs" using g(2) c'(5) f(2) by (auto simp: same_meta_def fs1_def fs0_def)
    show "keeps (\<lambda>j. j \<in> disk_blocks \<and> j \<noteq> k) (fs_content fs) (fs_content ?fs)"
      using c'(4) by (simp add: fs_content_def)
  qed
qed

section \<open>Steps\<close>

text \<open>
  What every operation on blocks guarantees: the invariant with the fresh blocks \<open>F'\<close>, which are old
  ones or new blocks, and the contents of all blocks but the fresh ones and those in \<open>W\<close>, which it
  may write.
\<close>

definition step :: "u32 set \<Rightarrow> u32 set \<Rightarrow> fs \<Rightarrow> u32 set \<Rightarrow> fs \<Rightarrow> bool" where
  "step F W fs F' fs' \<longleftrightarrow> fs_ok F' fs' \<and> same_meta fs fs' \<and> (\<forall>k. allocated fs k \<longrightarrow> allocated fs' k \<and> (k \<in> F' \<longrightarrow> k \<in> F)) \<and>
     keeps (\<lambda>j. allocated fs j \<and> j \<notin> F \<and> j \<notin> W) (fs_content fs) (fs_content fs')"

lemma step_refl: "fs_ok F fs \<Longrightarrow> step F {} fs F fs"
  by (simp add: step_def)

lemma step_trans:
  assumes "step F W fs F' fs'" "step F' W' fs' F'' fs''"
  shows "step F (W \<union> W') fs F'' fs''"
proof -
  have "same_meta fs fs''" using assms by (auto simp: step_def intro: same_meta_trans)
  moreover have "keeps (\<lambda>j. allocated fs j \<and> j \<notin> F \<and> j \<notin> W \<union> W') (fs_content fs) (fs_content fs'')"
    using assms unfolding step_def keeps_def by blast
  ultimately show ?thesis using assms by (simp add: step_def)
qed

lemma step_mono: "step F W fs F' fs' \<Longrightarrow> W \<subseteq> W' \<Longrightarrow> step F W' fs F' fs'"
  unfolding step_def keeps_def by blast

lemma step_allocated: "step F W fs F' fs' \<Longrightarrow> allocated fs k \<Longrightarrow> allocated fs' k"
  by (simp add: step_def)

lemma step_ok: "step F W fs F' fs' \<Longrightarrow> fs_ok F' fs'"
  by (simp add: step_def)

lemma step_meta: "step F W fs F' fs' \<Longrightarrow> same_meta fs fs'"
  by (simp add: step_def)

lemma step_content:
  "step F W fs F' fs' \<Longrightarrow> allocated fs k \<Longrightarrow> k \<notin> F \<Longrightarrow> k \<notin> W \<Longrightarrow> fs_content fs k = Some x \<Longrightarrow> fs_content fs' k = Some x"
  unfolding step_def keeps_def by blast

lemma reads_step: "fs_reads F fs fs' \<Longrightarrow> step F {} fs F fs'"
  using fs_reads_meta [of F fs fs'] fs_reads_allocated [of F fs fs']
  by (auto simp: step_def fs_reads_def keeps_def allocated_disk_blocks)

lemma writes_step: "fs_writes F k y fs fs' \<Longrightarrow> step F {k} fs (F - {k}) fs'"
  using fs_writes_meta [of F k y fs fs'] fs_writes_allocated [of F k y fs fs']
  by (auto simp: step_def fs_writes_def keeps_def allocated_disk_blocks)

lemma allocs_step: "fs_allocs F k b fs fs' \<Longrightarrow> step F {} fs (insert k F) fs'"
  using allocated_disk_blocks [of fs] unfolding step_def fs_allocs_def keeps_def by auto

text \<open>The number of blocks left in the loaded groups.\<close>

definition free_blocks :: "fs \<Rightarrow> u32 set" where
  "free_blocks fs = {k \<in> disk_blocks. group_at fs (k div 33794) \<noteq> None \<and> \<not> allocated fs k}"

definition room :: "fs \<Rightarrow> nat \<Rightarrow> bool" where
  "room fs n \<longleftrightarrow> n \<le> card (free_blocks fs)"

lemma room_has_room:
  assumes r: "room fs (Suc n)"
  shows "has_room fs"
proof -
  have "free_blocks fs \<noteq> {}" using r by (auto simp: room_def)
  then obtain k g where k: "k \<in> disk_blocks" "group_at fs (k div 33794) = Some g" "\<not> allocated fs k"
    by (auto simp: free_blocks_def)
  obtain a where a: "map_of (fs_groups fs) (k div 33794) = Some a" "fs_gheap fs a = Some g"
    using k(2) by (auto simp: group_at_def split: option.splits)
  have "unat (k mod 33794) < 32768" using k(1) by (simp add: disk_blocks_def unat_mod)
  then have "\<not> group_full g" using k by (auto simp: allocated_def group_full_def)
  then show ?thesis using map_of_SomeD [OF a(1)] a(2) by (force simp: has_room_def)
qed

lemma same_meta_group_at:
  assumes "same_meta fs fs'"
  shows "group_at fs' gi = None \<longleftrightarrow> group_at fs gi = None"
proof -
  have g: "fs_groups fs' = fs_groups fs" using assms by (simp add: same_meta_def)
  have "fs_gheap fs' a = None \<longleftrightarrow> fs_gheap fs a = None" for a
  proof -
    have "map_option (\<lambda>g. (grp_desc g, inode_bitmap g, inode_table g)) (fs_gheap fs' a) =
        map_option (\<lambda>g. (grp_desc g, inode_bitmap g, inode_table g)) (fs_gheap fs a)"
      using assms unfolding same_meta_def by blast
    then show ?thesis by (cases "fs_gheap fs' a"; cases "fs_gheap fs a") simp_all
  qed
  then show ?thesis by (simp add: group_at_def g split: option.split)
qed

lemma room_allocs:
  assumes "fs_allocs F k b fs fs'" "room fs (Suc n)"
  shows "room fs' n"
proof -
  have "allocated fs' = (allocated fs)(k := True)" "same_meta fs fs'" using assms(1) by (simp_all add: fs_allocs_def)
  then have "free_blocks fs' = free_blocks fs - {k}" by (auto simp: free_blocks_def same_meta_group_at split: if_splits)
  then have "card (free_blocks fs) - 1 \<le> card (free_blocks fs')" by (simp add: card_Diff_singleton_if)
  then show ?thesis using assms(2) by (simp add: room_def)
qed

lemma room_same: "same_meta fs fs' \<Longrightarrow> allocated fs' = allocated fs \<Longrightarrow> room fs' n = room fs n"
  by (simp add: room_def free_blocks_def same_meta_group_at)

lemma room_less: "room fs n \<Longrightarrow> m \<le> n \<Longrightarrow> room fs m"
  by (simp add: room_def)

section \<open>Properties\<close>

text \<open>
  C7 (safety): \<open>alloc_block\<close> hands out a block that was not allocated, zeroed, marks exactly this block
  as allocated, and changes the content of no other allocated block outside \<open>F\<close>; the invariant of groups
  and cache holds afterwards, with the new block among the fresh ones. It succeeds whenever a loaded
  group has a clear bit. The blocks of \<open>F\<close>, allocated earlier and not yet written, are clean in the
  cache without being on the device: the eviction that makes room for the new block may lose one.
\<close>

theorem alloc_block_fresh:
  assumes "fs_ok F fs" "has_room fs"
  shows "\<exists>b k fs'. alloc_block fs = Some (Some (b, k), fs') \<and> \<not> allocated fs k \<and>
     allocated fs' = (allocated fs)(k := True) \<and> fs_content fs' k = Some (\<lambda>_. 0) \<and> fs_ok (insert k F) fs' \<and>
     (\<forall>j x. allocated fs j \<and> j \<notin> F \<and> fs_content fs j = Some x \<longrightarrow> fs_content fs' j = Some x)"
proof -
  obtain k b fs' where a: "alloc_block fs = Some (Some (b, k), fs')" "fs_allocs F k b fs fs'"
    by (rule alloc_block_ok [OF assms])
  have "fs_content fs' j = Some x" if "allocated fs j" "j \<notin> F" "fs_content fs j = Some x" for j x
    using a(2) that allocated_disk_blocks unfolding fs_allocs_def keeps_def by blast
  with a show ?thesis unfolding fs_allocs_def by blast
qed

lemma small_fs_room: "has_room small_fs"
proof -
  have "\<not> group_full small_group" by (auto simp: group_full_def small_group_used)
  then show ?thesis by (simp add: has_room_def small_fs_def)
qed

theorem alloc_block_fresh_witness:
  "\<exists>b k fs'. alloc_block small_fs = Some (Some (b, k), fs') \<and> 3 \<le> unat k \<and> allocated fs' k \<and> fs_content fs' 1 = Some (clip 4096 (\<lambda>_. 1))"
proof -
  obtain b k fs' where a: "alloc_block small_fs = Some (Some (b, k), fs')" "\<not> allocated small_fs k"
    "allocated fs' = (allocated small_fs)(k := True)"
    "\<forall>j x. allocated small_fs j \<and> j \<notin> {} \<and> fs_content small_fs j = Some x \<longrightarrow> fs_content fs' j = Some x"
    using alloc_block_fresh [OF small_fs_ok small_fs_room] by blast
  have "fs_content fs' 1 = Some (clip 4096 (\<lambda>_. 1))"
    using a(4) small_fs_content [of 1] by (simp add: small_fs_allocated)
  with a(1-3) show ?thesis by (auto simp: small_fs_allocated not_less)
qed

text \<open>
  C26 (error): a new block is not durable. \<open>alloc_block\<close> puts the block it hands out into the cache
  zeroed but not marked dirty, so that even a flush of the whole cache right after it does not write
  the block: it reads as zeros while it is cached, and the device still holds at its place, before and
  after the flush, the bytes that were there before the allocation.
\<close>

theorem new_block_not_durable:
  assumes "fs_ok F fs" "has_room fs"
  shows "\<exists>b k fs' c st old. alloc_block fs = Some (Some (b, k), fs') \<and> fs_content fs' k = Some (\<lambda>_. 0) \<and>
     bc_flush (fs_cache fs') (fs_store fs') = Some (c, st) \<and> cache_content block_place c st k = Some (\<lambda>_. 0) \<and>
     disk_read (block_place k) BLOCK_SIZE (fs_device fs) = Some old \<and> disk_read (block_place k) BLOCK_SIZE (device st) = Some old"
proof -
  obtain k b fs' where a: "alloc_block fs = Some (Some (b, k), fs')" "fs_allocs F k b fs fs'" "\<not> marked (fs_cache fs') k"
    "keeps (\<lambda>j. j = k) (stored block_place (fs_store fs)) (stored block_place (fs_store fs'))"
    "stored block_place (fs_store fs) k \<noteq> None"
    by (rule alloc_block_ok [OF assms])
  have f: "fs_content fs' k = Some (\<lambda>_. 0)" "k \<in> disk_blocks" using a(2) by (simp_all add: fs_allocs_def)
  have "cache_ok block_place disk_blocks (insert k F) (fs_cache fs') (fs_store fs')" using a(2) by (simp add: fs_allocs_def fs_ok_def)
  then obtain c st where c: "bc_flush (fs_cache fs') (fs_store fs') = Some (c, st)"
    "keeps (\<lambda>j. j \<in> disk_blocks) (cache_content block_place (fs_cache fs') (fs_store fs')) (cache_content block_place c st)"
    "keeps (\<lambda>j. j \<in> disk_blocks \<and> \<not> marked (fs_cache fs') j) (stored block_place (fs_store fs')) (stored block_place st)"
    by (rule cache_flush)
  then show ?thesis using a(1,3-5) f by (auto simp: keeps_def fs_content_def stored_def)
qed

theorem new_block_not_durable_witness:
  "\<exists>b k fs' c st. alloc_block small_fs = Some (Some (b, k), fs') \<and> fs_content fs' k = Some (\<lambda>_. 0) \<and>
     bc_flush (fs_cache fs') (fs_store fs') = Some (c, st) \<and>
     disk_read (block_place k) BLOCK_SIZE (device st) = Some (clip 4096 (\<lambda>_. 1))"
proof -
  obtain b k fs' c st old where a: "alloc_block small_fs = Some (Some (b, k), fs')" "fs_content fs' k = Some (\<lambda>_. 0)"
    "bc_flush (fs_cache fs') (fs_store fs') = Some (c, st)"
    "disk_read (block_place k) BLOCK_SIZE (fs_device small_fs) = Some old" "disk_read (block_place k) BLOCK_SIZE (device st) = Some old"
    using new_block_not_durable [OF small_fs_ok small_fs_room] by blast
  have "old = clip 4096 (\<lambda>_. 1)" using a(4) by (auto simp: small_fs_def disk_read_def split: bind_splits)
  with a show ?thesis by blast
qed

text \<open>
  C14 (safety): \<open>free_block\<close> on an allocated block succeeds, makes exactly this block free and drops it
  from the cache, and changes the content of no other block.
\<close>

theorem free_block_exact:
  assumes "fs_ok F fs" "allocated fs k"
  shows "\<exists>fs'. free_block k fs = Some (True, fs') \<and> allocated fs' = (allocated fs)(k := False) \<and>
     fs_ok (F - {k}) fs' \<and> (\<forall>j x. allocated fs' j \<and> fs_content fs j = Some x \<longrightarrow> fs_content fs' j = Some x)"
proof -
  obtain fs' where f: "free_block k fs = Some (True, fs')" "fs_ok (F - {k}) fs'" "allocated fs' = (allocated fs)(k := False)"
    "keeps (\<lambda>j. j \<in> disk_blocks \<and> j \<noteq> k) (fs_content fs) (fs_content fs')"
    by (rule free_block_ok [OF assms])
  have "fs_content fs' j = Some x" if "allocated fs' j" "fs_content fs j = Some x" for j x
    using f(3,4) that allocated_disk_blocks [OF that(1)] by (auto simp: keeps_def split: if_splits)
  with f show ?thesis by blast
qed

theorem free_block_exact_witness:
  "\<exists>fs'. free_block 2 small_fs = Some (True, fs') \<and> \<not> allocated fs' 2 \<and> allocated fs' 1"
  using free_block_exact [OF small_fs_ok, of 2] by (auto simp: small_fs_allocated)

end
