(* ===== verification/Fs_Mount.thy ===== *)
theory Fs_Mount
  imports Fs_Alloc
begin

text \<open>
  Formatting: on a device whose first three blocks are zero the constructor of \<open>FileSystem\<close> builds a
  super block, the first block group and the root directory, and establishes the invariant.
\<close>

section \<open>The super block\<close>

definition blank :: "disk \<Rightarrow> bool" where
  "blank d \<longleftrightarrow> group_pos 1 \<le> dk_size d \<and> dk_faults d = [] \<and> (\<forall>i < 12288. dk_bytes d i = 0)"

lemma get_zero: "(\<And>j. off \<le> j \<Longrightarrow> j < off + 4 \<Longrightarrow> d j = 0) \<Longrightarrow> get_u32 d off = 0" "(\<And>j. off \<le> j \<Longrightarrow> j < off + 2 \<Longrightarrow> d j = 0) \<Longrightarrow> get_u16 d off = 0"
  by (simp_all add: get_u32_def get_u16_def)

lemma SuperBlock_blank:
  assumes "blank d"
  obtains sb where "SuperBlock_new d = Some (sb, super_flush sb d)" "s_blocks_per_group (sb_super sb) = 33794" "s_inodes_per_group (sb_super sb) = 32768"
    "s_log_block_size (sb_super sb) = 2" "desc_table sb = [0]" "bg_inode_bitmap (sb_descs sb 0) = 4096" "bg_block_bitmap (sb_descs sb 0) = 8192"
    "bg_free_blocks_count (sb_descs sb 0) = 32768" "bg_free_inodes_count (sb_descs sb 0) = 32767"
proof -
  have r: "disk_read 0 BLOCK_SIZE d = Some (clip 4096 (\<lambda>i. dk_bytes d i))" using assms by (simp add: disk_read_def blank_def group_pos_def)
  have z: "s_state (get_super_at (clip 4096 (\<lambda>i. dk_bytes d i)) 0) = UNINIT"
    using assms by (simp add: get_super_at_def blank_def clip_def) (rule get_zero, simp)
  show ?thesis
    using r z by (intro that) (simp add: SuperBlock_new_def init_super_block_def Let_def, simp_all)
qed

section \<open>The first block group\<close>

definition zero_bitmap :: bitmap where
  "zero_bitmap = \<lparr>bm_words = 1024, bm_data = (\<lambda>_. 0)\<rparr>"

lemma zero_bitmap_used: "bm_used zero_bitmap = {}"
  by (simp add: bm_used_def bit_at_def zero_bitmap_def)

lemma BitmapBlock_blank:
  assumes "off + 4096 \<le> dk_size d" "\<And>i. off \<le> i \<Longrightarrow> i < off + 4096 \<Longrightarrow> dk_bytes d i = 0"
  shows "BitmapBlock_new off False d = Some \<lparr>bb_offset = off, bb_bitmap = zero_bitmap\<rparr>"
proof -
  have "get_u32 (clip 4096 (\<lambda>i. dk_bytes d (off + i))) (k * 4) = 0" if "k < 1024" for k
    by (rule get_zero) (use assms(2) that in \<open>simp add: clip_def\<close>)
  then have "bitmap_of_bytes (clip 4096 (\<lambda>i. dk_bytes d (off + i))) = zero_bitmap"
    by (simp add: bitmap_of_bytes_def zero_bitmap_def fun_eq_iff)
  then show ?thesis using assms(1) by (simp add: BitmapBlock_new_def block_data_def disk_read_def)
qed

lemma super_flush_disk:
  "4096 \<le> dk_size d \<Longrightarrow> dk_faults d = [] \<Longrightarrow> dk_size (super_flush sb d) = dk_size d"
  "4096 \<le> i \<Longrightarrow> dk_bytes (super_flush sb d) i = dk_bytes d i" "dk_faults d = [] \<Longrightarrow> dk_faults (super_flush sb d) = []"
  by (simp_all add: super_flush_def disk_write_frame disk_write_seekable disk_put_def seekable_def)

lemma BlockGroup_blank:
  assumes b: "blank d" and sb: "bg_inode_bitmap (sb_descs sb 0) = 4096" "bg_block_bitmap (sb_descs sb 0) = 8192"
  shows "BlockGroup_new (Some 0) False sb (super_flush sb d) =
    Some \<lparr>grp_desc = 0, block_bitmap = \<lparr>bb_offset = 8192, bb_bitmap = zero_bitmap\<rparr>, inode_bitmap = \<lparr>bb_offset = 4096, bb_bitmap = zero_bitmap\<rparr>, inode_table = []\<rparr>"
proof -
  have sz: "dk_size (super_flush sb d) = dk_size d" "12288 \<le> dk_size d" using b super_flush_disk(1) by (simp_all add: blank_def group_pos_def)
  have "BitmapBlock_new 8192 False (super_flush sb d) = Some \<lparr>bb_offset = 8192, bb_bitmap = zero_bitmap\<rparr>"
    "BitmapBlock_new 4096 False (super_flush sb d) = Some \<lparr>bb_offset = 4096, bb_bitmap = zero_bitmap\<rparr>"
    using b sz super_flush_disk(2) [of _ sb d] by (auto intro!: BitmapBlock_blank simp: blank_def)
  then show ?thesis using sb by (simp add: BlockGroup_new_def desc_at_def)
qed

definition blank_group :: block_group where
  "blank_group = \<lparr>grp_desc = 0, block_bitmap = \<lparr>bb_offset = 8192, bb_bitmap = zero_bitmap\<rparr>,
     inode_bitmap = \<lparr>bb_offset = 4096, bb_bitmap = zero_bitmap\<rparr>, inode_table = []\<rparr>"

lemma wf_get_inode: "wf_inode (get_inode_at d off)"
  by (simp add: wf_inode_def get_inode_at_def)

lemma alloc_new_zero:
  obtains b where "alloc_new \<lparr>bb_offset = off, bb_bitmap = zero_bitmap\<rparr> = Some (0, \<lparr>bb_offset = off, bb_bitmap = b\<rparr>)" "bm_words b = 1024" "bm_used b = {0}"
proof -
  have w: "bm_words (bb_bitmap \<lparr>bb_offset = off, bb_bitmap = zero_bitmap\<rparr>) = 1024" by (simp add: zero_bitmap_def)
  show ?thesis
  proof (cases rule: alloc_new_cases [OF w])
    case 1
    have "0 \<in> bm_used (bb_bitmap \<lparr>bb_offset = off, bb_bitmap = zero_bitmap\<rparr>)" unfolding 1(1) by simp
    then show ?thesis using zero_bitmap_used by simp
  next
    case (2 i b)
    have "i = 0" using 2(3) zero_bitmap_used by (simp add: lessThan_empty_iff)
    then show ?thesis using 2(4-6) zero_bitmap_used by (intro that [of b]) simp_all
  qed
qed

text \<open>The root directory gets inode 0 of the new group.\<close>

lemma alloc_root:
  assumes sz: "16384 \<le> dk_size d"
  obtains b t sb' where "group_alloc_inode (ucast EXT2_S_IFDIR) blank_group sb d = Some (Some 0,
      blank_group\<lparr>inode_bitmap := \<lparr>bb_offset = 4096, bb_bitmap = b\<rparr>, inode_table := [(0, t)]\<rparr>, sb')"
    "bm_words b = 1024" "bm_used b = {0}" "itb_offset t = 12288" "\<forall>j. wf_inode (itb_inodes t j)" "itb_inodes t 0 = zero_inode\<lparr>i_mode := EXT2_S_IFDIR\<rparr>"
    "sb_super sb' = sb_super sb" "desc_table sb' = desc_table sb"
    "sb_descs sb' 0 = (sb_descs sb 0)\<lparr>bg_free_inodes_count := bg_free_inodes_count (sb_descs sb 0) - 1, bg_used_dirs_count := bg_used_dirs_count (sb_descs sb 0) + 1\<rparr>"
proof -
  obtain b where b: "alloc_new \<lparr>bb_offset = 4096, bb_bitmap = zero_bitmap\<rparr> = Some (0, \<lparr>bb_offset = 4096, bb_bitmap = b\<rparr>)" "bm_words b = 1024" "bm_used b = {0}"
    by (rule alloc_new_zero)
  have "0 \<in> bm_used b" using b(3) by simp
  then have t: "bitmap_test 0 b = Some True" by (simp add: bitmap_test_eq bm_used_def)
  let ?r = "disk_read 12288 4096 d"
  have r: "?r = Some (clip 4096 (\<lambda>i. dk_bytes d (12288 + i)))" using sz by (simp add: disk_read_def)
  define u where "u = \<lparr>itb_offset = 12288, itb_inodes = (\<lambda>k. get_inode_at (clip 4096 (\<lambda>i. dk_bytes d (12288 + i))) (k * 128))\<rparr>"
  have u: "InodeTableBlock_new 12288 d = Some u" using r by (simp add: InodeTableBlock_new_def u_def)
  have dir: "S_ISDIR (ucast EXT2_S_IFDIR :: u32)" by (simp add: S_ISDIR_def S_IFMT_def EXT2_S_IFDIR_def)
  let ?t = "u\<lparr>itb_inodes := (itb_inodes u)(0 := zero_inode\<lparr>i_mode := EXT2_S_IFDIR\<rparr>)\<rparr>"
  let ?x = "(sb_descs sb 0)\<lparr>bg_free_inodes_count := bg_free_inodes_count (sb_descs sb 0) - 1, bg_used_dirs_count := bg_used_dirs_count (sb_descs sb 0) + 1\<rparr>"
  have m: "ucast (ucast EXT2_S_IFDIR :: u32) = EXT2_S_IFDIR" by (simp add: EXT2_S_IFDIR_def)
  have a: "group_alloc_inode (ucast EXT2_S_IFDIR) blank_group sb d = Some (Some 0,
      blank_group\<lparr>inode_bitmap := \<lparr>bb_offset = 4096, bb_bitmap = b\<rparr>, inode_table := [(0, ?t)]\<rparr>, sb\<lparr>sb_descs := (sb_descs sb)(0 := ?x)\<rparr>)"
    using b(1) t u dir m
    by (simp add: group_alloc_inode_def blank_group_def desc_upd_def desc_at_def group_get_inode_def group_put_inode_def inode_block_offset_def Let_def)
  have "\<forall>j. wf_inode (itb_inodes ?t j)" by (simp add: u_def wf_get_inode) (simp add: wf_inode_def zero_inode_def)
  then show ?thesis by (intro that [OF a b(2,3)]) (simp_all add: u_def)
qed

section \<open>The file system\<close>

definition root_inode :: "u32 \<Rightarrow> ext2_inode" where
  "root_inode now = (inode_init now (zero_inode\<lparr>i_mode := EXT2_S_IFDIR\<rparr>))\<lparr>i_mode := EXT2_S_IFDIR OR EXT2_S_IRUSR OR EXT2_S_IRGRP OR EXT2_S_IROTH\<rparr>"

lemma group_flush_size: "dk_size d \<le> dk_size (group_flush g d)"
proof -
  have f: "dk_size d \<le> dk_size (fold (\<lambda>(_, t). inode_table_flush t) ts d)" for ts :: "(u32 \<times> inode_table_block) list" and d
    by (induction ts arbitrary: d) (force simp: inode_table_flush_def intro: order_trans [OF dk_size_disk_write])+
  have "dk_size d \<le> dk_size (bitmap_block_flush (inode_bitmap g) (bitmap_block_flush (block_bitmap g) d))"
    by (auto simp: bitmap_block_flush_def intro: order_trans [OF dk_size_disk_write] dk_size_disk_write)
  then show ?thesis unfolding group_flush_def using f order_trans by blast
qed

lemma group_flush_sound: "dk_faults d = [] \<Longrightarrow> dk_faults (group_flush g d) = []"
  by (simp add: group_flush_eq)

lemma FileSystem_blank:
  assumes b: "blank d"
  obtains fs g where "FileSystem_new nd now d = Some fs" "fs_groups fs = [(0, 0)]" "fs_gheap fs = [0 \<mapsto> g]" "fs_root fs = (0, 0)" "fs_gbrk fs = 1"
    "group_wf 0 g" "grp_desc g = 0" "bb_bitmap (block_bitmap g) = zero_bitmap" "bm_used (bb_bitmap (inode_bitmap g)) = {0}"
    "group_inode g 0 = Some (root_inode now)"
    "s_blocks_per_group (super_of fs) = 33794" "s_inodes_per_group (super_of fs) = 32768" "s_log_block_size (super_of fs) = 2"
    "bg_free_blocks_count (sb_descs (fs_super fs) 0) = 32768" "bg_free_inodes_count (sb_descs (fs_super fs) 0) = 32766"
    "group_pos 1 \<le> dk_size (fs_device fs)" "fs_cache fs = BlockCache_new BLOCK_CACHE_SIZE" "heap (fs_store fs) = (\<lambda>_. None)" "dk_faults (fs_device fs) = []"
proof -
  obtain sb where sb: "SuperBlock_new d = Some (sb, super_flush sb d)" "s_blocks_per_group (sb_super sb) = 33794" "s_inodes_per_group (sb_super sb) = 32768"
    "s_log_block_size (sb_super sb) = 2" "desc_table sb = [0]" "bg_inode_bitmap (sb_descs sb 0) = 4096" "bg_block_bitmap (sb_descs sb 0) = 8192"
    "bg_free_blocks_count (sb_descs sb 0) = 32768" "bg_free_inodes_count (sb_descs sb 0) = 32767"
    by (rule SuperBlock_blank [OF b])
  let ?d = "super_flush sb d"
  have sz: "group_pos 1 \<le> dk_size ?d" "16384 \<le> dk_size ?d" using b super_flush_disk(1) by (simp_all add: blank_def group_pos_def)
  have g0: "BlockGroup_new (get_group_desc sb 0) False sb ?d = Some blank_group"
    using BlockGroup_blank [OF b sb(6,7)] sb(5) by (simp add: get_group_desc_def blank_group_def)
  have "0 \<notin> bm_used zero_bitmap" by (simp add: zero_bitmap_used)
  then have no: "group_get_inode 0 blank_group ?d = Some (False, blank_group)"
    by (simp add: group_get_inode_def blank_group_def bitmap_test_eq bm_used_def) (simp add: zero_bitmap_def bm_cap_def)
  obtain bm t sb' where a: "group_alloc_inode (ucast EXT2_S_IFDIR) blank_group sb ?d = Some (Some 0,
      blank_group\<lparr>inode_bitmap := \<lparr>bb_offset = 4096, bb_bitmap = bm\<rparr>, inode_table := [(0, t)]\<rparr>, sb')"
    "bm_words bm = 1024" "bm_used bm = {0}" "itb_offset t = 12288" "\<forall>j. wf_inode (itb_inodes t j)" "itb_inodes t 0 = zero_inode\<lparr>i_mode := EXT2_S_IFDIR\<rparr>"
    "sb_super sb' = sb_super sb" "desc_table sb' = desc_table sb"
    "sb_descs sb' 0 = (sb_descs sb 0)\<lparr>bg_free_inodes_count := bg_free_inodes_count (sb_descs sb 0) - 1, bg_used_dirs_count := bg_used_dirs_count (sb_descs sb 0) + 1\<rparr>"
    by (rule alloc_root [OF sz(2)])
  let ?g = "blank_group\<lparr>inode_bitmap := \<lparr>bb_offset = 4096, bb_bitmap = bm\<rparr>, inode_table := [(0, t\<lparr>itb_inodes := (itb_inodes t)(0 := root_inode now)\<rparr>)]\<rparr>"
  obtain dc where dc: "DentryCache_new nd BLOCK_CACHE_SIZE = Some dc"
    by (simp add: DentryCache_new_def alloc_new_node_def dc_upd_def Let_def)
  let ?fs = "\<lparr>fs_store = \<lparr>ndebug = nd, device = group_flush ?g ?d, heap = (\<lambda>_. None), brk = 0\<rparr>,
      fs_super = sb', fs_root = (0, 0), fs_gheap = [0 \<mapsto> ?g], fs_gbrk = 1,
      fs_groups = [(0, 0)], fs_cache = BlockCache_new BLOCK_CACHE_SIZE, fs_dcache = dc\<rparr>"
  have new: "FileSystem_new nd now d = Some ?fs"
    using sb(1) dc g0 no a(1,6) by (simp add: FileSystem_new_def group_inode_def group_put_inode_def root_inode_def Let_def)
  have "group_wf 0 ?g"
    using a(2,4,5) by (simp add: group_wf_def blank_group_def group_pos_def table_pos_def zero_bitmap_def omap_ok_def)
      (simp add: wf_inode_def root_inode_def inode_init_def zero_inode_def)
  then show ?thesis
    using a sb order_trans [OF sz(1) group_flush_size] group_flush_sound super_flush_disk(3) b
    by (intro that [OF new, where g = ?g]) (simp_all add: blank_group_def group_inode_def blank_def)
qed

lemma fs_ok_blank:
  assumes "blank d" "FileSystem_new nd now d = Some fs"
  shows "fs_ok {} fs" "\<not> allocated fs k" "group_at fs 0 = Some g \<Longrightarrow> group_inode g 0 = Some (root_inode now)"
proof -
  obtain g where f: "fs_groups fs = [(0, 0)]" "fs_gheap fs = [0 \<mapsto> g]" "fs_root fs = (0, 0)" "fs_gbrk fs = 1"
    "group_wf 0 g" "grp_desc g = 0" "bb_bitmap (block_bitmap g) = zero_bitmap" "group_inode g 0 = Some (root_inode now)"
    "s_blocks_per_group (super_of fs) = 33794" "s_inodes_per_group (super_of fs) = 32768"
    "bg_free_blocks_count (sb_descs (fs_super fs) 0) = 32768"
    "group_pos 1 \<le> dk_size (fs_device fs)" "fs_cache fs = BlockCache_new BLOCK_CACHE_SIZE" "heap (fs_store fs) = (\<lambda>_. None)"
    "dk_faults (fs_device fs) = []"
    using FileSystem_blank [OF assms(1), of nd now] assms(2) by (metis option.inject)
  have "bm.free_count zero_bitmap = 32768" by (subst free_count_eq) (simp add: zero_bitmap_def, simp add: zero_bitmap_used)
  then have "blocks_ok (g, fs_super fs, fs_store fs)" using f(6,7,11) by (simp add: blocks_ok_def) (simp add: zero_bitmap_def)
  then have g: "groups_ok fs" using f by (simp add: groups_ok_def omap_ok_def)
  show no: "\<not> allocated fs k" for k
    using f(1,2,7) zero_bitmap_used by (auto simp: allocated_def group_at_def split: option.splits if_splits)
  have "cache_ok block_place disk_blocks {} (fs_cache fs) (fs_store fs)"
    unfolding f(13) by (rule cache_ok_new) (simp_all add: f(14,15) layout_disk_blocks)
  then show "fs_ok {} fs" using g f(1,12,13) by (simp add: fs_ok_def fits_def) (simp add: BlockCache_new_def)
  show "group_at fs 0 = Some g' \<Longrightarrow> group_inode g' 0 = Some (root_inode now)" for g' using f(1,2,8) by (simp add: group_at_def)
qed

lemma card_words: "n < 2 ^ 32 \<Longrightarrow> card ((word_of_nat :: nat \<Rightarrow> u32) ` {..<n}) = n"
proof -
  assume n: "n < 2 ^ 32"
  have "inj_on (word_of_nat :: nat \<Rightarrow> u32) {..<n}"
  proof (rule inj_on_inverseI)
    fix i assume "i \<in> {..<n}"
    then have "i < 2 ^ 32" using n by (meson lessThan_iff less_trans)
    then show "unat (word_of_nat i :: u32) = i" by (simp add: unat_of_nat)
  qed
  then show ?thesis by (simp add: card_image)
qed

lemma room_blank:
  assumes "blank d" "FileSystem_new nd now d = Some fs"
  shows "room fs 32768"
proof -
  obtain g where "fs_groups fs = [(0, 0)]" "fs_gheap fs = [0 \<mapsto> g]"
    using FileSystem_blank [OF assms(1), of nd now] assms(2) by (metis option.inject)
  then have g: "group_at fs 0 \<noteq> None" by (simp add: group_at_def)
  have "word_of_nat i \<in> free_blocks fs" if i: "i < 32768" for i
  proof -
    have u: "unat (word_of_nat i :: u32) = i" using i by (simp add: unat_of_nat)
    then have "unat ((word_of_nat i :: u32) div 33794) = 0" using i by (simp add: unat_div)
    then have "(word_of_nat i :: u32) div 33794 = 0" by (metis unat_eq_zero)
    then show ?thesis using g fs_ok_blank(2) [OF assms] u i by (simp add: free_blocks_def disk_blocks_def)
  qed
  then have "(word_of_nat :: nat \<Rightarrow> u32) ` {..<32768} \<subseteq> free_blocks fs" by (meson image_subsetI lessThan_iff)
  then have "card ((word_of_nat :: nat \<Rightarrow> u32) ` {..<32768}) \<le> card (free_blocks fs)" by (rule card_mono [OF finite])
  moreover have "(32768 :: nat) < 2 ^ 32" by simp
  ultimately show ?thesis unfolding room_def using card_words [of 32768] by linarith
qed

section \<open>Properties\<close>

text \<open>
  C30 (type): formatting builds a well formed file system: on a sound device with zeroed first blocks the
  constructor succeeds, the invariant of groups, cache and device holds, no block is allocated, all
  32768 blocks of the first group are free, and inode 0 is an empty directory with mode 0444.
\<close>

theorem format_ok:
  assumes "blank d"
  shows "\<exists>fs g. FileSystem_new nd now d = Some fs \<and> fs_ok {} fs \<and> (\<forall>k. \<not> allocated fs k) \<and> room fs 32768 \<and>
     group_at fs 0 = Some g \<and> group_inode g 0 = Some (root_inode now) \<and> S_ISDIR (i_mode (root_inode now)) \<and> i_size (root_inode now) = 0"
proof -
  obtain fs g where f: "FileSystem_new nd now d = Some fs" "fs_groups fs = [(0, 0)]" "fs_gheap fs = [0 \<mapsto> g]"
    by (rule FileSystem_blank [OF assms, of nd now])
  then have "group_at fs 0 = Some g" by (simp add: group_at_def)
  moreover have "S_ISDIR (i_mode (root_inode now))" "i_size (root_inode now) = 0"
    by (simp_all add: root_inode_def inode_init_def S_ISDIR_def S_IFMT_def EXT2_S_IFDIR_def EXT2_S_IRUSR_def EXT2_S_IRGRP_def EXT2_S_IROTH_def)
  ultimately show ?thesis using f(1) fs_ok_blank [OF assms f(1)] room_blank [OF assms f(1)] by blast
qed

definition blank_disk :: disk where
  "blank_disk = sound_disk 268435456 (\<lambda>_. 0)"

lemma blank_blank_disk: "blank blank_disk"
  by (simp add: blank_def blank_disk_def group_pos_def)

theorem format_ok_witness:
  "\<exists>fs. FileSystem_new False 7 blank_disk = Some fs \<and> fs_ok {} fs \<and> room fs 32768"
  using format_ok [OF blank_blank_disk] by blast

text \<open>
  C34 (error): formatting counts the root directory twice: the inode bitmap has one bit set, but the descriptor of the
  group says that two inodes are gone.
\<close>

theorem root_counted_twice:
  assumes "blank d"
  shows "\<exists>fs g. FileSystem_new nd now d = Some fs \<and> group_at fs 0 = Some g \<and> bm_used (bb_bitmap (inode_bitmap g)) = {0} \<and>
     unat (bg_free_inodes_count (sb_descs (fs_super fs) 0)) = 32768 - 2"
proof -
  obtain fs g where f: "FileSystem_new nd now d = Some fs" "fs_groups fs = [(0, 0)]" "fs_gheap fs = [0 \<mapsto> g]"
    "bm_used (bb_bitmap (inode_bitmap g)) = {0}" "bg_free_inodes_count (sb_descs (fs_super fs) 0) = 32766"
    by (rule FileSystem_blank [OF assms, of nd now])
  then show ?thesis by (simp add: group_at_def)
qed

theorem root_counted_twice_witness:
  "\<exists>fs. FileSystem_new False 7 blank_disk = Some fs \<and> unat (bg_free_inodes_count (sb_descs (fs_super fs) 0)) = 32766"
  using root_counted_twice [OF blank_blank_disk, of False 7] by auto

end
