(* ===== verification/Fuse_Serve.thy ===== *)
theory Fuse_Serve
  imports Open_Files Fs_Mount
begin

text \<open>
  The program as a server: the table of handlers that \<open>main\<close> hands to libfuse, the states it can reach
  from a mount by serving requests one after the other, and what holds in all of them.
\<close>

section \<open>Requests\<close>

text \<open>
  A request carries the arguments of its handler, the identity of the caller and the time. A handle is
  the value of \<open>fi->fh\<close>, with \<open>None\<close> for zero.
\<close>

datatype request =
    Create fuse_ctx u32 "byte list" u32
  | Getattr "byte list"
  | Readdir fuse_ctx "byte list"
  | Open fuse_ctx u32 "byte list" u32
  | Read nat nat u32 "addr option"
  | Write "byte list" nat u32 "addr option"
  | Mkdir fuse_ctx u32 "byte list" u32
  | Rmdir fuse_ctx "byte list"
  | Link "byte list" "byte list"
  | Unlink fuse_ctx "byte list"
  | Rename fuse_ctx "byte list" "byte list" u32
  | Access fuse_ctx "byte list" u32
  | Release "addr option"
  | Fsync bool "addr option"
  | Chmod fuse_ctx "byte list" u32
  | Symlink u32 "byte list" "byte list"
  | Readlink "byte list" nat
  | Truncate "byte list" nat
  | Utimens fuse_ctx u32 "byte list" "(u32 \<times> u32) option"
  | Flush "byte list"
  | Chown "byte list" u32 u32

datatype reply = Code int | Handle int "addr option" | Data int "byte list" | Names int "byte list list" | Attr int "stat option"

definition serve :: "request \<Rightarrow> op_state \<Rightarrow> (reply \<times> op_state) option" where
  "serve r s = (case r of
     Create ctx now str mode \<Rightarrow> do { (e, fh, s) \<leftarrow> fuse_create ctx now str mode s; Some (Handle e fh, s) }
   | Getattr str \<Rightarrow> do { (e, st, s) \<leftarrow> fuse_getattr str s; Some (Attr e st, s) }
   | Readdir ctx str \<Rightarrow> do { (e, ns, s) \<leftarrow> fuse_readdir ctx str s; Some (Names e ns, s) }
   | Open ctx now str flags \<Rightarrow> do { (e, fh, s) \<leftarrow> fuse_open ctx now str flags s; Some (Handle e fh, s) }
   | Read sz off flags fh \<Rightarrow> do { (e, bs, s) \<leftarrow> fuse_read sz off flags fh s; Some (Data e bs, s) }
   | Write buf off flags fh \<Rightarrow> do { (e, s) \<leftarrow> fuse_write buf off flags fh s; Some (Code e, s) }
   | Mkdir ctx now str mode \<Rightarrow> do { (e, s) \<leftarrow> fuse_mkdir ctx now str mode s; Some (Code e, s) }
   | Rmdir ctx str \<Rightarrow> do { (e, s) \<leftarrow> fuse_rmdir ctx str s; Some (Code e, s) }
   | Link src dst \<Rightarrow> do { (e, s) \<leftarrow> fuse_link src dst s; Some (Code e, s) }
   | Unlink ctx str \<Rightarrow> do { (e, s) \<leftarrow> fuse_unlink ctx str s; Some (Code e, s) }
   | Rename ctx old new flags \<Rightarrow> do { (e, s) \<leftarrow> fuse_rename ctx old new flags s; Some (Code e, s) }
   | Access ctx str mode \<Rightarrow> do { (e, s) \<leftarrow> fuse_access ctx str mode s; Some (Code e, s) }
   | Release fh \<Rightarrow> do { (e, s) \<leftarrow> fuse_release fh s; Some (Code e, s) }
   | Fsync datasync fh \<Rightarrow> do { (e, s) \<leftarrow> fuse_fsync datasync fh s; Some (Code e, s) }
   | Chmod ctx str mode \<Rightarrow> do { (e, s) \<leftarrow> fuse_chmod ctx str mode s; Some (Code e, s) }
   | Symlink now src dst \<Rightarrow> do { (e, s) \<leftarrow> fuse_symlink now src dst s; Some (Code e, s) }
   | Readlink str sz \<Rightarrow> do { (e, bs, s) \<leftarrow> fuse_readlink str sz s; Some (Data e bs, s) }
   | Truncate str off \<Rightarrow> (case fuse_truncate str off s of (e, s) \<Rightarrow> Some (Code e, s))
   | Utimens ctx now str tv \<Rightarrow> do { (e, s) \<leftarrow> fuse_utimens ctx now str tv s; Some (Code e, s) }
   | Flush str \<Rightarrow> (case fuse_flush str s of (e, s) \<Rightarrow> Some (Code e, s))
   | Chown str user grp \<Rightarrow> do { (e, s) \<leftarrow> fuse_chown str user grp s; Some (Code e, s) })"

section \<open>Reachable states\<close>

inductive reachable :: "op_state \<Rightarrow> bool" where
  mount: "fuse_init nd now d = Some s \<Longrightarrow> reachable s"
| request: "reachable s \<Longrightarrow> few_handles s \<Longrightarrow> serve r s = Some (x, s') \<Longrightarrow> reachable s'"

inductive_cases reachableE: "reachable s"

lemma serve_op_ok:
  assumes "op_ok s" "few_handles s" "serve r s = Some (x, s')"
  shows "op_ok s'"
  using assms
  by (cases r) (auto simp: serve_def fuse_truncate_def fuse_flush_def split: bind_splits
      intro: fs_ops_ok fuse_rename_ok fuse_getattr_ok fuse_attrs_ok fuse_unlink_ok fuse_create_ok fuse_open_ok fuse_release_ok fuse_read_ok fuse_write_ok fuse_fsync_ok)

lemma fuse_init_op_ok: "fuse_init nd now d = Some s \<Longrightarrow> op_ok s"
  by (auto simp: fuse_init_def op_ok_def op_inv_def split: bind_splits)

lemma reachable_op_ok: "reachable s \<Longrightarrow> op_ok s"
  by (induction rule: reachable.induct) (auto intro: fuse_init_op_ok serve_op_ok)

section \<open>A first open file\<close>

text \<open>The root directory of a new file system can be opened.\<close>

lemma mounted_root:
  assumes "blank d" "FileSystem_new nd now d = Some fs"
  shows "get_inode 0 fs = Some (Some (0, 0), fs)" "fs_inode (0, 0) fs = Some (root_inode now)" "fs_root fs = (0, 0)"
proof -
  obtain g where f: "fs_groups fs = [(0, 0)]" "fs_gheap fs = [0 \<mapsto> g]" "fs_root fs = (0, 0)"
    "bm_used (bb_bitmap (inode_bitmap g)) = {0}" "group_inode g 0 = Some (root_inode now)" "s_inodes_per_group (super_of fs) = 32768"
    using FileSystem_blank [OF assms(1), of nd now] assms(2) by (metis option.inject)
  have "0 \<in> bm_used (bb_bitmap (inode_bitmap g))" using f(4) by simp
  then have t: "bitmap_test 0 (bb_bitmap (inode_bitmap g)) = Some True" by (simp add: bitmap_test_eq bm_used_def)
  obtain x where x: "map_of (inode_table g) 0 = Some x" using f(5) by (auto simp: group_inode_def split: bind_splits)
  have "group_get_inode 0 g (fs_device fs) = Some (True, g)" using t x by (simp add: group_get_inode_def Let_def)
  then show "get_inode 0 fs = Some (Some (0, 0), fs)" using f(1,2,6)
    by (simp add: get_inode_def inodes_per_group_def find_group_def fs_set_group_def)
  show "fs_inode (0, 0) fs = Some (root_inode now)" "fs_root fs = (0, 0)" using f by (simp_all add: fs_inode_def)
qed

definition root_user :: fuse_ctx where
  "root_user = \<lparr>ctx_uid = 0, ctx_gid = 0\<rparr>"

lemma root_path: "Path nd [47] = Some \<lparr>path_valid = True, path_str = [47], name_list = []\<rparr>"
  by code_simp

lemma root_lookup:
  assumes "op_fs s = fs" "fs_inode (0, 0) fs = Some v" "fs_root fs = (0, 0)"
  shows "op_lookup [47] s = Some (Inr ((0, 0), v, 0), s)"
  using assms by (simp add: op_lookup_def op_path_def root_path inode_lookup_def path_empty_def)

lemma mounted_open:
  assumes b: "blank d" and m: "fuse_init nd now d = Some s"
  obtains s' where "serve (Open root_user now [47] 0) s = Some (Handle 0 (Some 0), s')" "op_fs s' = op_fs s" "op_st s' = [(0, 0)]"
    "op_ics s' 0 = Some \<lparr>ic_inode_id = 0, ic_cnts = 1, ic_cache = (root_inode now)\<lparr>i_atime := now, i_ctime := now\<rparr>, ic_vec = [0]\<rparr>"
    "op_fds s' 0 = Some (FileStatus_new\<lparr>fd_inode_cache := 0, fd_listed := True, cache_update_flag := True\<rparr>)" "few_handles s'"
proof -
  obtain fs where fs: "FileSystem_new nd now d = Some fs"
    "s = \<lparr>op_fs = fs, op_st = [], op_ics = (\<lambda>_. None), op_icbrk = 0, op_fds = (\<lambda>_. None), op_fdbrk = 0\<rparr>"
    using m by (auto simp: fuse_init_def split: bind_splits)
  note r = mounted_root [OF b fs(1)]
  have l: "op_lookup [47] s = Some (Inr ((0, 0), root_inode now, 0), s)" by (rule root_lookup) (use fs(2) r in simp_all)
  have p: "inode_perm root_user (root_inode now) x y z" for x y z by (simp add: inode_perm_def check_permission_def root_user_def)
  let ?f = "FileStatus_new\<lparr>fd_inode_cache := 0, fd_listed := True, cache_update_flag := True\<rparr>"
  let ?s = "\<lparr>op_fs = fs, op_st = [(0, 0)], op_ics = [0 \<mapsto> \<lparr>ic_inode_id = 0, ic_cnts = 1, ic_cache = (root_inode now)\<lparr>i_atime := now, i_ctime := now\<rparr>, ic_vec = [0]\<rparr>],
    op_icbrk = 1, op_fds = [0 \<mapsto> ?f], op_fdbrk = 1\<rparr>"
  have "serve (Open root_user now [47] 0) s = Some (Handle 0 (Some 0), ?s)"
    using r by (simp add: serve_def fuse_open_def l p) (simp add: fs(2) op_get_cache_def set_fs_def set_ic_def set_fd_def new_fd_def op_upd_cache_def upd_inode_def FileStatus_new_def Let_def)
  then show ?thesis by (rule that) (simp_all add: fs(2) few_handles_def)
qed

section \<open>Properties\<close>

text \<open>The handles that are open on a cached inode.\<close>

definition open_handles :: "op_state \<Rightarrow> addr \<Rightarrow> addr set" where
  "open_handles s a = {fd. \<exists>f. op_fds s fd = Some f \<and> fd_inode_cache f = a}"

lemma op_inv_handles:
  assumes i: "op_inv X s" and a: "op_ics s a = Some ic"
  shows "set (ic_vec ic) = open_handles s a" "distinct (ic_vec ic)"
proof -
  have h: "handles_ok a s (ic_vec ic)" by (rule op_inv_vec(1) [OF i a])
  then show "distinct (ic_vec ic)" by (simp add: handles_ok_def)
  have "fd \<in> set (ic_vec ic)" if fd: "fd \<in> open_handles s a" for fd
  proof -
    obtain f where f: "op_fds s fd = Some f" "fd_inode_cache f = a" using fd by (auto simp: open_handles_def)
    show ?thesis by (rule op_inv_fd [OF i f(1)]) (use a f(2) in simp)
  qed
  then show "set (ic_vec ic) = open_handles s a" using h by (auto simp: handles_ok_def open_handles_def)
qed

text \<open>
  C31 (invariant): in every state the server reaches, the list of a cached inode holds exactly the open handles on this inode,
  each once, the reference count is their number, and it is not zero; and every open handle is on the
  list of a cached inode. So no inode stays cached without an open handle, and none is dropped while
  a handle uses it.
\<close>

theorem reachable_counts:
  assumes "reachable s"
  shows "(\<forall>i a. map_of (op_st s) i = Some a \<longrightarrow> (\<exists>ic. op_ics s a = Some ic \<and> ic_inode_id ic = i \<and>
        distinct (ic_vec ic) \<and> set (ic_vec ic) = open_handles s a \<and>
        unat (ic_cnts ic) = card (open_handles s a) \<and> 0 < card (open_handles s a))) \<and>
     (\<forall>fd f. op_fds s fd = Some f \<longrightarrow> (\<exists>ic. op_ics s (fd_inode_cache f) = Some ic \<and> fd \<in> set (ic_vec ic) \<and>
        map_of (op_st s) (ic_inode_id ic) = Some (fd_inode_cache f)))"
proof (intro conjI allI impI)
  have i: "op_inv (\<lambda>_. 0) s" using reachable_op_ok [OF assms] by (simp add: op_ok_def)
  fix k a assume "map_of (op_st s) k = Some a"
  from op_inv_cache [OF i this] obtain ic where ic: "op_ics s a = Some ic" "ic_inode_id ic = k" "unat (ic_cnts ic) = length (ic_vec ic)"
    "ic_cnts ic \<noteq> 0" by (metis add_0_right)
  note h = op_inv_handles [OF i ic(1)]
  have "length (ic_vec ic) = card (open_handles s a)" using distinct_card [OF h(2)] h(1) by simp
  moreover have "unat (ic_cnts ic) \<noteq> 0" using ic(4) by (metis unat_eq_zero)
  ultimately show "\<exists>ic. op_ics s a = Some ic \<and> ic_inode_id ic = k \<and> distinct (ic_vec ic) \<and> set (ic_vec ic) = open_handles s a \<and>
      unat (ic_cnts ic) = card (open_handles s a) \<and> 0 < card (open_handles s a)"
    using ic h by auto
next
  have i: "op_inv (\<lambda>_. 0) s" using reachable_op_ok [OF assms] by (simp add: op_ok_def)
  fix fd f assume "op_fds s fd = Some f"
  from op_inv_fd [OF i this] obtain ic where ic: "op_ics s (fd_inode_cache f) = Some ic" "fd \<in> set (ic_vec ic)" by metis
  then show "\<exists>ic. op_ics s (fd_inode_cache f) = Some ic \<and> fd \<in> set (ic_vec ic) \<and> map_of (op_st s) (ic_inode_id ic) = Some (fd_inode_cache f)"
    using op_inv_ic [OF i ic(1)] by blast
qed

lemma reachable_open_root:
  obtains s s' where "fuse_init False 7 blank_disk = Some s" "reachable s'" "serve (Open root_user 7 [47] 0) s = Some (Handle 0 (Some 0), s')"
    "op_fs s' = op_fs s" "op_st s' = [(0, 0)]" "few_handles s'"
    "op_ics s' 0 = Some \<lparr>ic_inode_id = 0, ic_cnts = 1, ic_cache = (root_inode 7)\<lparr>i_atime := 7, i_ctime := 7\<rparr>, ic_vec = [0]\<rparr>"
    "op_fds s' 0 = Some (FileStatus_new\<lparr>fd_inode_cache := 0, fd_listed := True, cache_update_flag := True\<rparr>)"
proof -
  obtain fs g where "FileSystem_new False 7 blank_disk = Some fs" by (rule FileSystem_blank [OF blank_blank_disk, of False 7])
  then obtain s where s: "fuse_init False 7 blank_disk = Some s" by (simp add: fuse_init_def)
  obtain s' where o: "serve (Open root_user 7 [47] 0) s = Some (Handle 0 (Some 0), s')" "op_fs s' = op_fs s" "op_st s' = [(0, 0)]"
    "op_ics s' 0 = Some \<lparr>ic_inode_id = 0, ic_cnts = 1, ic_cache = (root_inode 7)\<lparr>i_atime := 7, i_ctime := 7\<rparr>, ic_vec = [0]\<rparr>"
    "op_fds s' 0 = Some (FileStatus_new\<lparr>fd_inode_cache := 0, fd_listed := True, cache_update_flag := True\<rparr>)" "few_handles s'"
    by (rule mounted_open [OF blank_blank_disk s])
  have "few_handles s" using s by (auto simp: fuse_init_def few_handles_def split: bind_splits)
  then have "reachable s'" using reachable.request [OF reachable.mount [OF s] _ o(1)] by blast
  then show ?thesis using that s o by blast
qed

theorem reachable_counts_witness:
  "\<exists>s ic. reachable s \<and> map_of (op_st s) 0 = Some 0 \<and> op_ics s 0 = Some ic \<and> unat (ic_cnts ic) = 1 \<and> card (open_handles s 0) = 1"
proof -
  obtain s0 s where s: "reachable s" "op_st s = [(0, 0)]"
    "op_ics s 0 = Some \<lparr>ic_inode_id = 0, ic_cnts = 1, ic_cache = (root_inode 7)\<lparr>i_atime := 7, i_ctime := 7\<rparr>, ic_vec = [0]\<rparr>"
    by (rule reachable_open_root)
  then have "map_of (op_st s) 0 = Some 0" by simp
  with reachable_counts [OF s(1)] s(3) have "card (open_handles s 0) = 1" by fastforce
  with s show ?thesis by fastforce
qed

text \<open>
  C32 (safety): a file that is open is not unlinked: whoever asks, with whatever permissions, \<open>unlink\<close> of a path that leads to
  an inode with an open handle returns EACCES, and nothing changes but what the lookup did.
\<close>

theorem open_file_not_unlinked:
  assumes "reachable s" "few_handles s" "op_fds s fd = Some f" "op_ics s (fd_inode_cache f) = Some ic"
    "op_lookup str s = Some (Inr (ip, v, ic_inode_id ic), s1)"
  shows "serve (Unlink ctx str) s = Some (Code (- EACCES), s1)"
proof -
  let ?a = "fd_inode_cache f" and ?k = "ic_inode_id ic"
  have i: "op_inv (\<lambda>_. 0) s" using reachable_op_ok [OF assms(1)] by (simp add: op_ok_def)
  obtain fs where s1: "s1 = set_fs fs s" using op_lookup_fs [OF assms(5)] by blast
  have m: "map_of (op_st s1) ?k = Some ?a" "op_ics s1 ?a = Some ic" using op_inv_ic [OF i assms(4)] assms(4) s1 by simp_all
  have c: "unat (ic_cnts ic) = length (ic_vec ic)" "ic_cnts ic \<noteq> 0" using op_inv_vec [OF i assms(4)] by simp_all
  let ?s = "set_ic ?a (ic\<lparr>ic_cnts := ic_cnts ic + 1\<rparr>) s1"
  have g: "op_get_cache ?k s1 = Some (Some ?a, ?s)" using m by (simp add: op_get_cache_def)
  have "unat (ic_cnts ic) + 1 < 2 ^ 32" using c(1) vec_bound [OF i assms(4)] assms(2) unfolding few_handles_def by linarith
  then have "unat (ic_cnts ic + 1) = unat (ic_cnts ic) + 1" using unat_add_lem [of "ic_cnts ic" 1] by simp
  moreover have "unat (ic_cnts ic) \<noteq> 0" using c(2) by (metis unat_eq_zero)
  ultimately have two: "2 \<le> ic_cnts ic + 1" by (simp add: word_le_nat_alt)
  have s': "op_st ?s = op_st s1" "op_ics ?s ?a = Some (ic\<lparr>ic_cnts := ic_cnts ic + 1\<rparr>)" by (simp_all add: set_ic_def)
  have undo: "set_ic ?a ic ?s = s1" using m(2) by (simp add: set_ic_def fun_upd_idem)
  have r: "op_rel_cache ?k ?s = Some (0, s1)" using m(1) s' c(2) undo by (simp add: op_rel_cache_def)
  show ?thesis using assms(5) g s' two r by (simp add: serve_def fuse_unlink_def)
qed

theorem open_file_not_unlinked_witness:
  "\<exists>s s1. reachable s \<and> serve (Unlink root_user [47]) s = Some (Code (- EACCES), s1)"
proof -
  obtain s0 s where s: "fuse_init False 7 blank_disk = Some s0" "reachable s" "op_fs s = op_fs s0" "few_handles s"
    "op_ics s 0 = Some \<lparr>ic_inode_id = 0, ic_cnts = 1, ic_cache = (root_inode 7)\<lparr>i_atime := 7, i_ctime := 7\<rparr>, ic_vec = [0]\<rparr>"
    "op_fds s 0 = Some (FileStatus_new\<lparr>fd_inode_cache := 0, fd_listed := True, cache_update_flag := True\<rparr>)"
    by (rule reachable_open_root)
  obtain fs where fs: "FileSystem_new False 7 blank_disk = Some fs" "op_fs s0 = fs" using s(1) by (auto simp: fuse_init_def split: bind_splits)
  have "op_lookup [47] s = Some (Inr ((0, 0), root_inode 7, 0), s)"
    by (rule root_lookup) (use s(3) fs mounted_root [OF blank_blank_disk fs(1)] in simp_all)
  then show ?thesis using open_file_not_unlinked [OF s(2,4,6), of "\<lparr>ic_inode_id = 0, ic_cnts = 1, ic_cache = (root_inode 7)\<lparr>i_atime := 7, i_ctime := 7\<rparr>, ic_vec = [0]\<rparr>"]
    s(2,5) by auto
qed

lemma fs_put_inode_get:
  assumes "fs_inode ip fs = Some old"
  obtains fs' where "fs_put_inode ip v fs = Some fs'" "fs_inode ip fs' = Some v"
  using assms
  by (auto simp: fs_inode_def fs_put_inode_def group_inode_def group_put_inode_def fs_set_group_def split: bind_splits)

text \<open>
  C33 (functional): releasing the last handle of a file whose inode is still in use on the file system writes the cached
  inode back: \<open>release\<close> returns 0, the handle and the cache are gone, and the inode in its table is the cached one.
\<close>

theorem last_release_commits:
  assumes "reachable s" "op_fds s fd = Some f" "op_ics s (fd_inode_cache f) = Some ic" "ic_vec ic = [fd]"
    "get_inode (ic_inode_id ic) (op_fs s) = Some (Some ip, fs1)" "fs_inode ip fs1 = Some old"
  shows "\<exists>s'. serve (Release (Some fd)) s = Some (Code 0, s') \<and> fs_inode ip (op_fs s') = Some (ic_cache ic) \<and>
     op_fds s' fd = None \<and> op_ics s' (fd_inode_cache f) = None \<and> map_of (op_st s') (ic_inode_id ic) = None"
proof -
  let ?a = "fd_inode_cache f" and ?k = "ic_inode_id ic"
  have i: "op_inv (\<lambda>_. 0) s" using reachable_op_ok [OF assms(1)] by (simp add: op_ok_def)
  have m: "map_of (op_st s) ?k = Some ?a" using op_inv_ic [OF i assms(3)] by blast
  have h: "handles_ok ?a s (ic_vec ic)" "unat (ic_cnts ic) = 1" using op_inv_vec(1,2) [OF i assms(3)] assms(4) by simp_all
  have l: "fd_listed f" using h(1) assms(2,4) by (auto simp: handles_ok_def)
  have c: "ic_cnts ic - 1 = 0" using h(2) by (metis diff_self unat_1 word_unat_eq_iff)
  obtain fs2 where p: "fs_put_inode ip (ic_cache ic) fs1 = Some fs2" "fs_inode ip fs2 = Some (ic_cache ic)" by (rule fs_put_inode_get [OF assms(6)])
  show ?thesis
    using assms(2-5) m l c p by (simp add: serve_def fuse_release_def Let_def set_ic_def op_rel_cache_def ic_commit_def map_of_drop)
qed

theorem last_release_commits_witness:
  "\<exists>s s'. reachable s \<and> serve (Release (Some 0)) s = Some (Code 0, s') \<and>
     fs_inode (0, 0) (op_fs s') = Some ((root_inode 7)\<lparr>i_atime := 7, i_ctime := 7\<rparr>) \<and> op_ics s' 0 = None"
proof -
  obtain s0 s where s: "fuse_init False 7 blank_disk = Some s0" "reachable s" "op_fs s = op_fs s0" "few_handles s"
    "op_ics s 0 = Some \<lparr>ic_inode_id = 0, ic_cnts = 1, ic_cache = (root_inode 7)\<lparr>i_atime := 7, i_ctime := 7\<rparr>, ic_vec = [0]\<rparr>"
    "op_fds s 0 = Some (FileStatus_new\<lparr>fd_inode_cache := 0, fd_listed := True, cache_update_flag := True\<rparr>)"
    by (rule reachable_open_root)
  obtain fs where fs: "FileSystem_new False 7 blank_disk = Some fs" "op_fs s0 = fs" using s(1) by (auto simp: fuse_init_def split: bind_splits)
  note r = mounted_root [OF blank_blank_disk fs(1)]
  let ?ic = "\<lparr>ic_inode_id = 0, ic_cnts = 1, ic_cache = (root_inode 7)\<lparr>i_atime := 7, i_ctime := 7\<rparr>, ic_vec = [0]\<rparr>"
  show ?thesis using last_release_commits [OF s(2,6), of ?ic "(0, 0)" fs "root_inode 7"] s(2,3,5) fs(2) r by auto
qed

end
