(* ===== verification/Block_Map.thy ===== *)
theory Block_Map
  imports Fs_Alloc
begin

text \<open>
  The block map of an inode. A position names a place in the tree of indirect blocks by the index
  into \<open>i_block\<close> and the slots to follow from there; the n-th block of the inode is at the position
  \<open>route n\<close>. The theory says when an inode is well mapped, which steps of the file system keep that,
  and that \<open>alloc_block\<close> for an inode adds exactly the next block.
\<close>

section \<open>Positions\<close>

type_synonym position = "nat \<times> nat list"

definition slot :: "fs \<Rightarrow> u32 \<Rightarrow> nat \<Rightarrow> u32 option" where
  "slot fs i k = map_option (\<lambda>x. get_u32 x (k * 4)) (fs_content fs i)"

fun follow :: "fs \<Rightarrow> u32 \<Rightarrow> nat list \<Rightarrow> u32 option" where
  "follow fs i [] = Some i"
| "follow fs i (k # ks) = do {
     j \<leftarrow> slot fs i k;
     follow fs j ks
   }"

definition node :: "fs \<Rightarrow> ext2_inode \<Rightarrow> position \<Rightarrow> u32 option" where
  "node fs inode p = follow fs (i_block inode (fst p)) (snd p)"

definition route :: "nat \<Rightarrow> position" where
  "route n =
     (if n < 12 then (n, [])
      else if n < 1036 then (12, [n - 12])
      else if n < 1049612 then (13, [(n - 1036) div 1024, (n - 1036) mod 1024])
      else (14, [(n - 1049612) div 1048576, (n - 1049612) mod 1048576 div 1024, (n - 1049612) mod 1024]))"

definition bmap :: "fs \<Rightarrow> ext2_inode \<Rightarrow> nat \<Rightarrow> u32 option" where
  "bmap fs inode n = node fs inode (route n)"

definition on_way :: "position \<Rightarrow> position set" where
  "on_way p = (\<lambda>j. (fst p, take j (snd p))) ` {..length (snd p)}"

definition positions :: "nat \<Rightarrow> position set" where
  "positions n = (\<Union>m < n. on_way (route m))"

lemma follow_append: "follow fs i (ks @ ls) = do { j \<leftarrow> follow fs i ks; follow fs j ls }"
  by (induction ks arbitrary: i) (auto split: Option.bind_split)

lemma follow_snoc: "follow fs i (ks @ [k]) = do { j \<leftarrow> follow fs i ks; slot fs j k }"
  by (simp add: follow_append)

lemma node_snoc: "node fs inode (t, ks @ [k]) = do { j \<leftarrow> node fs inode (t, ks); slot fs j k }"
  by (simp add: node_def follow_snoc)

lemma on_way_Nil: "on_way (t, []) = {(t, [])}"
  by (auto simp: on_way_def)

lemma on_way_snoc: "on_way (t, ks @ [k]) = insert (t, ks @ [k]) (on_way (t, ks))"
  by (auto simp: on_way_def atMost_Suc)

lemma on_way_self: "p \<in> on_way p"
  by (auto simp: on_way_def intro!: image_eqI [of _ _ "length (snd p)"])

lemma positions_Suc: "positions (Suc n) = positions n \<union> on_way (route n)"
  by (auto simp: positions_def lessThan_Suc)

lemma positions_0 [simp]: "positions 0 = {}"
  by (simp add: positions_def)

lemma route_positions: "m < n \<Longrightarrow> route m \<in> positions n"
  using on_way_self [of "route m"] unfolding positions_def by blast

text \<open>A set of positions that contains with a position all positions on the way to it.\<close>

definition closed :: "position set \<Rightarrow> bool" where
  "closed P \<longleftrightarrow> (\<forall>t ks k. (t, ks @ [k]) \<in> P \<longrightarrow> (t, ks) \<in> P)"

lemma closed_on_way: "closed (on_way p)"
proof -
  have "(t, ks) \<in> on_way p" if p: "(t, ks @ [k]) \<in> on_way p" for t ks k
  proof -
    obtain j where j: "j \<le> length (snd p)" "t = fst p" "ks @ [k] = take j (snd p)" using p by (auto simp: on_way_def)
    have l: "length (ks @ [k]) = j" unfolding j(3) using j(1) by simp
    have "ks = take (length ks) (ks @ [k])" by simp
    also have "\<dots> = take (length ks) (snd p)" unfolding j(3) using l by (simp add: min_def)
    finally show ?thesis using l j(1,2) by (auto simp: on_way_def intro!: image_eqI [of _ _ "length ks"])
  qed
  then show ?thesis by (simp add: closed_def)
qed

lemma closed_positions: "closed (positions n)"
  using closed_on_way unfolding closed_def positions_def by blast

lemma closed_insert: "closed P \<Longrightarrow> (t, ks) \<in> P \<Longrightarrow> closed (insert (t, ks @ [k]) P)"
  by (auto simp: closed_def)

lemma closed_root: "closed P \<Longrightarrow> closed (insert (t, []) P)"
  by (auto simp: closed_def)

lemma closed_prefix: "closed P \<Longrightarrow> (t, ks @ ls) \<in> P \<Longrightarrow> (t, ks) \<in> P"
  by (induction ls rule: rev_induct) (auto simp: closed_def simp flip: append_assoc)

lemma closed_take: "closed P \<Longrightarrow> (t, ks) \<in> P \<Longrightarrow> (t, take l ks) \<in> P"
  using closed_prefix [of P t "take l ks" "drop l ks"] by simp

section \<open>Well mapped inodes\<close>

text \<open>The blocks of pointers: those with a position below them.\<close>

definition index_blocks :: "fs \<Rightarrow> ext2_inode \<Rightarrow> position set \<Rightarrow> u32 set" where
  "index_blocks fs inode P = {k. \<exists>t ks o'. (t, ks @ [o']) \<in> P \<and> node fs inode (t, ks) = Some k}"

lemma index_blocks_cong:
  assumes "\<And>t ks o'. (t, ks @ [o']) \<in> P \<Longrightarrow> node fs' inode' (t, ks) = node fs inode (t, ks)"
  shows "index_blocks fs' inode' P = index_blocks fs inode P"
  unfolding index_blocks_def by (intro Collect_cong ex_cong1 conj_cong refl) (simp add: assms)

lemma index_blocks_root [simp]: "index_blocks fs inode (insert (t, []) P) = index_blocks fs inode P"
  by (simp add: index_blocks_def)

text \<open>
  Every position leads to an allocated block, different positions to different blocks, and no block
  of pointers is fresh.
\<close>

definition mapped :: "u32 set \<Rightarrow> fs \<Rightarrow> ext2_inode \<Rightarrow> position set \<Rightarrow> bool" where
  "mapped F fs inode P \<longleftrightarrow> closed P \<and> inj_on (node fs inode) P \<and>
     (\<forall>p \<in> P. \<exists>k. node fs inode p = Some k \<and> allocated fs k) \<and> index_blocks fs inode P \<inter> F = {}"

lemma mappedD:
  assumes "mapped F fs inode P" "p \<in> P"
  obtains k where "node fs inode p = Some k" "allocated fs k"
  using assms by (auto simp: mapped_def)

lemma mapped_index:
  assumes m: "mapped F fs inode P" and k: "k \<in> index_blocks fs inode P"
  shows "allocated fs k" "k \<notin> F"
proof -
  show "k \<notin> F" using m k by (auto simp: mapped_def)
  obtain t ks o' where p: "(t, ks @ [o']) \<in> P" "node fs inode (t, ks) = Some k" using k by (auto simp: index_blocks_def)
  then have "(t, ks) \<in> P" using m by (auto simp: mapped_def closed_def)
  then show "allocated fs k" using m p(2) by (auto simp: mapped_def)
qed

text \<open>The positions keep their blocks when the pointers on the way to them stay.\<close>

definition pointers_stay :: "fs \<Rightarrow> fs \<Rightarrow> ext2_inode \<Rightarrow> position set \<Rightarrow> u32 set \<Rightarrow> bool" where
  "pointers_stay fs fs' inode P W \<longleftrightarrow> (\<forall>t ks o' k j. (t, ks @ [o']) \<in> P \<longrightarrow> node fs inode (t, ks) = Some k \<longrightarrow> k \<in> W \<longrightarrow>
     slot fs k o' = Some j \<longrightarrow> slot fs' k o' = Some j)"

lemma pointers_stay_empty [simp]: "pointers_stay fs fs' inode P {}"
  by (simp add: pointers_stay_def)

lemma node_keeps:
  assumes m: "mapped F fs inode P" and p: "p \<in> P" and keep: "pointers_stay fs fs' inode P UNIV"
  shows "node fs' inode p = node fs inode p"
proof -
  have "node fs' inode (t, ks) = node fs inode (t, ks)" if "(t, ks) \<in> P" for t ks
    using that
  proof (induction ks rule: rev_induct)
    case (snoc k ks)
    have up: "(t, ks) \<in> P" using m snoc.prems by (auto simp: mapped_def closed_def)
    obtain j where j: "node fs inode (t, ks) = Some j" by (rule mappedD [OF m up])
    obtain l where "node fs inode (t, ks @ [k]) = Some l" by (rule mappedD [OF m snoc.prems])
    then have l: "slot fs j k = Some l" using j by (simp add: node_snoc)
    then have "slot fs' j k = Some l" using keep snoc.prems j unfolding pointers_stay_def by blast
    then show ?case using snoc.IH [OF up] j l by (simp add: node_snoc)
  qed (simp add: node_def)
  then show ?thesis using p by (cases p) simp
qed

text \<open>A step that writes no block of pointers, or only slots that no position uses.\<close>

lemma mapped_step:
  assumes m: "mapped F fs inode P" and s: "step F W fs F' fs'" and W: "pointers_stay fs fs' inode P W"
  shows "mapped F' fs' inode P" "\<And>p. p \<in> P \<Longrightarrow> node fs' inode p = node fs inode p"
    "index_blocks fs' inode P = index_blocks fs inode P"
proof -
  have "slot fs' k o' = Some j"
    if p: "(t, ks @ [o']) \<in> P" "node fs inode (t, ks) = Some k" "slot fs k o' = Some j" for t ks o' k j
  proof (cases "k \<in> W")
    case True
    then show ?thesis using W p unfolding pointers_stay_def by blast
  next
    case False
    have "k \<in> index_blocks fs inode P" using p(1,2) by (auto simp: index_blocks_def)
    from mapped_index [OF m this] show ?thesis using step_content [OF s _ _ False] p(3) by (auto simp: slot_def)
  qed
  then have sl: "pointers_stay fs fs' inode P UNIV" by (simp add: pointers_stay_def)
  show n: "node fs' inode p = node fs inode p" if "p \<in> P" for p by (rule node_keeps [OF m that sl])
  have up: "node fs' inode (t, ks) = node fs inode (t, ks)" if "(t, ks @ [o']) \<in> P" for t ks o'
    using n [of "(t, ks)"] m that by (auto simp: mapped_def closed_def)
  then show ib: "index_blocks fs' inode P = index_blocks fs inode P" by (rule index_blocks_cong)
  have "inj_on (node fs' inode) P \<longleftrightarrow> inj_on (node fs inode) P" by (rule inj_on_cong) (rule n)
  then have i: "inj_on (node fs' inode) P" using m by (simp add: mapped_def)
  have "\<exists>k. node fs' inode p = Some k \<and> allocated fs' k" if p: "p \<in> P" for p
    using mappedD [OF m p] n [OF p] step_allocated [OF s] by metis
  moreover have "index_blocks fs inode P \<inter> F' = {}" using mapped_index [OF m] s by (auto simp: step_def)
  ultimately show "mapped F' fs' inode P" using i m ib by (simp add: mapped_def)
qed

text \<open>A step that leaves the blocks of an inode alone.\<close>

lemma pointers_stay_disjoint: "W \<inter> index_blocks fs inode P = {} \<Longrightarrow> pointers_stay fs fs' inode P W"
  unfolding pointers_stay_def index_blocks_def by blast

text \<open>One more position.\<close>

lemma mapped_insert:
  assumes m: "mapped F fs inode P" and n: "\<And>q. q \<in> P \<Longrightarrow> node fs inode' q = node fs inode q"
    and p: "node fs inode' p = Some j" "allocated fs j" "\<And>q. q \<in> P \<Longrightarrow> node fs inode q \<noteq> Some j"
    and c: "closed (insert p P)" "index_blocks fs inode' (insert p P) \<inter> F = {}"
  shows "mapped F fs inode' (insert p P)"
proof -
  have "inj_on (node fs inode') P \<longleftrightarrow> inj_on (node fs inode) P" by (rule inj_on_cong) (rule n)
  then have "inj_on (node fs inode') P" using m by (simp add: mapped_def)
  moreover have "node fs inode' p \<notin> node fs inode' ` P" using n p(1,3) by fastforce
  ultimately have inj: "inj_on (node fs inode') (insert p P)" by (auto simp: inj_on_insert)
  have "\<exists>i. node fs inode' q = Some i \<and> allocated fs i" if "q \<in> insert p P" for q
  proof (cases "q = p")
    case False
    with that have qP: "q \<in> P" by simp
    then show ?thesis using mappedD [OF m qP] n [OF qP] by metis
  qed (use p in simp)
  with inj c show ?thesis by (simp add: mapped_def)
qed

text \<open>A new position below one that is mapped.\<close>

lemma mapped_pointer:
  assumes m: "mapped F fs inode P" and p: "(t, ks) \<in> P" "node fs inode (t, ks) = Some k" "slot fs k o' = Some j" "k \<notin> F"
    and j: "allocated fs j" "\<And>q. q \<in> P \<Longrightarrow> node fs inode q \<noteq> Some j"
  shows "mapped F fs inode (insert (t, ks @ [o']) P)" "node fs inode (t, ks @ [o']) = Some j"
proof -
  show c: "node fs inode (t, ks @ [o']) = Some j" using p(2,3) by (simp add: node_snoc)
  have "index_blocks fs inode (insert (t, ks @ [o']) P) \<subseteq> insert k (index_blocks fs inode P)"
    using p(2) by (auto simp: index_blocks_def)
  then have "index_blocks fs inode (insert (t, ks @ [o']) P) \<inter> F = {}" using m p(4) by (auto simp: mapped_def)
  then show "mapped F fs inode (insert (t, ks @ [o']) P)"
    using m j closed_insert [OF _ p(1)] by (intro mapped_insert [OF m refl c]) (auto simp: mapped_def)
qed

text \<open>A new entry of \<open>i_block\<close>.\<close>

lemma mapped_root:
  assumes m: "mapped F fs inode P" and t: "\<And>ks. (t, ks) \<notin> P"
    and j: "allocated fs j" "\<And>q. q \<in> P \<Longrightarrow> node fs inode q \<noteq> Some j"
  shows "mapped F fs (i_block_upd t j inode) (insert (t, []) P)" "node fs (i_block_upd t j inode) (t, []) = Some j"
    "\<And>q. q \<in> P \<Longrightarrow> node fs (i_block_upd t j inode) q = node fs inode q"
proof -
  let ?i = "i_block_upd t j inode"
  show n: "node fs ?i q = node fs inode q" if "q \<in> P" for q
    using t [of "snd q"] that by (cases q) (auto simp: node_def i_block_upd_def)
  show c: "node fs ?i (t, []) = Some j" by (simp add: node_def i_block_upd_def)
  have "node fs ?i (s, ks) = node fs inode (s, ks)" if "(s, ks @ [o']) \<in> P" for s ks o'
    using m that by (intro n) (auto simp: mapped_def closed_def)
  then have "index_blocks fs ?i P = index_blocks fs inode P" by (rule index_blocks_cong)
  then show "mapped F fs ?i (insert (t, []) P)"
    using m j closed_root by (intro mapped_insert [OF m n c]) (auto simp: mapped_def)
qed

section \<open>Access to pointers\<close>

lemma get_block_ptr_ok:
  assumes ok: "fs_ok F fs" and k: "allocated fs k"
  obtains a x fs' where "get_block_ptr k fs = Some (Some a, fs')" "fs_reads F fs fs'" "cached (fs_cache fs') k = Some a"
    "fs_content fs k = Some x" "fs_content fs' k = Some x" "stays k fs fs'"
    "\<And>ps. front fs ps \<Longrightarrow> length ps < BLOCK_CACHE_SIZE \<Longrightarrow> front fs' (push k a ps)"
proof -
  obtain x where x: "fs_content fs k = Some x" by (rule allocated_content [OF ok k])
  obtain a fs' where g: "get_block k False 0 [] 0 fs = Some (Some (a, get_bytes x 0 0), fs')" "fs_reads F fs fs'"
    "cached (fs_cache fs') k = Some a" "fs_content fs' k = Some x" "stays k fs fs'"
    "\<And>ps. front fs ps \<Longrightarrow> length ps < BLOCK_CACHE_SIZE \<Longrightarrow> front fs' (push k a ps)"
    by (rule get_block_read [OF ok k x, of 0 0 "[]"]) (simp, rule that)
  have "get_block_ptr k fs = Some (Some a, fs')" using g(1) by (simp add: get_block_ptr_def)
  then show ?thesis using that g(2,3) x g(4-6) by blast
qed

lemma read_slot_ok:
  assumes "cached (fs_cache fs) k = Some a" "fs_content fs k = Some x" "o' < 1024"
  shows "read_slot a o' fs = Some (get_u32 x (o' * 4))"
proof -
  obtain d where d: "block_get a (fs_store fs) = Some d" "clip BLOCK_SIZE d = x" by (rule cached_data [OF assms(1,2)])
  have "get_u32 (clip BLOCK_SIZE d) (o' * 4) = get_u32 d (o' * 4)"
    using assms(3) by (intro get_u32_cong) (simp_all add: clip_def)
  then show ?thesis using d assms(3) by (simp add: read_slot_def)
qed

lemma write_slot_modify:
  assumes ok: "fs_ok F fs" and c: "cached (fs_cache fs) k = Some a" "fs_content fs k = Some x" "o' < 1024"
  obtains fs1 where "write_slot a o' v fs = Some fs1" "fs_writes F k (put_u32 x (o' * 4) v) fs (fs_modify k fs1)"
    "\<And>ps. front fs ps \<Longrightarrow> front (fs_modify k fs1) ps" "stays k fs (fs_modify k fs1)"
proof -
  obtain d where d: "block_get a (fs_store fs) = Some d" "clip BLOCK_SIZE d = x" by (rule cached_data [OF c(1,2)])
  have co: "cache_ok block_place disk_blocks F (fs_cache fs) (fs_store fs)" using ok by (simp add: fs_ok_def)
  let ?fs = "fs_modify k fs"
  have cd: "cached (bc_modify k (fs_cache fs)) = cached (fs_cache fs)"
    using co cached_modify by (auto simp: cache_ok_def)
  have ct: "fs_content ?fs = fs_content fs" by (simp add: fs_content_def fs_modify_def cache_content_cong [OF cd])
  have okm: "fs_ok F ?fs"
    using ok cache_modify [OF co] cd by (simp add: fs_ok_def fs_modify_def)
  have "cached (fs_cache ?fs) k = Some a" "marked (fs_cache ?fs) k"
    using c(1) cd by (simp_all add: fs_modify_def modify_marked)
  then obtain st where st: "block_put a (put_u32 d (o' * 4) v) (fs_store ?fs) = Some st"
    "fs_writes F k (clip BLOCK_SIZE (put_u32 d (o' * 4) v)) ?fs (?fs\<lparr>fs_store := st\<rparr>)"
    "\<And>ps. front ?fs ps \<Longrightarrow> front (?fs\<lparr>fs_store := st\<rparr>) ps" "stays k ?fs (?fs\<lparr>fs_store := st\<rparr>)"
    by (rule block_put_ok [OF okm]) (rule that)
  have x: "clip BLOCK_SIZE (put_u32 d (o' * 4) v) = put_u32 x (o' * 4) v"
    using d(2) c(3) by (simp add: put_u32_def put_bytes_clip le32_def)
  have fr: "front ?fs ps = front fs ps" for ps
    using recent_modify [OF co] cd by (simp add: front_def fs_modify_def)
  have e: "fs_modify k (fs\<lparr>fs_store := st\<rparr>) = ?fs\<lparr>fs_store := st\<rparr>" by (simp add: fs_modify_def)
  show ?thesis
  proof (rule that [of "fs\<lparr>fs_store := st\<rparr>"])
    show "write_slot a o' v fs = Some (fs\<lparr>fs_store := st\<rparr>)"
      using d(1) st(1) c(3) by (simp add: write_slot_def fs_modify_def)
    show "fs_writes F k (put_u32 x (o' * 4) v) fs (fs_modify k (fs\<lparr>fs_store := st\<rparr>))"
      using st(2) unfolding e x fs_writes_def ct by (auto simp: fs_modify_def)
    show "front (fs_modify k (fs\<lparr>fs_store := st\<rparr>)) ps" if "front fs ps" for ps
      using st(3) that unfolding e fr by blast
    show "stays k fs (fs_modify k (fs\<lparr>fs_store := st\<rparr>))" using st(4) unfolding e stays_def ct .
  qed
qed

section \<open>Pinned blocks\<close>

text \<open>
  The blocks in use by an operation, most recent first, with the addresses and the contents of their
  objects: as long as fewer blocks than the cache holds are pinned, none of them is evicted.
\<close>

type_synonym pin = "u32 \<times> addr \<times> bytes"

definition pins :: "fs \<Rightarrow> pin list \<Rightarrow> bool" where
  "pins fs ps \<longleftrightarrow> front fs (map (\<lambda>(k, a, z). (k, a)) ps) \<and> (\<forall>(k, a, z) \<in> set ps. k \<in> disk_blocks \<and> fs_content fs k = Some z)"

lemma pinsD: "pins fs ps \<Longrightarrow> (k, a, z) \<in> set ps \<Longrightarrow> cached (fs_cache fs) k = Some a \<and> fs_content fs k = Some z \<and> k \<in> disk_blocks"
  by (force simp: pins_def front_def)

lemma pins_Nil [simp]: "fs_ok F fs \<Longrightarrow> pins fs []"
  by (simp add: pins_def)

lemma pins_push:
  assumes ps: "pins fs ps" "k \<notin> fst ` set ps" and fr: "front fs' (push k a (map (\<lambda>(k, a, z). (k, a)) ps))"
    and k: "stays k fs fs'" "fs_content fs' k = Some x" "k \<in> disk_blocks"
  shows "pins fs' ((k, a, x) # ps)"
proof -
  have "push k a (map (\<lambda>(k, a, z). (k, a)) ps) = (k, a) # map (\<lambda>(k, a, z). (k, a)) ps"
    using ps(2) by (force simp: push_def filter_id_conv)
  with fr have f: "front fs' ((k, a) # map (\<lambda>(k, a, z). (k, a)) ps)" by simp
  have "fs_content fs' j = Some z" if j: "(j, b, z) \<in> set ps" for j b z
  proof -
    have "(j, b) \<in> set ((k, a) # map (\<lambda>(k, a, z). (k, a)) ps)" using j by force
    then have "cached (fs_cache fs') j = Some b" using f unfolding front_def by blast
    moreover have "j \<noteq> k" using ps(2) j by force
    ultimately show ?thesis using k(1) pinsD [OF ps(1) j] unfolding stays_def keeps_def by blast
  qed
  then show ?thesis using f k pinsD [OF ps(1)] by (auto simp: pins_def)
qed

lemma pins_write:
  assumes ps: "pins fs ps" and fr: "\<And>qs. front fs qs \<Longrightarrow> front fs' qs"
    and k: "stays k fs fs'" "fs_content fs' k = Some y"
  shows "pins fs' (map (\<lambda>(j, c, z). (j, c, if j = k then y else z)) ps)"
proof -
  have f: "front fs' (map (\<lambda>(k, a, z). (k, a)) ps)" using fr ps by (simp add: pins_def)
  have "fs_content fs' j = Some z" if j: "(j, b, z) \<in> set ps" "j \<noteq> k" for j b z
  proof -
    have "(j, b) \<in> set (map (\<lambda>(k, a, z). (k, a)) ps)" using j by force
    then have "cached (fs_cache fs') j = Some b" using f unfolding front_def by blast
    then show ?thesis using k(1) pinsD [OF ps(1) j(1)] j(2) unfolding stays_def keeps_def by blast
  qed
  moreover have E: "map (\<lambda>(k, a, z). (k, a)) (map (\<lambda>(j, c, z). (j, c, if j = k then y else z)) ps) = map (\<lambda>(k, a, z). (k, a)) ps"
    by auto
  ultimately show ?thesis unfolding pins_def E using f k(2) pinsD [OF ps(1)] by auto
qed

lemma alloc_pins:
  assumes ok: "fs_ok F fs" and r: "room fs (Suc m)" and ps: "pins fs ps" "length ps < 1024"
  obtains k b fs' where "alloc_block fs = Some (Some (b, k), fs')" "step F {} fs (insert k F) fs'" "\<not> allocated fs k"
    "allocated fs' = (allocated fs)(k := True)" "room fs' m" "pins fs' ((k, b, \<lambda>_. 0) # ps)"
proof -
  obtain k b fs' where a: "alloc_block fs = Some (Some (b, k), fs')" "fs_allocs F k b fs fs'"
    "\<And>ps. front fs ps \<Longrightarrow> length ps < BLOCK_CACHE_SIZE \<Longrightarrow> front fs' (push k b ps)" "stays k fs fs'"
    by (rule alloc_block_ok [OF ok room_has_room [OF r]]) (rule that)
  have al: "k \<in> disk_blocks" "\<not> allocated fs k" "allocated fs' = (allocated fs)(k := True)" "fs_content fs' k = Some (\<lambda>_. 0)"
    using a(2) by (simp_all add: fs_allocs_def)
  have "allocated fs j" if "(j, c, z) \<in> set ps" for j c z
    using pinsD [OF ps(1) that] ok by (simp add: fs_ok_def)
  then have nk: "k \<notin> fst ` set ps" using al(2) by force
  have "front fs' (push k b (map (\<lambda>(k, a, z). (k, a)) ps))" using ps by (intro a(3)) (simp_all add: pins_def)
  from that [OF a(1) allocs_step [OF a(2)] al(2,3) room_allocs [OF a(2) r] pins_push [OF ps(1) nk this a(4) al(4,1)]]
  show ?thesis .
qed

lemma get_pins:
  assumes ok: "fs_ok F fs" and k: "allocated fs k" "k \<notin> fst ` set ps" and ps: "pins fs ps" "length ps < 1024"
  obtains a x fs' where "get_block_ptr k fs = Some (Some a, fs')" "step F {} fs F fs'" "allocated fs' = allocated fs"
    "room fs' = room fs" "fs_content fs k = Some x" "pins fs' ((k, a, x) # ps)"
proof -
  obtain a x fs' where g: "get_block_ptr k fs = Some (Some a, fs')" "fs_reads F fs fs'" "cached (fs_cache fs') k = Some a"
    "fs_content fs k = Some x" "fs_content fs' k = Some x" "stays k fs fs'"
    "\<And>ps. front fs ps \<Longrightarrow> length ps < BLOCK_CACHE_SIZE \<Longrightarrow> front fs' (push k a ps)"
    by (rule get_block_ptr_ok [OF ok k(1)]) (rule that)
  have al: "allocated fs' = allocated fs" by (rule fs_reads_allocated [OF g(2)])
  have "front fs' (push k a (map (\<lambda>(k, a, z). (k, a)) ps))" using ps by (intro g(7)) (simp_all add: pins_def)
  from pins_push [OF ps(1) k(2) this g(6,5) allocated_disk_blocks [OF k(1)]]
  show ?thesis using that [OF g(1) reads_step [OF g(2)] al ext [OF room_same [OF fs_reads_meta [OF g(2)] al]] g(4)] by blast
qed

lemma write_pins:
  assumes ok: "fs_ok F fs" and ps: "pins fs ps" "(k, a, x) \<in> set ps" and o': "o' < 1024"
  obtains fs1 where "write_slot a o' v fs = Some fs1" "step F {k} fs (F - {k}) (fs_modify k fs1)"
    "allocated (fs_modify k fs1) = allocated fs" "room (fs_modify k fs1) = room fs"
    "fs_content fs k = Some x" "fs_content (fs_modify k fs1) k = Some (put_u32 x (o' * 4) v)"
    "pins (fs_modify k fs1) (map (\<lambda>(j, c, z). (j, c, if j = k then put_u32 x (o' * 4) v else z)) ps)"
proof -
  note c = pinsD [OF ps]
  obtain fs1 where w: "write_slot a o' v fs = Some fs1" "fs_writes F k (put_u32 x (o' * 4) v) fs (fs_modify k fs1)"
    "\<And>ps. front fs ps \<Longrightarrow> front (fs_modify k fs1) ps" "stays k fs (fs_modify k fs1)"
    using write_slot_modify [OF ok _ _ o'] c by metis
  have al: "allocated (fs_modify k fs1) = allocated fs" by (rule fs_writes_allocated [OF w(2)])
  have y: "fs_content (fs_modify k fs1) k = Some (put_u32 x (o' * 4) v)" using w(2) by (simp add: fs_writes_def)
  show ?thesis
    using that [OF w(1) writes_step [OF w(2)] al ext [OF room_same [OF fs_writes_meta [OF w(2)] al]] _ y pins_write [OF ps(1) w(3,4) y]] c
    by blast
qed

text \<open>Writing a pointer into a slot that is not in use yet.\<close>

lemma poke_stays:
  assumes m: "mapped F fs inode P" and p: "(t, ks) \<in> P" "(t, ks @ [o']) \<notin> P" "node fs inode (t, ks) = Some k"
    and c: "fs_content fs k = Some x" "fs_content fs' k = Some (put_u32 x (o' * 4) v)"
  shows "pointers_stay fs fs' inode P {k}" "slot fs' k o' = Some v"
proof -
  have "slot fs' i l = Some j" if q: "(s, ls @ [l]) \<in> P" "node fs inode (s, ls) = Some i" "i \<in> {k}" "slot fs i l = Some j" for s ls l i j
  proof -
    have "(s, ls) \<in> P" using m q(1) by (auto simp: mapped_def closed_def)
    then have "(s, ls) = (t, ks)"
      using m p(1,3) q(2,3) inj_onD [of "node fs inode" P "(s, ls)" "(t, ks)"] by (simp add: mapped_def)
    then have "l \<noteq> o'" using q(1) p(2) by auto
    then have "l * 4 + 4 \<le> o' * 4 \<or> o' * 4 + 4 \<le> l * 4" by linarith
    then show ?thesis using q(3,4) c by (simp add: slot_def get_put_u32_other)
  qed
  then show "pointers_stay fs fs' inode P {k}" by (simp add: pointers_stay_def)
  show "slot fs' k o' = Some v" using c(2) by (simp add: slot_def)
qed

end
