(* ===== verification/Map_Grow.thy ===== *)
theory Map_Grow
  imports Block_Map
begin

text \<open>
  Growing an inode: \<open>alloc_block\<close> for an inode adds exactly the next position of its block map, through
  the direct, indirect and double indirect pointers, with the blocks of pointers it needs.
\<close>

section \<open>Positions of the next block\<close>

lemma route_simps:
  "n < 12 \<Longrightarrow> route n = (n, [])"
  "12 \<le> n \<Longrightarrow> n < 1036 \<Longrightarrow> route n = (12, [n - 12])"
  "1036 \<le> n \<Longrightarrow> n < 1049612 \<Longrightarrow> route n = (13, [(n - 1036) div 1024, (n - 1036) mod 1024])"
  by (simp_all add: route_def)

lemma on_way_1: "on_way (t, [i]) = {(t, []), (t, [i])}"
  using on_way_snoc [of t "[]" i] by (auto simp: on_way_Nil)

lemma on_way_2: "on_way (t, [i, j]) = {(t, []), (t, [i]), (t, [i, j])}"
  using on_way_snoc [of t "[i]" j] by (auto simp: on_way_1)

lemma fst_route:
  "t < 12 \<Longrightarrow> fst (route m) = t \<longleftrightarrow> m = t" "fst (route m) = 12 \<longleftrightarrow> 12 \<le> m \<and> m < 1036"
  "fst (route m) = 13 \<longleftrightarrow> 1036 \<le> m \<and> m < 1049612"
  by (simp_all add: route_def)

lemma positionsE:
  assumes "(t, ks) \<in> positions n"
  obtains m where "m < n" "fst (route m) = t" "(t, ks) \<in> on_way (route m)"
  using assms by (auto simp: positions_def on_way_def)

lemma positionsI: "m < n \<Longrightarrow> p \<in> on_way (route m) \<Longrightarrow> p \<in> positions n"
  by (auto simp: positions_def)

lemma positions_direct: "n < 12 \<Longrightarrow> (n, ks) \<notin> positions n"
  by (metis fst_route(1) less_irrefl positionsE)

lemma positions_ind: "(12, []) \<in> positions n \<longleftrightarrow> 12 < n"
proof
  assume "(12, []) \<in> positions n"
  then show "12 < n" by (rule positionsE) (simp add: fst_route)
next
  assume "12 < n"
  then show "(12, []) \<in> positions n" by (rule positionsI) (simp add: route_simps on_way_1)
qed

lemma positions_ind_next: "12 \<le> n \<Longrightarrow> (12, [n - 12]) \<notin> positions n"
  by (auto elim!: positionsE simp: fst_route route_simps on_way_1)

lemma positions_dind: "(13, []) \<in> positions n \<longleftrightarrow> 1036 < n"
proof
  assume "(13, []) \<in> positions n"
  then show "1036 < n" by (rule positionsE) (simp add: fst_route)
next
  assume "1036 < n"
  then show "(13, []) \<in> positions n" by (rule positionsI) (simp add: route_simps on_way_2)
qed

lemma positions_dind_1:
  assumes "1036 \<le> n" "n < 1049612"
  shows "(13, [(n - 1036) div 1024]) \<in> positions n \<longleftrightarrow> (n - 1036) mod 1024 \<noteq> 0"
proof
  assume "(13, [(n - 1036) div 1024]) \<in> positions n"
  then obtain m where m: "m < n" "1036 \<le> m" "(m - 1036) div 1024 = (n - 1036) div 1024"
    by (rule positionsE) (simp add: fst_route route_simps on_way_2)
  show "(n - 1036) mod 1024 \<noteq> 0"
  proof
    assume "(n - 1036) mod 1024 = 0"
    then have "n - 1036 = (n - 1036) div 1024 * 1024" using div_mult_mod_eq [of "n - 1036" 1024] by simp
    moreover have "(m - 1036) div 1024 * 1024 \<le> m - 1036" by simp
    ultimately show False using m by simp
  qed
next
  assume a: "(n - 1036) mod 1024 \<noteq> 0"
  then have n: "1036 < n" using assms by (cases "n = 1036") auto
  obtain l where l: "n - 1036 = Suc l" using n by (metis Suc_diff_Suc)
  have "l div 1024 = Suc l div 1024" using a l by (simp add: div_Suc)
  then have "(n - 1 - 1036) div 1024 = (n - 1036) div 1024" using l by simp
  then show "(13, [(n - 1036) div 1024]) \<in> positions n"
    using n assms by (intro positionsI [of "n - 1"]) (simp_all add: route_simps on_way_2)
qed

lemma positions_dind_2:
  assumes "1036 \<le> n" "n < 1049612"
  shows "(13, [(n - 1036) div 1024, (n - 1036) mod 1024]) \<notin> positions n"
proof
  assume "(13, [(n - 1036) div 1024, (n - 1036) mod 1024]) \<in> positions n"
  then obtain m where m: "m < n" "fst (route m) = 13"
    "(13, [(n - 1036) div 1024, (n - 1036) mod 1024]) \<in> on_way (route m)" by (rule positionsE)
  have r: "1036 \<le> m" "m < 1049612" using m(2) by (simp_all add: fst_route)
  have "(n - 1036) div 1024 = (m - 1036) div 1024 \<and> (n - 1036) mod 1024 = (m - 1036) mod 1024"
    using m(3) unfolding route_simps(3) [OF r] on_way_2 by blast
  then have "m - 1036 = n - 1036"
    using div_mult_mod_eq [of "m - 1036" 1024] div_mult_mod_eq [of "n - 1036" 1024] by metis
  with m(1) r(1) show False by linarith
qed

section \<open>The growing block map\<close>

text \<open>Positions above the bottom hold pointers.\<close>

definition interior :: "position \<Rightarrow> bool" where
  "interior p \<longleftrightarrow> length (snd p) < fst p - 11"

text \<open>
  The state of \<open>alloc_block\<close> relative to its start: the old positions keep their blocks, the new ones
  hold blocks that were free, and of the old blocks only blocks of pointers were written.
\<close>

definition growing :: "u32 set \<Rightarrow> fs \<Rightarrow> ext2_inode \<Rightarrow> position set \<Rightarrow> u32 set \<Rightarrow> fs \<Rightarrow> ext2_inode \<Rightarrow> position set \<Rightarrow> bool" where
  "growing F0 fs0 inode0 P0 F fs inode P \<longleftrightarrow> mapped F fs inode P \<and> P0 \<subseteq> P \<and>
     (\<exists>W. step F0 W fs0 F fs \<and> (\<forall>w \<in> W. allocated fs0 w \<longrightarrow> (\<exists>q \<in> P0. interior q \<and> node fs0 inode0 q = Some w))) \<and>
     (\<forall>q \<in> P0. node fs inode q = node fs0 inode0 q) \<and>
     (\<forall>q \<in> P - P0. \<forall>j. node fs inode q = Some j \<longrightarrow> \<not> allocated fs0 j) \<and>
     (\<exists>f. inode = inode0\<lparr>i_block := f\<rparr>)"

lemma growing_ok: "growing F0 fs0 inode0 P0 F fs inode P \<Longrightarrow> fs_ok F fs"
  by (auto simp: growing_def step_def)

lemma growing_start: "fs_ok F fs \<Longrightarrow> mapped F fs inode P \<Longrightarrow> growing F fs inode P F fs inode P"
  unfolding growing_def using step_refl by (intro conjI exI [of _ "{}"] exI [of _ "i_block inode"]) auto

lemma growing_step:
  assumes g: "growing F0 fs0 inode0 P0 F fs inode P" and s: "step F W fs F' fs'" and W: "pointers_stay fs fs' inode P W"
    and old: "\<forall>w \<in> W. allocated fs0 w \<longrightarrow> (\<exists>q \<in> P0. interior q \<and> node fs0 inode0 q = Some w)"
  shows "growing F0 fs0 inode0 P0 F' fs' inode P" "\<And>q. q \<in> P \<Longrightarrow> node fs' inode q = node fs inode q"
proof -
  have m: "mapped F fs inode P" using g by (simp add: growing_def)
  note ms = mapped_step [OF m s W]
  show n: "node fs' inode q = node fs inode q" if "q \<in> P" for q by (rule ms(2) [OF that])
  obtain W0 where W0: "step F0 W0 fs0 F fs" "\<forall>w \<in> W0. allocated fs0 w \<longrightarrow> (\<exists>q \<in> P0. interior q \<and> node fs0 inode0 q = Some w)"
    using g by (auto simp: growing_def)
  have "\<exists>W. step F0 W fs0 F' fs' \<and> (\<forall>w \<in> W. allocated fs0 w \<longrightarrow> (\<exists>q \<in> P0. interior q \<and> node fs0 inode0 q = Some w))"
    using step_trans [OF W0(1) s] W0(2) old by (intro exI [of _ "W0 \<union> W"]) blast
  moreover have "\<forall>q \<in> P0. node fs' inode q = node fs0 inode0 q" using g n by (auto simp: growing_def)
  moreover have "\<forall>q \<in> P - P0. \<forall>j. node fs' inode q = Some j \<longrightarrow> \<not> allocated fs0 j" using g n by (auto simp: growing_def)
  ultimately show "growing F0 fs0 inode0 P0 F' fs' inode P" using g ms(1) unfolding growing_def by blast
qed

lemma growing_new:
  assumes g: "growing F0 fs0 inode0 P0 F fs inode P" and m0: "mapped F0 fs0 inode0 P0" and j: "\<not> allocated fs0 j"
    and new: "\<forall>q \<in> P - P0. node fs inode q \<noteq> Some j"
  shows "q \<in> P \<Longrightarrow> node fs inode q \<noteq> Some j"
  using g new j mappedD [OF m0, of q] unfolding growing_def by (cases "q \<in> P0") auto

lemma growing_root:
  assumes g: "growing F0 fs0 inode0 P0 F fs inode P0" and m0: "mapped F0 fs0 inode0 P0"
    and t: "(t, []) \<notin> P0" and j: "allocated fs j" "\<not> allocated fs0 j"
  shows "growing F0 fs0 inode0 P0 F fs (i_block_upd t j inode) (insert (t, []) P0)"
    "node fs (i_block_upd t j inode) (t, []) = Some j"
proof -
  have m: "mapped F fs inode P0" using g by (simp add: growing_def)
  have nt: "(t, ks) \<notin> P0" for ks
    using t m by (induction ks rule: rev_induct) (auto simp: mapped_def closed_def)
  have nj: "node fs inode q \<noteq> Some j" if "q \<in> P0" for q by (rule growing_new [OF g m0 j(2) _ that]) simp
  note r = mapped_root [OF m nt j(1) nj]
  show jn: "node fs (i_block_upd t j inode) (t, []) = Some j" by (rule r(2))
  have "\<forall>q \<in> insert (t, []) P0 - P0. \<forall>i. node fs (i_block_upd t j inode) q = Some i \<longrightarrow> \<not> allocated fs0 i"
    using jn j(2) by auto
  moreover have "\<exists>f. i_block_upd t j inode = inode0\<lparr>i_block := f\<rparr>" using g by (auto simp: growing_def i_block_upd_def)
  ultimately show "growing F0 fs0 inode0 P0 F fs (i_block_upd t j inode) (insert (t, []) P0)"
    using g r(1,3) unfolding growing_def by auto
qed

lemma growing_link:
  assumes g: "growing F0 fs0 inode0 P0 F fs inode P" and m0: "mapped F0 fs0 inode0 P0"
    and p: "(t, ks) \<in> P" "(t, ks @ [o']) \<notin> P" "node fs inode (t, ks) = Some i" "interior (t, ks)"
    and s: "step F {i} fs (F - {i}) fs'" "fs_content fs i = Some x" "fs_content fs' i = Some (put_u32 x (o' * 4) j)"
    and j: "allocated fs' j" "\<not> allocated fs0 j" "\<forall>q \<in> P - P0. node fs inode q \<noteq> Some j"
  shows "growing F0 fs0 inode0 P0 (F - {i}) fs' inode (insert (t, ks @ [o']) P)" "node fs' inode (t, ks @ [o']) = Some j"
    "\<And>q. q \<in> P \<Longrightarrow> node fs' inode q = node fs inode q"
proof -
  have m: "mapped F fs inode P" using g by (simp add: growing_def)
  note k = poke_stays [OF m p(1-3) s(2,3)]
  have "\<exists>q \<in> P0. interior q \<and> node fs0 inode0 q = Some w" if "w \<in> {i}" "allocated fs0 w" for w
  proof -
    have "(t, ks) \<in> P0" using g p(1,3) that unfolding growing_def by blast
    moreover from this have "node fs0 inode0 (t, ks) = Some i" using g p(3) unfolding growing_def by simp
    ultimately show ?thesis using p(4) that(1) by blast
  qed
  then have "\<forall>w \<in> {i}. allocated fs0 w \<longrightarrow> (\<exists>q \<in> P0. interior q \<and> node fs0 inode0 q = Some w)" by blast
  note gs = growing_step [OF g s(1) k(1) this]
  show n: "node fs' inode q = node fs inode q" if "q \<in> P" for q by (rule gs(2) [OF that])
  have m': "mapped (F - {i}) fs' inode P" using gs(1) by (simp add: growing_def)
  have nj: "node fs' inode q \<noteq> Some j" if "q \<in> P" for q
    using growing_new [OF g m0 j(2,3) that] n [OF that] by simp
  note pt = mapped_pointer [OF m' p(1) _ k(2) _ j(1) nj]
  have pi: "node fs' inode (t, ks) = Some i" using n [OF p(1)] p(3) by simp
  show jn: "node fs' inode (t, ks @ [o']) = Some j" using pt(2) pi by simp
  have "mapped (F - {i}) fs' inode (insert (t, ks @ [o']) P)" using pt(1) pi by simp
  then show "growing F0 fs0 inode0 P0 (F - {i}) fs' inode (insert (t, ks @ [o']) P)"
    using gs(1) jn j(2) unfolding growing_def by auto
qed

section \<open>The levels\<close>

lemma top_block_grow:
  assumes g: "growing F0 fs0 inode0 P0 F fs inode0 P0" and m0: "mapped F0 fs0 inode0 P0"
    and first: "first \<longleftrightarrow> (t, []) \<notin> P0" and r: "room fs (Suc m)"
    and ps: "pins fs ps" "length ps < 1024" "\<And>j. j \<in> fst ` set ps \<Longrightarrow> \<not> allocated fs0 j"
  obtains a i x F1 fs1 inode1 where "top_block t first inode0 fs = Some (Some a, inode1, fs1)" "i_block inode1 t = i"
    "growing F0 fs0 inode0 P0 F1 fs1 inode1 (insert (t, []) P0)" "node fs1 inode1 (t, []) = Some i" "F1 \<subseteq> insert i F"
    "room fs1 m" "pins fs1 ((i, a, x) # ps)" "i \<notin> fst ` set ps" "\<And>j. allocated fs j \<Longrightarrow> allocated fs1 j"
    "(t, []) \<notin> P0 \<Longrightarrow> x = (\<lambda>_. 0)"
proof (cases first)
  case True
  obtain i a fs1 where a: "alloc_block fs = Some (Some (a, i), fs1)" "step F {} fs (insert i F) fs1" "\<not> allocated fs i"
    "allocated fs1 = (allocated fs)(i := True)" "room fs1 m" "pins fs1 ((i, a, \<lambda>_. 0) # ps)"
    by (rule alloc_pins [OF growing_ok [OF g] r ps(1,2)])
  have g1: "growing F0 fs0 inode0 P0 (insert i F) fs1 inode0 P0" by (rule growing_step(1) [OF g a(2)]) simp_all
  have i: "allocated fs1 i" "\<not> allocated fs0 i" using a(3,4) g by (auto simp: growing_def step_def)
  have "(t, []) \<notin> P0" using True first by simp
  note gr = growing_root [OF g1 m0 this i]
  have "i \<notin> fst ` set ps"
  proof
    assume "i \<in> fst ` set ps"
    then obtain c z where "(i, c, z) \<in> set ps" by force
    then have "allocated fs i" using pinsD [OF ps(1)] growing_ok [OF g] unfolding fs_ok_def by blast
    with a(3) show False ..
  qed
  moreover have "top_block t first inode0 fs = Some (Some a, i_block_upd t i inode0, fs1)"
    using True a(1) by (simp add: top_block_def)
  ultimately show ?thesis using gr a(4-6) by (intro that [OF _ _ gr]) (auto simp: i_block_upd_def)
next
  case False
  let ?i = "i_block inode0 t"
  have t: "(t, []) \<in> P0" using False first by simp
  have i0: "node fs0 inode0 (t, []) = Some ?i" by (simp add: node_def)
  then have i: "allocated fs0 ?i" using mappedD [OF m0 t] by auto
  then have "allocated fs ?i" "?i \<notin> fst ` set ps" using g ps(3) by (auto simp: growing_def step_def)
  then obtain a x fs1 where a: "get_block_ptr ?i fs = Some (Some a, fs1)" "step F {} fs F fs1" "allocated fs1 = allocated fs"
    "room fs1 = room fs" "pins fs1 ((?i, a, x) # ps)"
    using get_pins [OF growing_ok [OF g] _ _ ps(1,2)] by metis
  have g1: "growing F0 fs0 inode0 P0 F fs1 inode0 P0" by (rule growing_step(1) [OF g a(2)]) simp_all
  have "top_block t first inode0 fs = Some (Some a, inode0, fs1)" using False a(1) by (simp add: top_block_def)
  then show ?thesis
    using g1 t a \<open>?i \<notin> _\<close> room_less [OF r, of m] by (intro that [of a inode0 fs1 ?i F x]) (auto simp: insert_absorb node_def)
qed

lemma alloc_ind_grow:
  assumes n: "12 \<le> n" "n < 1036" and g: "growing F0 fs0 inode0 (positions n) F fs inode0 (positions n)"
    and m0: "mapped F0 fs0 inode0 (positions n)" and k: "allocated fs k" "\<not> allocated fs0 k"
    and r: "room fs (Suc m)" and ps: "pins fs [(k, b, z)]"
  obtains inode' fs' F' ps' where "alloc_ind n k inode0 fs = Some (True, inode', fs')"
    "growing F0 fs0 inode0 (positions n) F' fs' inode' (positions (Suc n))" "node fs' inode' (route n) = Some k"
    "F' \<subseteq> F" "pins fs' ps'" "(k, b, z) \<in> set ps'" "room fs' m"
proof -
  have first: "n = 12 \<longleftrightarrow> (12, []) \<notin> positions n" using n by (auto simp: positions_ind)
  obtain a i x F1 fs1 inode1 where t: "top_block 12 (n = 12) inode0 fs = Some (Some a, inode1, fs1)" "i_block inode1 12 = i"
    "growing F0 fs0 inode0 (positions n) F1 fs1 inode1 (insert (12, []) (positions n))" "node fs1 inode1 (12, []) = Some i"
    "F1 \<subseteq> insert i F" "room fs1 m" "pins fs1 [(i, a, x), (k, b, z)]" "i \<notin> fst ` set [(k, b, z)]" "\<And>j. allocated fs j \<Longrightarrow> allocated fs1 j"
    by (rule top_block_grow [OF g m0 first r ps]) (use k in auto)
  have o': "n - 12 < 1024" and im: "(i, a, x) \<in> set [(i, a, x), (k, b, z)]" using n by simp_all
  obtain fs2 where w: "write_slot a (n - 12) k fs1 = Some fs2" "step F1 {i} fs1 (F1 - {i}) (fs_modify i fs2)"
    "allocated (fs_modify i fs2) = allocated fs1" "room (fs_modify i fs2) = room fs1"
    "fs_content fs1 i = Some x" "fs_content (fs_modify i fs2) i = Some (put_u32 x ((n - 12) * 4) k)"
    "pins (fs_modify i fs2) (map (\<lambda>(j, c, z). (j, c, if j = i then put_u32 x ((n - 12) * 4) k else z)) [(i, a, x), (k, b, z)])"
    by (rule write_pins [OF growing_ok [OF t(3)] t(7) im o', of k])
  have new: "(12, [] @ [n - 12]) \<notin> insert (12, []) (positions n)" using positions_ind_next [OF n(1)] by simp
  have nk: "\<forall>q \<in> insert (12, []) (positions n) - positions n. node fs1 inode1 q \<noteq> Some k" using t(4,8) by auto
  have ak: "allocated (fs_modify i fs2) k" using t(9) [OF k(1)] w(3) by simp
  have "interior (12, [])" by (simp add: interior_def)
  note l = growing_link [OF t(3) m0 insertI1 new t(4) this w(2,5,6) ak k(2) nk]
  have P: "insert (12, [] @ [n - 12]) (insert (12, []) (positions n)) = positions (Suc n)"
    by (auto simp: positions_Suc route_simps(2) [OF n] on_way_1)
  show ?thesis
  proof (rule that [of inode1 "fs_modify i fs2" "F1 - {i}"])
    show "alloc_ind n k inode0 fs = Some (True, inode1, fs_modify i fs2)" using t(1,2) w(1) by (simp add: alloc_ind_def)
    show "node (fs_modify i fs2) inode1 (route n) = Some k" using l(2) by (simp add: route_simps(2) [OF n])
    show "growing F0 fs0 inode0 (positions n) (F1 - {i}) (fs_modify i fs2) inode1 (positions (Suc n))" using l(1) unfolding P .
    show "F1 - {i} \<subseteq> F" using t(5) by blast
    show "room (fs_modify i fs2) m" using w(4) t(6) by simp
  qed (use w(7) t(8) in auto)
qed

text \<open>The slot of the double indirect block that the code computes.\<close>

lemma dind_slot:
  assumes "1036 \<le> n" "n < 1049612"
  shows "(n - 1036) mod 1024 = 0 \<Longrightarrow> (n - 13) div 1024 = (n - 1036) div 1024"
    "(n - 1036) mod 1024 \<noteq> 0 \<Longrightarrow> (n - 13) div 1024 = Suc ((n - 1036) div 1024)"
    "(n - 1036) div 1024 < 1024"
proof -
  define q r where "q = (n - 1036) div 1024" and "r = (n - 1036) mod 1024"
  have n: "n - 1036 = q * 1024 + r" "r < 1024" by (simp_all add: q_def r_def)
  then have n13: "n - 13 = q * 1024 + (r + 1023)" using assms by linarith
  have "(n - 13) div 1024 = q + (r + 1023) div 1024" unfolding n13 by (simp only: div_mult_self3)
  moreover have "(r + 1023) div 1024 = (if r = 0 then 0 else 1)" using n(2) by (auto intro: div_nat_eqI)
  ultimately show "(n - 1036) mod 1024 = 0 \<Longrightarrow> (n - 13) div 1024 = (n - 1036) div 1024"
    "(n - 1036) mod 1024 \<noteq> 0 \<Longrightarrow> (n - 13) div 1024 = Suc ((n - 1036) div 1024)"
    unfolding q_def [symmetric] r_def [symmetric] by simp_all
  show "(n - 1036) div 1024 < 1024" using assms by (simp add: less_mult_imp_div_less)
qed

lemma positions_dind_Suc:
  assumes "1036 \<le> n" "n < 1049612"
  shows "positions (Suc n) = insert (13, [(n - 1036) div 1024, (n - 1036) mod 1024])
    (insert (13, [(n - 1036) div 1024]) (insert (13, []) (positions n)))"
  by (auto simp: positions_Suc route_simps(3) [OF assms] on_way_2)

lemma interior_dind: "interior (13, [])" "interior (13, [s])"
  by (simp_all add: interior_def)

text \<open>The last step on this level: the pointer to the new block.\<close>

lemma dind_link:
  assumes n: "1036 \<le> n" "n < 1049612" and m0: "mapped F0 fs0 inode0 (positions n)"
    and g: "growing F0 fs0 inode0 (positions n) F fs inode (insert (13, [(n - 1036) div 1024]) (insert (13, []) (positions n)))"
    and l: "node fs inode (13, [(n - 1036) div 1024]) = Some l" "(l, c, y) \<in> set ps" and ps: "pins fs ps"
    and k: "allocated fs k" "\<not> allocated fs0 k" "node fs inode (13, []) \<noteq> Some k" "l \<noteq> k" "(k, b, z) \<in> set ps"
  obtains fs1 ps' where "write_slot c ((n - 1036) mod 1024) k fs = Some fs1"
    "growing F0 fs0 inode0 (positions n) (F - {l}) (fs_modify l fs1) inode (positions (Suc n))"
    "node (fs_modify l fs1) inode (route n) = Some k" "pins (fs_modify l fs1) ps'" "(k, b, z) \<in> set ps'"
    "room (fs_modify l fs1) = room fs"
proof -
  let ?s = "(n - 1036) div 1024" and ?r = "(n - 1036) mod 1024"
  let ?P = "insert (13, [?s]) (insert (13, []) (positions n))"
  have o': "?r < 1024" by simp
  obtain fs1 where w: "write_slot c ?r k fs = Some fs1" "step F {l} fs (F - {l}) (fs_modify l fs1)"
    "allocated (fs_modify l fs1) = allocated fs" "room (fs_modify l fs1) = room fs" "fs_content fs l = Some y" "fs_content (fs_modify l fs1) l = Some (put_u32 y (?r * 4) k)"
    "pins (fs_modify l fs1) (map (\<lambda>(j, c, z). (j, c, if j = l then put_u32 y (?r * 4) k else z)) ps)"
    by (rule write_pins [OF growing_ok [OF g] ps l(2) o', of k])
  have new: "(13, [?s] @ [?r]) \<notin> ?P" using positions_dind_2 [OF n] by simp
  have nk: "\<forall>q \<in> ?P - positions n. node fs inode q \<noteq> Some k" using l(1) k(3,4) by auto
  have ak: "allocated (fs_modify l fs1) k" using k(1) w(3) by simp
  note gl = growing_link [OF g m0 insertI1 new l(1) interior_dind(2) w(2,5,6) ak k(2) nk]
  have kp: "(k, b, z) \<in> set (map (\<lambda>(j, c, z). (j, c, if j = l then put_u32 y (?r * 4) k else z)) ps)"
    using k(4,5) by force
  show ?thesis
  proof (rule that [OF w(1) _ _ w(7) kp w(4)])
    show "growing F0 fs0 inode0 (positions n) (F - {l}) (fs_modify l fs1) inode (positions (Suc n))"
      using gl(1) positions_dind_Suc [OF n] by simp
    show "node (fs_modify l fs1) inode (route n) = Some k" using gl(2) route_simps(3) [OF n] by simp
  qed
qed

text \<open>A new indirect block below the double indirect one.\<close>

lemma dind_open:
  assumes n: "1036 \<le> n" "n < 1049612" "(n - 1036) mod 1024 = 0" and m0: "mapped F0 fs0 inode0 (positions n)"
    and g: "growing F0 fs0 inode0 (positions n) F fs inode (insert (13, []) (positions n))"
    and i: "node fs inode (13, []) = Some i" and ps: "pins fs ps" "(i, a, x) \<in> set ps" "length ps < 1024" and r: "room fs (Suc m)"
  obtains l c fs1 fs2 ps' where "alloc_block fs = Some (Some (c, l), fs1)" "write_slot a ((n - 13) div 1024) l fs1 = Some fs2"
    "growing F0 fs0 inode0 (positions n) (insert l F - {i}) (fs_modify i fs2) inode
       (insert (13, [(n - 1036) div 1024]) (insert (13, []) (positions n)))"
    "node (fs_modify i fs2) inode (13, [(n - 1036) div 1024]) = Some l" "node (fs_modify i fs2) inode (13, []) = Some i"
    "pins (fs_modify i fs2) ps'" "(l, c, \<lambda>_. 0) \<in> set ps'" "\<not> allocated fs l"
    "\<And>j d z. (j, d, z) \<in> set ps \<Longrightarrow> j \<noteq> i \<Longrightarrow> (j, d, z) \<in> set ps'"
    "allocated (fs_modify i fs2) = (allocated fs)(l := True)" "i \<noteq> l" "room (fs_modify i fs2) m"
proof -
  let ?s = "(n - 1036) div 1024" and ?P = "insert (13, []) (positions n)"
  obtain l c fs1 where a: "alloc_block fs = Some (Some (c, l), fs1)" "step F {} fs (insert l F) fs1" "\<not> allocated fs l"
    "allocated fs1 = (allocated fs)(l := True)" "room fs1 m" "pins fs1 ((l, c, \<lambda>_. 0) # ps)"
    by (rule alloc_pins [OF growing_ok [OF g] r ps(1,3)])
  note g1 = growing_step [OF g a(2)]
  have gg: "growing F0 fs0 inode0 (positions n) (insert l F) fs1 inode ?P" by (rule g1(1)) simp_all
  have i1: "node fs1 inode (13, []) = Some i" using g1(2) [of "(13, [])"] i by simp
  have ai: "allocated fs i" using g i by (auto simp: growing_def mapped_def)
  then have il: "i \<noteq> l" using a(3) by auto
  have sl: "(n - 13) div 1024 = ?s" "?s < 1024" using dind_slot [OF n(1,2)] n(3) by simp_all
  have im: "(i, a, x) \<in> set ((l, c, \<lambda>_. 0) # ps)" using ps(2) by simp
  obtain fs2 where w: "write_slot a ?s l fs1 = Some fs2" "step (insert l F) {i} fs1 (insert l F - {i}) (fs_modify i fs2)"
    "allocated (fs_modify i fs2) = allocated fs1" "room (fs_modify i fs2) = room fs1"
    "fs_content fs1 i = Some x" "fs_content (fs_modify i fs2) i = Some (put_u32 x (?s * 4) l)"
    "pins (fs_modify i fs2) (map (\<lambda>(j, c, z). (j, c, if j = i then put_u32 x (?s * 4) l else z)) ((l, c, \<lambda>_. 0) # ps))"
    by (rule write_pins [OF growing_ok [OF gg] a(6) im sl(2), of l])
  have new: "(13, [] @ [?s]) \<notin> ?P" using positions_dind_1 [OF n(1,2)] n(3) by simp
  have nl: "\<forall>q \<in> ?P - positions n. node fs1 inode q \<noteq> Some l" using i1 il by auto
  have al: "allocated (fs_modify i fs2) l" "\<not> allocated fs0 l" using a(3,4) w(3) g by (auto simp: growing_def step_def)
  note gl = growing_link [OF gg m0 insertI1 new i1 interior_dind(1) w(2,5,6) al nl]
  show ?thesis
  proof (rule that [OF a(1) _ _ _ _ w(7) _ a(3)])
    show "write_slot a ((n - 13) div 1024) l fs1 = Some fs2" using w(1) sl(1) by simp
    show "node (fs_modify i fs2) inode (13, []) = Some i" using gl(3) [OF insertI1] i1 by simp
    show "room (fs_modify i fs2) m" using w(4) a(5) by simp
  qed (use gl il w(3) a(4) in force)+
qed

text \<open>The indirect block that is already there.\<close>

lemma dind_next:
  assumes n: "1036 \<le> n" "n < 1049612" "(n - 1036) mod 1024 \<noteq> 0" and m0: "mapped F0 fs0 inode0 (positions n)"
    and g: "growing F0 fs0 inode0 (positions n) F fs inode (insert (13, []) (positions n))"
    and i: "node fs inode (13, []) = Some i" and ps: "pins fs [(i, a, x), (k, b, z)]"
    and k: "allocated fs k" "\<not> allocated fs0 k" "i \<noteq> k"
  obtains l c fs1 fs2 ps' where "read_slot a ((n - 1036) div 1024) fs = Some l" "get_block_ptr l fs = Some (Some c, fs1)"
    "write_slot c ((n - 1036) mod 1024) k fs1 = Some fs2"
    "growing F0 fs0 inode0 (positions n) (F - {l}) (fs_modify l fs2) inode (positions (Suc n))"
    "node (fs_modify l fs2) inode (route n) = Some k" "pins (fs_modify l fs2) ps'" "(k, b, z) \<in> set ps'" "i \<notin> F"
    "room (fs_modify l fs2) = room fs"
proof -
  let ?s = "(n - 1036) div 1024" and ?r = "(n - 1036) mod 1024"
  have "n \<noteq> 1036" using n(3) by auto
  then have in_P: "(13, []) \<in> positions n" "(13, [?s]) \<in> positions n"
    using n positions_dind_1 [OF n(1,2)] by (simp_all add: positions_dind)
  have P: "insert (13, []) (positions n) = positions n" "insert (13, [?s]) (positions n) = positions n" using in_P by blast+
  have m: "mapped F fs inode (positions n)" using g P by (simp add: growing_def)
  have x: "cached (fs_cache fs) i = Some a" "fs_content fs i = Some x" using pinsD [OF ps, of i a x] by simp_all
  obtain l where l: "node fs inode (13, [?s]) = Some l" "allocated fs l" by (rule mappedD [OF m in_P(2)])
  have lx: "l = get_u32 x (?s * 4)" using l(1) i x(2) node_snoc [of fs inode 13 "[]" ?s] by (simp add: slot_def)
  have "l \<noteq> i" using m in_P i l(1) inj_onD [of "node fs inode" "positions n" "(13, [])" "(13, [?s])"] by (auto simp: mapped_def)
  moreover have lk: "l \<noteq> k" using growing_new [OF g m0 k(2), of "(13, [?s])"] l(1) in_P P by auto
  ultimately have li: "l \<notin> fst ` set [(i, a, x), (k, b, z)]" by simp
  obtain c y fs1 where p: "get_block_ptr l fs = Some (Some c, fs1)" "step F {} fs F fs1" "allocated fs1 = allocated fs"
    "room fs1 = room fs" "pins fs1 [(l, c, y), (i, a, x), (k, b, z)]"
    by (rule get_pins [OF growing_ok [OF g] l(2) li ps]) (simp, rule that)
  note g1 = growing_step [OF g p(2), unfolded P]
  have gg: "growing F0 fs0 inode0 (positions n) F fs1 inode (insert (13, [?s]) (insert (13, []) (positions n)))"
    unfolding P by (rule g1(1)) simp_all
  have nn: "node fs1 inode (13, [?s]) = Some l" "node fs1 inode (13, []) \<noteq> Some k"
    using g1(2) [OF _ _ in_P(2)] g1(2) [OF _ _ in_P(1)] l(1) i k(3) by simp_all
  obtain fs2 ps' where w: "write_slot c ?r k fs1 = Some fs2"
    "growing F0 fs0 inode0 (positions n) (F - {l}) (fs_modify l fs2) inode (positions (Suc n))"
    "node (fs_modify l fs2) inode (route n) = Some k" "pins (fs_modify l fs2) ps'" "(k, b, z) \<in> set ps'"
    "room (fs_modify l fs2) = room fs1"
    by (rule dind_link [OF n(1,2) m0 gg nn(1) _ p(5) _ k(2) nn(2) lk, of c y b z]) (use p(3) k(1) in simp_all)
  have "read_slot a ?s fs = Some l" using read_slot_ok [OF x dind_slot(3) [OF n(1,2)]] lx by simp
  moreover have "i \<in> index_blocks fs inode (positions n)" using in_P(2) i by (force simp: index_blocks_def)
  then have "i \<notin> F" using m by (auto simp: mapped_def)
  moreover have "room (fs_modify l fs2) = room fs" using w(6) p(4) by simp
  ultimately show ?thesis using that p(1) w(1-5) by blast
qed

lemma alloc_dind_grow:
  assumes n: "1036 \<le> n" "n < 1049612" and g: "growing F0 fs0 inode0 (positions n) F fs inode0 (positions n)"
    and m0: "mapped F0 fs0 inode0 (positions n)" and k: "allocated fs k" "\<not> allocated fs0 k"
    and r: "room fs (Suc (Suc m))" and ps: "pins fs [(k, b, z)]"
  obtains inode' fs' F' ps' where "alloc_dind n k inode0 fs = Some (True, inode', fs')"
    "growing F0 fs0 inode0 (positions n) F' fs' inode' (positions (Suc n))" "node fs' inode' (route n) = Some k"
    "F' \<subseteq> F" "pins fs' ps'" "(k, b, z) \<in> set ps'" "room fs' m"
proof -
  let ?s = "(n - 1036) div 1024" and ?r = "(n - 1036) mod 1024"
  have first: "n = 1036 \<longleftrightarrow> (13, []) \<notin> positions n" using n by (auto simp: positions_dind)
  obtain a i x F1 fs1 inode1 where t: "top_block 13 (n = 1036) inode0 fs = Some (Some a, inode1, fs1)" "i_block inode1 13 = i"
    "growing F0 fs0 inode0 (positions n) F1 fs1 inode1 (insert (13, []) (positions n))" "node fs1 inode1 (13, []) = Some i"
    "F1 \<subseteq> insert i F" "room fs1 (Suc m)" "pins fs1 [(i, a, x), (k, b, z)]" "i \<notin> fst ` set [(k, b, z)]" "\<And>j. allocated fs j \<Longrightarrow> allocated fs1 j"
    by (rule top_block_grow [OF g m0 first r ps]) (use k in auto)
  have ik: "i \<noteq> k" and ak: "allocated fs1 k" using t(8,9) k(1) by auto
  have sl: "?s < 1024" "(n - 13) div 1024 \<le> 1024" using dind_slot [OF n] by (cases "?r = 0"; simp)+
  show ?thesis
  proof (cases "?r = 0")
    case True
    obtain l c fs2 fs3 ps3 where d: "alloc_block fs1 = Some (Some (c, l), fs2)" "write_slot a ((n - 13) div 1024) l fs2 = Some fs3"
      "growing F0 fs0 inode0 (positions n) (insert l F1 - {i}) (fs_modify i fs3) inode1 (insert (13, [?s]) (insert (13, []) (positions n)))"
      "node (fs_modify i fs3) inode1 (13, [?s]) = Some l" "node (fs_modify i fs3) inode1 (13, []) = Some i"
      "pins (fs_modify i fs3) ps3" "(l, c, \<lambda>_. 0) \<in> set ps3" "\<not> allocated fs1 l"
      "\<And>j d u. (j, d, u) \<in> set [(i, a, x), (k, b, z)] \<Longrightarrow> j \<noteq> i \<Longrightarrow> (j, d, u) \<in> set ps3"
      "allocated (fs_modify i fs3) = (allocated fs1)(l := True)" "i \<noteq> l" "room (fs_modify i fs3) m"
      by (rule dind_open [OF n True m0 t(3,4,7) _ _ t(6), of a x]) (simp, simp, rule that)
    have k3: "allocated (fs_modify i fs3) k" "node (fs_modify i fs3) inode1 (13, []) \<noteq> Some k" "l \<noteq> k" "(k, b, z) \<in> set ps3"
      using ak ik d(5,8,9,10) by auto
    obtain fs4 ps' where w: "write_slot c ?r k (fs_modify i fs3) = Some fs4"
      "growing F0 fs0 inode0 (positions n) (insert l F1 - {i} - {l}) (fs_modify l fs4) inode1 (positions (Suc n))"
      "node (fs_modify l fs4) inode1 (route n) = Some k" "pins (fs_modify l fs4) ps'" "(k, b, z) \<in> set ps'"
      "room (fs_modify l fs4) = room (fs_modify i fs3)"
      by (rule dind_link [OF n m0 d(3,4,7,6) k3(1) k(2) k3(2-4)])
    show ?thesis
    proof (rule that [OF _ w(2-3) _ w(4,5)])
      show "alloc_dind n k inode0 fs = Some (True, inode1, fs_modify l fs4)"
        using t(1,2) d(1,2) w(1) True sl(2) by (simp add: alloc_dind_def ASSERT_def Let_def)
      show "insert l F1 - {i} - {l} \<subseteq> F" using t(5) by blast
      show "room (fs_modify l fs4) m" using w(6) d(12) by simp
    qed
  next
    case False
    obtain l c fs2 fs3 ps' where w: "read_slot a ?s fs1 = Some l" "get_block_ptr l fs1 = Some (Some c, fs2)"
      "write_slot c ?r k fs2 = Some fs3"
      "growing F0 fs0 inode0 (positions n) (F1 - {l}) (fs_modify l fs3) inode1 (positions (Suc n))"
      "node (fs_modify l fs3) inode1 (route n) = Some k" "pins (fs_modify l fs3) ps'" "(k, b, z) \<in> set ps'" "i \<notin> F1"
      "room (fs_modify l fs3) = room fs1"
      by (rule dind_next [OF n False m0 t(3,4,7) ak k(2) ik])
    show ?thesis
    proof (rule that [OF _ w(4,5) _ w(6,7)])
      show "alloc_dind n k inode0 fs = Some (True, inode1, fs_modify l fs3)"
        using t(1) w(1-3) False sl(2) dind_slot(2) [OF n False] by (simp add: alloc_dind_def ASSERT_def Let_def)
      show "F1 - {l} \<subseteq> F" using t(5) w(8) by blast
      show "room (fs_modify l fs3) m" using w(9) room_less [OF t(6)] by simp
    qed
  qed
qed

section \<open>Allocation for an inode\<close>

text \<open>An inode with \<open>n\<close> blocks: \<open>i_blocks\<close> counts units of 512 bytes.\<close>

definition inode_maps :: "u32 set \<Rightarrow> fs \<Rightarrow> ext2_inode \<Rightarrow> nat \<Rightarrow> bool" where
  "inode_maps F fs inode n \<longleftrightarrow> mapped F fs inode (positions n) \<and> n < 2 ^ 29 \<and> i_blocks inode = word_of_nat (n * 8) \<and>
     (S_ISDIR (i_mode inode) \<or> S_ISREG (i_mode inode)) \<and> s_log_block_size (super_of fs) = 2"

lemma num_blocks_eq:
  assumes "inode_maps F fs inode n"
  shows "num_aligned_blocks (super_of fs) (i_blocks inode) = Some (word_of_nat n)" "unat (word_of_nat n :: u32) = n"
proof -
  have n: "n < 2 ^ 29" "i_blocks inode = word_of_nat (n * 8)" "s_log_block_size (super_of fs) = 2"
    using assms by (simp_all add: inode_maps_def)
  have "n * 8 < 2 ^ 32" using n(1) by simp
  then have u: "unat (word_of_nat (n * 8) :: u32) = n * 8" by (simp only: unat_of_nat) simp
  show un: "unat (word_of_nat n :: u32) = n" using n(1) by (simp add: unat_of_nat)
  have "(word_of_nat (n * 8) :: u32) div 8 = word_of_nat n"
    by (simp only: word_unat_eq_iff unat_div u un) simp
  then show "num_aligned_blocks (super_of fs) (i_blocks inode) = Some (word_of_nat n)"
    using n by (simp add: num_aligned_blocks_def push_bit_eq_mult)
qed

lemma direct_grow:
  assumes n: "n < 12" and g: "growing F0 fs0 inode0 (positions n) F fs inode0 (positions n)"
    and m0: "mapped F0 fs0 inode0 (positions n)" and k: "allocated fs k" "\<not> allocated fs0 k"
  shows "growing F0 fs0 inode0 (positions n) F fs (i_block_upd n k inode0) (positions (Suc n))"
    "node fs (i_block_upd n k inode0) (route n) = Some k"
proof -
  note r = growing_root [OF g m0 positions_direct [OF n, of "[]"] k]
  have "positions (Suc n) = insert (n, []) (positions n)"
    by (auto simp: positions_Suc route_simps(1) [OF n] on_way_Nil)
  then show "growing F0 fs0 inode0 (positions n) F fs (i_block_upd n k inode0) (positions (Suc n))" using r(1) by simp
  show "node fs (i_block_upd n k inode0) (route n) = Some k" using r(2) route_simps(1) [OF n] by simp
qed

lemma alloc_block_inode_ok:
  assumes ok: "fs_ok F fs" and im: "inode_maps F fs inode n" and n: "n < 1049612" and r: "room fs (m + 3)"
  obtains b k inode' fs' F' ps where "alloc_block_inode inode fs = Some (Some (b, k), inode', fs')"
    "growing F fs inode (positions n) F' fs' (inode'\<lparr>i_blocks := i_blocks inode\<rparr>) (positions (Suc n))"
    "i_blocks inode' = i_blocks inode + 8" "inode_maps F' fs' inode' (Suc n)" "bmap fs' inode' n = Some k" "\<not> allocated fs k"
    "F' \<subseteq> insert k F" "pins fs' ps" "(k, b, \<lambda>_. 0) \<in> set ps" "room fs' m"
proof -
  have m0: "mapped F fs inode (positions n)" and mode: "S_ISDIR (i_mode inode) \<or> S_ISREG (i_mode inode)"
    using im by (simp_all add: inode_maps_def)
  have r': "room fs (Suc (Suc (Suc m)))" using r by (simp add: numeral_3_eq_3)
  obtain k b fs1 where a: "alloc_block fs = Some (Some (b, k), fs1)" "step F {} fs (insert k F) fs1" "\<not> allocated fs k"
    "allocated fs1 = (allocated fs)(k := True)" "room fs1 (Suc (Suc m))" "pins fs1 [(k, b, \<lambda>_. 0)]"
    by (rule alloc_pins [OF ok r' pins_Nil [OF ok]]) simp
  have g1: "growing F fs inode (positions n) (insert k F) fs1 inode (positions n)"
    by (rule growing_step(1) [OF growing_start [OF ok m0] a(2)]) simp_all
  have k1: "allocated fs1 k" using a(4) by simp
  obtain inode2 fs2 F2 ps where l: "(if n < 12 then Some (True, i_block_upd n k inode, fs1)
      else if n < 1036 then alloc_ind n k inode fs1 else alloc_dind n k inode fs1) = Some (True, inode2, fs2)"
    "growing F fs inode (positions n) F2 fs2 inode2 (positions (Suc n))" "node fs2 inode2 (route n) = Some k"
    "F2 \<subseteq> insert k F" "pins fs2 ps" "(k, b, \<lambda>_. 0) \<in> set ps" "room fs2 m"
  proof (cases "n < 12")
    case True
    show ?thesis by (rule that [OF _ direct_grow [OF True g1 m0 k1 a(3)] _ a(6)]) (use True room_less [OF a(5)] in simp_all)
  next
    case d: False
    show ?thesis
    proof (cases "n < 1036")
      case True
      have "12 \<le> n" "room fs1 (Suc m)" using d room_less [OF a(5)] by auto
      then show ?thesis by (rule alloc_ind_grow [OF _ True g1 m0 k1 a(3) _ a(6)]) (rule that, use True d in simp_all)
    next
      case False
      then have "1036 \<le> n" by simp
      then show ?thesis by (rule alloc_dind_grow [OF _ n g1 m0 k1 a(3,5,6)]) (rule that, use False d in simp_all)
    qed
  qed
  let ?i = "inode2\<lparr>i_blocks := i_blocks inode + 8\<rparr>"
  obtain f where f: "inode2 = inode\<lparr>i_block := f\<rparr>" using l(2) by (auto simp: growing_def)
  have lbs: "s_log_block_size (super_of fs2) = 2"
    using l(2) im by (auto simp: growing_def step_def same_meta_def inode_maps_def)
  have nodes: "node fs2 ?i = node fs2 inode2" by (simp add: fun_eq_iff node_def)
  have c: "alloc_block_inode inode fs = Some (Some (b, k), ?i, fs2)"
    using mode a(1) l(1) n lbs num_blocks_eq [OF im] f
    by (cases "n < 12"; cases "n < 1036") (simp_all add: alloc_block_inode_def ASSERT_def Let_def push_bit_eq_mult)
  have "inode_maps F2 fs2 ?i (Suc n)"
    using l(2) lbs im n f nodes by (simp add: inode_maps_def growing_def mapped_def index_blocks_def)
  moreover have "?i\<lparr>i_blocks := i_blocks inode\<rparr> = inode2" by (simp add: f)
  ultimately show ?thesis using l(2-7) a(3) nodes by (intro that [OF c]) (simp_all add: bmap_def)
qed

section \<open>Property\<close>

lemma route_interior: "\<not> interior (route m)"
  by (simp add: interior_def route_def)

text \<open>The data of the file, and every block outside its map, keep their contents.\<close>

lemma growing_content:
  assumes g: "growing F0 fs0 inode0 P0 F fs inode P" and m0: "mapped F0 fs0 inode0 P0"
    and j: "allocated fs0 j" "j \<notin> F0" "fs_content fs0 j = Some x" "\<And>q. q \<in> P0 \<Longrightarrow> interior q \<Longrightarrow> node fs0 inode0 q \<noteq> Some j"
  shows "fs_content fs j = Some x"
proof -
  obtain W where W: "step F0 W fs0 F fs" "\<forall>w \<in> W. allocated fs0 w \<longrightarrow> (\<exists>q \<in> P0. interior q \<and> node fs0 inode0 q = Some w)"
    using g by (auto simp: growing_def)
  then have "j \<notin> W" using j(1,4) by blast
  then show ?thesis using step_content [OF W(1) j(1,2) _ j(3)] by blast
qed

lemma data_not_index:
  assumes m: "mapped F fs inode (positions n)" and i: "i < n" "bmap fs inode i = Some j" and q: "q \<in> positions n" "interior q"
  shows "node fs inode q \<noteq> Some j"
proof
  assume "node fs inode q = Some j"
  then have "q = route i"
    using m i q(1) route_positions [OF i(1)] inj_onD [of "node fs inode" "positions n" q "route i"] by (simp add: mapped_def bmap_def)
  then show False using q(2) route_interior by simp
qed

text \<open>
  C8 (functional): \<open>alloc_block\<close> for an inode appends one block. Below the triple indirect level and with
  three free blocks it succeeds; the block that becomes the \<open>n\<close>-th was free and is zeroed, the
  blocks before it keep their numbers and contents, \<open>i_blocks\<close> counts it, and the inode is again
  well mapped: all its blocks, those of pointers included, are allocated and different.
\<close>

theorem alloc_block_inode_appends:
  assumes "fs_ok F fs" "inode_maps F fs inode n" "n < 1049612" "room fs 3"
  shows "\<exists>b k inode' fs' F'. alloc_block_inode inode fs = Some (Some (b, k), inode', fs') \<and> fs_ok F' fs' \<and> F' \<subseteq> insert k F \<and>
     inode_maps F' fs' inode' (Suc n) \<and> bmap fs' inode' n = Some k \<and> \<not> allocated fs k \<and> fs_content fs' k = Some (\<lambda>_. 0) \<and>
     (\<forall>i < n. bmap fs' inode' i = bmap fs inode i \<and>
        (\<forall>j x. bmap fs inode i = Some j \<and> j \<notin> F \<and> fs_content fs j = Some x \<longrightarrow> fs_content fs' j = Some x))"
proof -
  obtain b k inode' fs' F' ps where a: "alloc_block_inode inode fs = Some (Some (b, k), inode', fs')"
    "growing F fs inode (positions n) F' fs' (inode'\<lparr>i_blocks := i_blocks inode\<rparr>) (positions (Suc n))"
    "inode_maps F' fs' inode' (Suc n)" "bmap fs' inode' n = Some k" "\<not> allocated fs k" "F' \<subseteq> insert k F"
    "pins fs' ps" "(k, b, \<lambda>_. 0) \<in> set ps"
    by (rule alloc_block_inode_ok [OF assms(1-3), of 0]) (use assms(4) in simp)
  have m0: "mapped F fs inode (positions n)" using assms(2) by (simp add: inode_maps_def)
  have old: "bmap fs' inode' i = bmap fs inode i" if "i < n" for i
    using a(2) route_positions [OF that] unfolding growing_def by (auto simp: bmap_def node_def)
  have "fs_content fs' j = Some x" if i: "i < n" and j: "bmap fs inode i = Some j" "j \<notin> F" "fs_content fs j = Some x" for i j x
  proof (rule growing_content [OF a(2) m0 _ j(2,3)])
    show "allocated fs j" using mappedD [OF m0 route_positions [OF i]] j(1) by (auto simp: bmap_def)
    show "node fs inode q \<noteq> Some j" if "q \<in> positions n" "interior q" for q by (rule data_not_index [OF m0 i j(1) that])
  qed
  with a old pinsD [OF a(7,8)] growing_ok [OF a(2)] show ?thesis by blast
qed

lemma small_fs_room3: "room small_fs 3"
proof -
  have "{3, 4, 5} \<subseteq> free_blocks small_fs"
    by (auto simp: free_blocks_def small_fs_allocated disk_blocks_def) (simp_all add: group_at_def small_fs_def)
  then have "card {3, 4, 5 :: u32} \<le> card (free_blocks small_fs)" by (rule card_mono [rotated]) simp
  then show ?thesis by (simp add: room_def)
qed

definition small_file :: ext2_inode where
  "small_file = (get_inode_at (\<lambda>_. 0) 0)\<lparr>i_mode := 0x81A4, i_size := 100, i_blocks := 8, i_block := (\<lambda>_. 0)(0 := 1)\<rparr>"

lemma small_file_maps: "inode_maps {} small_fs small_file 1"
proof -
  have "positions 1 = {(0, [])}" by (auto simp: positions_def route_def on_way_def)
  moreover have "node small_fs small_file (0, []) = Some 1" by (simp add: node_def small_file_def)
  ultimately have "mapped {} small_fs small_file (positions 1)"
    by (simp add: mapped_def closed_def index_blocks_def small_fs_allocated)
  moreover have "S_ISREG (i_mode small_file)" by (simp add: small_file_def S_ISREG_def S_IFMT_def)
  ultimately show ?thesis by (simp add: inode_maps_def small_file_def small_fs_def small_super_def)
qed

theorem alloc_block_inode_appends_witness:
  "\<exists>b k inode' fs'. alloc_block_inode small_file small_fs = Some (Some (b, k), inode', fs') \<and>
     bmap fs' inode' 0 = Some 1 \<and> bmap fs' inode' 1 = Some k \<and> 3 \<le> unat k"
proof -
  obtain b k inode' fs' where a: "alloc_block_inode small_file small_fs = Some (Some (b, k), inode', fs')"
    "bmap fs' inode' 1 = Some k" "\<not> allocated small_fs k" "bmap fs' inode' 0 = bmap small_fs small_file 0"
    using alloc_block_inode_appends [OF small_fs_ok small_file_maps _ small_fs_room3] by auto
  moreover have "bmap small_fs small_file 0 = Some 1" by (simp add: bmap_def route_def node_def small_file_def)
  ultimately show ?thesis by (auto simp: small_fs_allocated not_less)
qed

end
