(* ===== verification/File_Seek.thy ===== *)
theory File_Seek
  imports Map_Grow File_Status
begin

text \<open>
  Positions of an open file: \<open>bf_seek\<close>, which walks from the inode, and \<open>next_block\<close> and \<open>seek\<close>, which
  reuse the pointers the handle holds, all arrive at the block that the block map gives.
\<close>

section \<open>Handles on a block\<close>

definition at_block :: "fs \<Rightarrow> ext2_inode \<Rightarrow> file_status \<Rightarrow> nat \<Rightarrow> bool" where
  "at_block fs inode f n \<longleftrightarrow> unat (block_id_in_file f) = n \<and> bmap fs inode n = Some (block_id f) \<and>
     (\<forall>l < length (snd (route n)). node fs inode (fst (route n), take l (snd (route n))) = Some (indirect_block f l))"

text \<open>What a walk does not change: the handle's other fields.\<close>

definition same_handle :: "file_status \<Rightarrow> file_status \<Rightarrow> bool" where
  "same_handle f f' \<longleftrightarrow> fd_inode_cache f' = fd_inode_cache f \<and> fd_listed f' = fd_listed f \<and> cache_update_flag f' = cache_update_flag f"

lemma ind_seek_ok:
  assumes ok: "fs_ok F fs" and k: "allocated fs k" "slot fs k (unat off) = Some j" and o': "unat off < 1024"
  obtains fs' where "ind_seek k off fs = Some (Some j, fs')" "fs_reads F fs fs'"
proof -
  obtain a x fs' where g: "get_block_ptr k fs = Some (Some a, fs')" "fs_reads F fs fs'" "cached (fs_cache fs') k = Some a"
    "fs_content fs k = Some x" "fs_content fs' k = Some x"
    by (rule get_block_ptr_ok [OF ok k(1)])
  have "read_slot a (unat off) fs' = Some j" using read_slot_ok [OF g(3,5) o'] k(2) g(4) by (simp add: slot_def)
  then show ?thesis using that g(1,2) by (simp add: ind_seek_def)
qed

lemma walk_Cons: "offs \<noteq> [] \<Longrightarrow> walk k (off # offs) f fs = do {
     (r, fs) \<leftarrow> ind_seek (indirect_block f k) off fs;
     case r of
       None \<Rightarrow> Some (- EINVAL, f, fs)
     | Some v \<Rightarrow> walk (Suc k) offs (f\<lparr>indirect_block := (indirect_block f)(Suc k := v)\<rparr>) fs }"
  by (cases offs) auto

lemma walk_ok:
  assumes "fs_ok F fs" "mapped F fs inode P" "(t, ks @ map unat offs) \<in> P" "offs \<noteq> []" "\<forall>o' \<in> set offs. unat o' < 1024"
    "\<forall>l \<le> length ks. node fs inode (t, take l ks) = Some (indirect_block f l)"
  shows "\<exists>f' fs'. walk (length ks) offs f fs = Some (0, f', fs') \<and> fs_reads F fs fs' \<and>
    node fs inode (t, ks @ map unat offs) = Some (block_id f') \<and> block_id_in_file f' = block_id_in_file f \<and> same_handle f f' \<and>
    (\<forall>l < length (ks @ map unat offs). node fs inode (t, take l (ks @ map unat offs)) = Some (indirect_block f' l))"
  using assms
proof (induction offs arbitrary: ks f fs)
  case (Cons off offs)
  have cl: "closed P" using Cons.prems(2) by (simp add: mapped_def)
  have pre: "(t, ks @ [unat off]) \<in> P" "(t, ks) \<in> P"
    using closed_prefix [OF cl, of t "ks @ [unat off]" "map unat offs"] closed_prefix [OF cl, of t ks] Cons.prems(3) by auto
  let ?k = "indirect_block f (length ks)"
  have k: "node fs inode (t, ks) = Some ?k" using Cons.prems(6) by (metis le_refl take_all)
  then have al: "allocated fs ?k" using mappedD [OF Cons.prems(2)] pre by (metis option.inject)
  obtain j where j: "node fs inode (t, ks @ [unat off]) = Some j" using mappedD [OF Cons.prems(2)] pre by metis
  then have sl: "slot fs ?k (unat off) = Some j" using k by (simp add: node_snoc)
  have o': "unat off < 1024" using Cons.prems(5) by simp
  obtain fs1 where s: "ind_seek ?k off fs = Some (Some j, fs1)" "fs_reads F fs fs1"
    by (rule ind_seek_ok [OF Cons.prems(1) al sl o'])
  show ?case
  proof (cases "offs = []")
    case True
    have "\<forall>l < length (ks @ [unat off]). node fs inode (t, take l (ks @ [unat off])) = Some (indirect_block f l)"
      using Cons.prems(6) by (simp add: less_Suc_eq_le)
    then show ?thesis using s j True by (simp add: same_handle_def)
  next
    case False
    note ms = mapped_step [OF Cons.prems(2) reads_step [OF s(2)] pointers_stay_empty]
    let ?f = "f\<lparr>indirect_block := (indirect_block f)(Suc (length ks) := j)\<rparr>"
    have up: "(t, take l (ks @ [unat off])) \<in> P" for l by (rule closed_take [OF cl pre(1)])
    have "\<forall>l \<le> length (ks @ [unat off]). node fs1 inode (t, take l (ks @ [unat off])) = Some (indirect_block ?f l)"
      using Cons.prems(6) j ms(2) [OF up] by (auto simp: le_Suc_eq)
    from Cons.IH [OF fs_reads_ok [OF s(2)] ms(1) _ False _ this]
    obtain f' fs' where w: "walk (length (ks @ [unat off])) offs ?f fs1 = Some (0, f', fs')" "fs_reads F fs1 fs'"
      "node fs1 inode (t, (ks @ [unat off]) @ map unat offs) = Some (block_id f')" "block_id_in_file f' = block_id_in_file ?f"
      "same_handle ?f f'"
      "\<forall>l < length ((ks @ [unat off]) @ map unat offs).
         node fs1 inode (t, take l ((ks @ [unat off]) @ map unat offs)) = Some (indirect_block f' l)"
      using Cons.prems(3,5) by auto
    have all: "(t, take l (ks @ map unat (off # offs))) \<in> P" for l by (rule closed_take [OF cl Cons.prems(3)])
    have n: "node fs1 inode (t, take l (ks @ map unat (off # offs))) = node fs inode (t, take l (ks @ map unat (off # offs)))" for l
      by (rule ms(2) [OF all])
    have "walk (length ks) (off # offs) f fs = Some (0, f', fs')" using s(1) w(1) False by (simp add: walk_Cons)
    moreover have "node fs inode (t, ks @ map unat (off # offs)) = Some (block_id f')"
      using w(3) n [of "length (ks @ map unat (off # offs))"] by simp
    moreover have "\<forall>l < length (ks @ map unat (off # offs)). node fs inode (t, take l (ks @ map unat (off # offs))) = Some (indirect_block f' l)"
      using w(6) unfolding n [symmetric] by simp
    ultimately show ?thesis using fs_reads_trans [OF s(2) w(2)] w(4,5) by (auto simp: same_handle_def)
  qed
qed simp

section \<open>Routes in machine words\<close>

lemma unat_minus_nat: "c \<le> unat (b :: u32) \<Longrightarrow> c < 2 ^ 32 \<Longrightarrow> unat (b - word_of_nat c) = unat b - c"
  by (subst unat_sub) (simp_all add: word_le_nat_alt unat_of_nat)

lemma IBLOCK_le:
  "b \<le> IBLOCK_11 \<longleftrightarrow> unat b < 12" "b \<le> IBLOCK_12 \<longleftrightarrow> unat b < 1036" "b \<le> IBLOCK_13 \<longleftrightarrow> unat b < 1049612"
  "b \<le> IBLOCK_14 \<longleftrightarrow> unat b < 1074791436"
  by (auto simp: word_le_nat_alt)

lemma IBLOCK_minus:
  "12 \<le> unat b \<Longrightarrow> unat (b - IBLOCK_11 - 1) = unat b - 12"
  "1036 \<le> unat b \<Longrightarrow> unat (b - IBLOCK_12 - 1) = unat b - 1036"
  "1049612 \<le> unat b \<Longrightarrow> unat (b - IBLOCK_13 - 1) = unat b - 1049612"
  using unat_minus_nat [of 12 b] unat_minus_nat [of 1036 b] unat_minus_nat [of 1049612 b] by (simp_all add: algebra_simps)

lemma route_ind: "12 \<le> unat b \<Longrightarrow> unat b < 1036 \<Longrightarrow> route (unat b) = (12, map unat [b - IBLOCK_11 - 1])"
  using IBLOCK_minus(1) [of b] by (simp only: route_simps list.map)

lemma route_dind:
  assumes "1036 \<le> unat b" "unat b < 1049612"
  shows "route (unat b) = (13, map unat [(b - IBLOCK_12 - 1) div PTRS, (b - IBLOCK_12 - 1) mod PTRS])"
proof -
  have p: "unat PTRS = 1024" by simp
  show ?thesis using IBLOCK_minus(2) [OF assms(1)] by (simp only: route_simps(3) [OF assms] list.map unat_div unat_mod p)
qed

lemma route_tind:
  assumes "1049612 \<le> unat b"
  shows "route (unat b) = (14, map unat [(b - IBLOCK_13 - 1) div (PTRS * PTRS), (b - IBLOCK_13 - 1) mod (PTRS * PTRS) div PTRS,
    (b - IBLOCK_13 - 1) mod PTRS])"
proof -
  have p: "unat PTRS = 1024" "unat (PTRS * PTRS) = 1048576" by simp_all
  have "route (unat b) = (14, [(unat b - 1049612) div 1048576, (unat b - 1049612) mod 1048576 div 1024, (unat b - 1049612) mod 1024])"
    using assms by (simp add: route_def)
  then show ?thesis using IBLOCK_minus(3) [OF assms] by (simp only: list.map unat_div unat_mod p)
qed

lemma route_small: "k \<in> set (snd (route n)) \<Longrightarrow> n < 2 ^ 29 \<Longrightarrow> k < 1024"
  by (auto simp: route_def less_mult_imp_div_less split: if_splits)

text \<open>The next block shares the pointers above the last slot that does not wrap to 0.\<close>

lemma route_dind_Suc:
  assumes "1036 \<le> n" "(Suc n - 1036) mod 1024 \<noteq> 0"
  shows "(n - 1036) div 1024 = (Suc n - 1036) div 1024"
proof -
  have "Suc n - 1036 = Suc (n - 1036)" using assms(1) by simp
  then show ?thesis using assms(2) by (simp add: div_Suc)
qed

lemma route_tind_nat:
  "1049612 \<le> n \<Longrightarrow> route n = (14, [(n - 1049612) div 1024 div 1024, (n - 1049612) div 1024 mod 1024, (n - 1049612) mod 1024])"
proof -
  assume n: "1049612 \<le> n"
  define x where "x = n - 1049612"
  have "x mod (1024 * 1024) = 1024 * (x div 1024 mod 1024) + x mod 1024" by (rule mod_mult2_eq)
  then have "x mod 1048576 div 1024 = x div 1024 mod 1024" by simp
  moreover have "x div 1048576 = x div 1024 div 1024" by (simp add: div_mult2_eq [symmetric])
  ultimately show ?thesis using n by (simp add: route_def x_def [symmetric])
qed

lemma div_Suc_keep: "Suc x mod 1024 \<noteq> 0 \<Longrightarrow> x div 1024 = Suc x div (1024 :: nat)"
  by (simp add: div_Suc)

lemma div_Suc_wrap: "Suc x mod 1024 = 0 \<Longrightarrow> Suc x div 1024 = Suc (x div (1024 :: nat))"
  by (simp add: div_Suc)

section \<open>Arriving at a block\<close>

lemma at_block_step:
  assumes a: "at_block fs inode f m" and m: "mapped F fs inode P" "route m \<in> P" and s: "step F W fs F' fs'" "pointers_stay fs fs' inode P W"
  shows "at_block fs' inode f m"
proof -
  note ms = mapped_step(2) [OF m(1) s]
  have "(fst (route m), take l (snd (route m))) \<in> P" for l
    using closed_take [of P "fst (route m)" "snd (route m)"] m by (simp add: mapped_def)
  from ms [OF this] ms [OF m(2)] a show ?thesis by (simp add: at_block_def bmap_def)
qed

lemma walk_arrives:
  assumes ok: "fs_ok F fs" and m: "mapped F fs inode P" "route n \<in> P" "n < 2 ^ 29"
    and r: "route n = (t, ks @ map unat offs)" "offs \<noteq> []" "unat (block_id_in_file f) = n"
    and pre: "\<forall>l \<le> length ks. node fs inode (t, take l ks) = Some (indirect_block f l)"
  shows "\<exists>f' fs'. walk (length ks) offs f fs = Some (0, f', fs') \<and> fs_reads F fs fs' \<and> at_block fs' inode f' n \<and> same_handle f f'"
proof -
  have "\<forall>o' \<in> set offs. unat o' < 1024" using route_small [OF _ m(3)] r(1) by auto
  from walk_ok [OF ok m(1) _ r(2) this pre] m(2) r(1)
  obtain f' fs' where w: "walk (length ks) offs f fs = Some (0, f', fs')" "fs_reads F fs fs'"
    "node fs inode (t, ks @ map unat offs) = Some (block_id f')" "block_id_in_file f' = block_id_in_file f" "same_handle f f'"
    "\<forall>l < length (ks @ map unat offs). node fs inode (t, take l (ks @ map unat offs)) = Some (indirect_block f' l)"
    by auto
  have "at_block fs inode f' n" using w(3,4,6) r(1,3) by (simp add: at_block_def bmap_def)
  then have "at_block fs' inode f' n" using at_block_step [OF _ m(1,2) reads_step [OF w(2)]] by simp
  with w show ?thesis by blast
qed

text \<open>Starting at the inode, and starting at pointers the handle holds.\<close>

lemma walk_from_inode:
  assumes "fs_ok F fs" "mapped F fs inode P" "route n \<in> P" "n < 2 ^ 29"
    and "route n = (t, map unat offs)" "offs \<noteq> []" "unat (block_id_in_file f) = n"
  shows "\<exists>f' fs'. walk 0 offs (from_inode inode t f) fs = Some (0, f', fs') \<and> fs_reads F fs fs' \<and> at_block fs' inode f' n \<and> same_handle f f'"
  using walk_arrives [OF assms(1-4), of t "[]" offs "from_inode inode t f"] assms(5-7)
  by (simp add: from_inode_def node_def same_handle_def)

lemma walk_from_handle:
  assumes "fs_ok F fs" "mapped F fs inode P" "route n \<in> P" "n < 2 ^ 29" and a: "at_block fs inode f m"
    and r: "route n = (t, ks @ map unat offs)" "offs \<noteq> []" "unat (block_id_in_file g) = n"
    and g: "indirect_block g = indirect_block f" "same_handle f g" and rm: "route m = (t, ks @ ls)" "ls \<noteq> []"
  shows "\<exists>f' fs'. walk (length ks) offs g fs = Some (0, f', fs') \<and> fs_reads F fs fs' \<and> at_block fs' inode f' n \<and> same_handle f f'"
proof -
  have pre: "\<forall>l \<le> length ks. node fs inode (t, take l ks) = Some (indirect_block g l)"
  proof (intro allI impI)
    fix l assume l: "l \<le> length ks"
    then have "l < length (snd (route m))" using rm by simp (metis length_greater_0_conv le_less_trans less_add_same_cancel1)
    then show "node fs inode (t, take l ks) = Some (indirect_block g l)" using a l rm(1) g by (auto simp: at_block_def)
  qed
  from walk_arrives [OF assms(1-4) r this] g(2) show ?thesis by (auto simp: same_handle_def)
qed

section \<open>Seeking\<close>

text \<open>The result of a seek: the handle stands on block \<open>n\<close>.\<close>

definition arrives :: "u32 set \<Rightarrow> fs \<Rightarrow> ext2_inode \<Rightarrow> file_status \<Rightarrow> nat \<Rightarrow> (int \<times> file_status \<times> fs) option \<Rightarrow> bool" where
  "arrives F fs inode f n r \<longleftrightarrow>
     (\<exists>f' fs'. r = Some (0, f', fs') \<and> fs_reads F fs fs' \<and> at_block fs' inode f' n \<and> same_handle f f')"

lemma direct_arrives:
  assumes "fs_ok F fs" "n < 12" "unat (block_id_in_file f) = n"
  shows "arrives F fs inode f n (Some (0, f\<lparr>block_id := i_block inode n\<rparr>, fs))"
  using assms fs_reads_refl by (auto simp: arrives_def at_block_def bmap_def route_simps(1) node_def same_handle_def)

lemma arrives_weaken: "arrives F fs inode f n r \<Longrightarrow> same_handle g f \<Longrightarrow> arrives F fs inode g n r"
  unfolding arrives_def by (auto simp: same_handle_def)

lemmas inode_arrives = walk_from_inode [folded arrives_def]
lemmas handle_arrives = walk_from_handle [folded arrives_def]

lemma bf_seek_arrives:
  assumes ok: "fs_ok F fs" and m: "mapped F fs inode (positions n)" "n < 2 ^ 29" and b: "unat b < n"
  shows "arrives F fs inode f (unat b) (bf_seek inode b f fs)"
proof -
  let ?f = "f\<lparr>block_id_in_file := b\<rparr>"
  have b29: "unat b < 2 ^ 29" using b m(2) by simp
  note ia = inode_arrives [OF ok m(1) route_positions [OF b] b29]
  have "arrives F fs inode ?f (unat b) (bf_seek inode b f fs)"
  proof -
    consider "unat b < 12" | "12 \<le> unat b" "unat b < 1036" | "1036 \<le> unat b" "unat b < 1049612" | "1049612 \<le> unat b" by linarith
    then show ?thesis
    proof cases
      case 1
      then have "b \<le> IBLOCK_11" unfolding IBLOCK_le .
      then show ?thesis using direct_arrives [OF ok 1, of ?f] unfolding bf_seek_def Let_def by simp
    next
      case 2
      have "\<not> b \<le> IBLOCK_11" "b \<le> IBLOCK_12" unfolding IBLOCK_le using 2 by simp_all
      then show ?thesis using ia [OF route_ind [OF 2], of ?f] unfolding bf_seek_def Let_def by simp
    next
      case 3
      have "\<not> b \<le> IBLOCK_11" "\<not> b \<le> IBLOCK_12" "b \<le> IBLOCK_13" unfolding IBLOCK_le using 3 by simp_all
      then show ?thesis using ia [OF route_dind [OF 3], of ?f] unfolding bf_seek_def Let_def by simp
    next
      case 4
      have "\<not> b \<le> IBLOCK_11" "\<not> b \<le> IBLOCK_12" "\<not> b \<le> IBLOCK_13" "b \<le> IBLOCK_14" unfolding IBLOCK_le using 4 b29 by simp_all
      then show ?thesis using ia [OF route_tind [OF 4], of ?f] unfolding bf_seek_def Let_def by simp
    qed
  qed
  then show ?thesis by (rule arrives_weaken) (simp add: same_handle_def)
qed

text \<open>\<open>next_block\<close> on a handle that stands on block \<open>i\<close>, where the file has another block.\<close>

definition on_block :: "u32 set \<Rightarrow> fs \<Rightarrow> ext2_inode \<Rightarrow> file_status \<Rightarrow> nat \<Rightarrow> bool" where
  "on_block F fs inode f i \<longleftrightarrow> fs_ok F fs \<and> (\<exists>n. mapped F fs inode (positions n) \<and> Suc i < n \<and> n < 2 ^ 29) \<and> at_block fs inode f i"

abbreviation moved :: "file_status \<Rightarrow> file_status" where
  "moved f \<equiv> f\<lparr>block_id_in_file := block_id_in_file f + 1\<rparr>"

lemma word_Suc: "unat (w :: u32) < 2 ^ 29 \<Longrightarrow> unat (w + 1) = Suc (unat w)"
  by (subst unat_add_lem [THEN iffD1]) simp_all

lemma on_block_number:
  assumes "on_block F fs inode f i"
  shows "unat (block_id_in_file f) = i" "unat (block_id_in_file f + 1) = Suc i" "Suc i < 2 ^ 29"
  using assms word_Suc [of "block_id_in_file f"] by (auto simp: on_block_def at_block_def)

lemma next_from_inode:
  assumes "on_block F fs inode f i" and r: "route (Suc i) = (t, map unat offs)" "offs \<noteq> []"
  shows "arrives F fs inode f (Suc i) (walk 0 offs (from_inode inode t (moved f)) fs)"
proof -
  obtain n where n: "fs_ok F fs" "mapped F fs inode (positions n)" "Suc i < n" using assms(1) by (auto simp: on_block_def)
  have "unat (block_id_in_file (moved f)) = Suc i" using on_block_number [OF assms(1)] by simp
  from inode_arrives [OF n(1,2) route_positions [OF n(3)] on_block_number(3) [OF assms(1)] r this]
  show ?thesis by (rule arrives_weaken) (simp add: same_handle_def)
qed

lemma next_from_handle:
  assumes "on_block F fs inode f i" and r: "route (Suc i) = (t, ks @ map unat offs)" "offs \<noteq> []" and "route i = (t, ks @ ls)" "ls \<noteq> []"
  shows "arrives F fs inode f (Suc i) (walk (length ks) offs (moved f) fs)"
proof -
  obtain n where n: "fs_ok F fs" "mapped F fs inode (positions n)" "Suc i < n" "at_block fs inode f i"
    using assms(1) by (auto simp: on_block_def)
  have "unat (block_id_in_file (moved f)) = Suc i" using on_block_number [OF assms(1)] by simp
  from handle_arrives [OF n(1,2) route_positions [OF n(3)] on_block_number(3) [OF assms(1)] n(4) r this _ _ assms(4,5)]
  show ?thesis by (simp add: same_handle_def)
qed

text \<open>The four levels.\<close>

lemma next_block_direct:
  assumes on: "on_block F fs inode f i" and i: "i < 12"
  shows "arrives F fs inode f (Suc i) (next_block inode f fs)"
proof -
  note b = on_block_number [OF on]
  have le: "block_id_in_file f \<le> IBLOCK_11" "block_id_in_file f + 1 \<le> IBLOCK_11 \<longleftrightarrow> Suc i < 12"
    unfolding IBLOCK_le b using i by simp_all
  show ?thesis
  proof (cases "Suc i < 12")
    case True
    have "fs_ok F fs" using on by (simp add: on_block_def)
    then have "arrives F fs inode (moved f) (Suc i) (Some (0, (moved f)\<lparr>block_id := i_block inode (Suc i)\<rparr>, fs))"
      using direct_arrives [OF _ True, of F fs "moved f" inode] b by simp
    then have "arrives F fs inode f (Suc i) (Some (0, (moved f)\<lparr>block_id := i_block inode (Suc i)\<rparr>, fs))"
      by (rule arrives_weaken) (simp add: same_handle_def)
    then show ?thesis unfolding next_block_def Let_def b using le True by simp
  next
    case False
    then have "route (Suc i) = (12, map unat [0 :: u32])" using i by (simp add: route_def)
    from next_from_inode [OF on this] show ?thesis unfolding next_block_def Let_def using le False by simp
  qed
qed

lemma next_block_ind:
  assumes on: "on_block F fs inode f i" and i: "12 \<le> i" "i < 1036"
  shows "arrives F fs inode f (Suc i) (next_block inode f fs)"
proof -
  note b = on_block_number [OF on]
  have le: "\<not> block_id_in_file f \<le> IBLOCK_11" "block_id_in_file f \<le> IBLOCK_12" "block_id_in_file f + 1 \<le> IBLOCK_12 \<longleftrightarrow> Suc i < 1036"
    unfolding IBLOCK_le b using i by simp_all
  show ?thesis
  proof (cases "Suc i < 1036")
    case True
    have r: "route (Suc i) = (12, [] @ map unat [block_id_in_file f + 1 - IBLOCK_11 - 1])"
      using route_ind [of "block_id_in_file f + 1"] b i True by simp
    have "route i = (12, [] @ [i - 12])" using i by (simp add: route_simps)
    from next_from_handle [OF on r _ this]
    have "arrives F fs inode f (Suc i) (walk 0 [block_id_in_file f + 1 - IBLOCK_11 - 1] (moved f) fs)" by simp
    then show ?thesis unfolding next_block_def Let_def using le True by simp
  next
    case False
    then have "route (Suc i) = (13, map unat [0 :: u32, 0])" using i by (simp add: route_def)
    from next_from_inode [OF on this] show ?thesis unfolding next_block_def Let_def using le False by simp
  qed
qed

lemma next_block_dind:
  assumes on: "on_block F fs inode f i" and i: "1036 \<le> i" "i < 1049612"
  shows "arrives F fs inode f (Suc i) (next_block inode f fs)"
proof -
  note b = on_block_number [OF on]
  let ?b = "block_id_in_file f + 1"
  let ?first = "(?b - IBLOCK_12 - 1) div PTRS" and ?second = "(?b - IBLOCK_12 - 1) mod PTRS"
  have le: "\<not> block_id_in_file f \<le> IBLOCK_11" "\<not> block_id_in_file f \<le> IBLOCK_12" "block_id_in_file f \<le> IBLOCK_13"
    "?b \<le> IBLOCK_13 \<longleftrightarrow> Suc i < 1049612"
    unfolding IBLOCK_le b using i by simp_all
  show ?thesis
  proof (cases "Suc i < 1049612")
    case True
    have r: "route (Suc i) = (13, map unat [?first, ?second])" using route_dind [of ?b, unfolded b] i(1) True by (simp only: le_SucI)
    have ri: "route i = (13, [(i - 1036) div 1024, (i - 1036) mod 1024])" by (rule route_simps(3) [OF i])
    have nb: "next_block inode f fs = (if ?second = 0 then walk 0 [?first, 0] (moved f) fs else walk 1 [?second] (moved f) fs)"
      unfolding next_block_def Let_def using le True by (simp only: if_True if_False refl)
    show ?thesis
    proof (cases "?second = 0")
      case True
      have r0: "route (Suc i) = (13, [] @ map unat [?first, 0])" using r unfolding True by simp
      have "route i = (13, [] @ [(i - 1036) div 1024, (i - 1036) mod 1024])" using ri by (simp only: append_Nil)
      from next_from_handle [OF on r0 _ this] show ?thesis unfolding nb if_P [OF True] by simp
    next
      case False
      have "unat ?second = (Suc i - 1036) mod 1024" "unat ?first = (Suc i - 1036) div 1024"
        using r route_simps(3) [of "Suc i"] i \<open>Suc i < 1049612\<close> by simp_all
      moreover have "unat ?second \<noteq> 0" using False by (metis unat_eq_zero)
      ultimately have "unat ?first = (i - 1036) div 1024" using route_dind_Suc [OF i(1)] by simp
      then have r1: "route i = (13, [unat ?first] @ [(i - 1036) mod 1024])" using ri by (simp only: append_Cons append_Nil)
      have r2: "route (Suc i) = (13, [unat ?first] @ map unat [?second])" using r by (simp only: append_Cons append_Nil list.map)
      from next_from_handle [OF on r2 _ r1] show ?thesis unfolding nb if_not_P [OF False] by simp
    qed
  next
    case False
    then have "route (Suc i) = (14, map unat [0 :: u32, 0, 0])" using i by (simp add: route_def)
    from next_from_inode [OF on this] show ?thesis unfolding next_block_def Let_def using le False by simp
  qed
qed

lemma next_block_tind:
  assumes on: "on_block F fs inode f i" and i: "1049612 \<le> i"
  shows "arrives F fs inode f (Suc i) (next_block inode f fs)"
proof -
  note b = on_block_number [OF on]
  let ?b = "block_id_in_file f + 1"
  let ?first = "(?b - IBLOCK_13 - 1) div (PTRS * PTRS)" and ?second = "(?b - IBLOCK_13 - 1) mod (PTRS * PTRS) div PTRS"
    and ?third = "(?b - IBLOCK_13 - 1) mod PTRS"
  define x where "x = i - 1049612"
  have x: "Suc i - 1049612 = Suc x" using i by (simp add: x_def)
  have le: "\<not> block_id_in_file f \<le> IBLOCK_11" "\<not> block_id_in_file f \<le> IBLOCK_12" "\<not> block_id_in_file f \<le> IBLOCK_13"
    "block_id_in_file f \<le> IBLOCK_14"
    unfolding IBLOCK_le b using i b(3) by simp_all
  have iS: "1049612 \<le> Suc i" using i by simp
  have r: "route (Suc i) = (14, map unat [?first, ?second, ?third])" using route_tind [of ?b, unfolded b] iS by (simp only:)
  then have u: "unat ?first = Suc x div 1024 div 1024" "unat ?second = Suc x div 1024 mod 1024" "unat ?third = Suc x mod 1024"
    using route_tind_nat [OF iS] unfolding x by simp_all
  have ri: "route i = (14, [x div 1024 div 1024, x div 1024 mod 1024, x mod 1024])" unfolding x_def by (rule route_tind_nat [OF i])
  have nb: "next_block inode f fs = (if ?third = 0 then if ?second = 0 then walk 0 [?first, ?second, ?third] (moved f) fs
      else walk 1 [?second, ?third] (moved f) fs else walk 2 [?third] (moved f) fs)"
    unfolding next_block_def Let_def using le by (simp only: if_True if_False refl)
  consider (third) "?third \<noteq> 0" | (second) "?third = 0" "?second \<noteq> 0" | (first) "?third = 0" "?second = 0" by metis
  then show ?thesis
  proof cases
    case third
    then have "x div 1024 = Suc x div 1024" using div_Suc_keep u(3) by (simp only: unat_eq_zero [symmetric])
    then have r1: "route i = (14, [unat ?first, unat ?second] @ [x mod 1024])" using ri u by simp
    have r2: "route (Suc i) = (14, [unat ?first, unat ?second] @ map unat [?third])" using r by simp
    from next_from_handle [OF on r2 _ r1] show ?thesis unfolding nb if_not_P [OF third] by (simp add: numeral_2_eq_2)
  next
    case second
    then have "Suc x mod 1024 = 0" "Suc x div 1024 mod 1024 \<noteq> 0" using u(2,3) by (metis unat_eq_zero)+
    then have "x div 1024 div 1024 = Suc x div 1024 div 1024" using div_Suc_keep [of "x div 1024"] div_Suc_wrap [of x] by simp
    then have r1: "route i = (14, [unat ?first] @ [x div 1024 mod 1024, x mod 1024])" using ri u by simp
    have r2: "route (Suc i) = (14, [unat ?first] @ map unat [?second, ?third])" using r by simp
    from next_from_handle [OF on r2 _ r1] show ?thesis unfolding nb if_P [OF second(1)] if_not_P [OF second(2)] by simp
  next
    case first
    have r1: "route i = (14, [] @ [x div 1024 div 1024, x div 1024 mod 1024, x mod 1024])" using ri by simp
    have r2: "route (Suc i) = (14, [] @ map unat [?first, ?second, ?third])" using r by simp
    from next_from_handle [OF on r2 _ r1] show ?thesis unfolding nb if_P [OF first(1)] if_P [OF first(2)] by simp
  qed
qed

lemma next_block_arrives:
  assumes "on_block F fs inode f i"
  shows "arrives F fs inode f (Suc i) (next_block inode f fs)"
proof -
  consider "i < 12" | "12 \<le> i" "i < 1036" | "1036 \<le> i" "i < 1049612" | "1049612 \<le> i" by linarith
  then show ?thesis
    by cases (use assms next_block_direct next_block_ind next_block_dind next_block_tind in blast)+
qed

text \<open>
  \<open>seek\<close> reuses the pointers of the handle on the double indirect level. A handle below that level
  may hold stale pointers: its number then differs in the first slot.
\<close>

lemma seek_dind_same:
  assumes ok: "fs_ok F fs" and m: "mapped F fs inode (positions n)" "n < 2 ^ 29" and a: "at_block fs inode f i" "1036 \<le> i" "i < 1049612"
    and b: "unat b < n" "1036 \<le> unat b" "unat b < 1049612"
    and same: "(b - IBLOCK_12 - 1) div PTRS = (block_id_in_file f - IBLOCK_12 - 1) div PTRS"
  shows "arrives F fs inode f (unat b) (walk 1 [(b - IBLOCK_12 - 1) mod PTRS] (f\<lparr>block_id_in_file := b\<rparr>) fs)"
proof -
  have n: "unat (block_id_in_file f) = i" using a by (simp add: at_block_def)
  have b29: "unat b < 2 ^ 29" using b m(2) by simp
  have r: "route (unat b) = (13, [unat ((b - IBLOCK_12 - 1) div PTRS)] @ map unat [(b - IBLOCK_12 - 1) mod PTRS])"
    using route_dind [OF b(2,3)] by (simp only: list.map append_Cons append_Nil)
  have ri: "route i = (13, [unat ((b - IBLOCK_12 - 1) div PTRS)] @ [unat ((block_id_in_file f - IBLOCK_12 - 1) mod PTRS)])"
    using route_dind [of "block_id_in_file f"] a(2,3) unfolding n same by (simp only: list.map append_Cons append_Nil)
  show ?thesis
    using handle_arrives [OF ok m(1) route_positions [OF b(1)] b29 a(1) r _ _ _ _ ri, of "f\<lparr>block_id_in_file := b\<rparr>"]
    by (simp add: same_handle_def)
qed

lemma seek_dind_old:
  assumes b: "1036 \<le> unat b" "unat b < 1049612" and same: "(b - IBLOCK_12 - 1) div PTRS = (old - IBLOCK_12 - 1) div PTRS"
  shows "1036 \<le> unat old" "unat old < 1049612"
proof -
  have p: "unat PTRS = 1024" by simp
  have "unat ((b - IBLOCK_12 - 1) div PTRS) = (unat b - 1036) div 1024" by (simp only: unat_div IBLOCK_minus(2) [OF b(1)] p)
  also have "\<dots> < 1024" using b by (simp add: less_mult_imp_div_less)
  finally have lt: "unat ((old - IBLOCK_12 - 1) div PTRS) < 1024" unfolding same .
  then have lt': "unat (old - IBLOCK_12 - 1) < 1048576" unfolding unat_div p by (simp add: div_less_iff_less_mult)
  define y where "y = old - IBLOCK_12 - 1"
  have "old = y + 1036" by (simp add: y_def)
  moreover have "unat (y + 1036) = unat y + 1036" using lt' by (subst unat_add_lem [THEN iffD1]) (simp_all add: y_def)
  ultimately have "unat old = unat y + 1036" by simp
  then show "1036 \<le> unat old" "unat old < 1049612" using lt' by (simp_all add: y_def)
qed

lemma seek_arrives:
  assumes ok: "fs_ok F fs" and m: "mapped F fs inode (positions n)" "n < 2 ^ 29"
    and f: "unat (block_id_in_file f) < 1036 \<or> at_block fs inode f (unat (block_id_in_file f))" and b: "unat b < n" "unat b < 1049612"
  shows "arrives F fs inode f (unat b) (seek inode b f fs)"
proof (cases "unat b < 1036")
  case True
  then have le: "b \<le> IBLOCK_12" by (simp only: IBLOCK_le)
  show ?thesis using bf_seek_arrives [OF ok m b(1), of f] le unfolding seek_def by (auto simp: arrives_def)
next
  case False
  then have le: "\<not> b \<le> IBLOCK_12" "b \<le> IBLOCK_13" and b36: "1036 \<le> unat b" unfolding IBLOCK_le using b(2) by simp_all
  let ?old = "block_id_in_file f" and ?g = "f\<lparr>block_id_in_file := b\<rparr>"
  let ?of = "(?old - IBLOCK_12 - 1) div PTRS" and ?os = "(?old - IBLOCK_12 - 1) mod PTRS"
    and ?nf = "(b - IBLOCK_12 - 1) div PTRS" and ?ns = "(b - IBLOCK_12 - 1) mod PTRS"
  have sk: "seek inode b f fs = (if ?nf = ?of \<and> ?ns = ?os then Some (0, ?g, fs)
      else if ?nf = ?of then walk 1 [?ns] ?g fs else bf_seek inode b ?g fs)"
    unfolding seek_def Let_def using le by (simp only: if_True if_False refl)
  show ?thesis
  proof (cases "?nf = ?of")
    case first: True
    note old = seek_dind_old [OF b36 b(2) first]
    then have at: "at_block fs inode f (unat ?old)" using f by simp
    show ?thesis
    proof (cases "?ns = ?os")
      case True
      have "b - IBLOCK_12 - 1 = ?nf * PTRS + ?ns" by (simp only: word_mod_div_equality)
      also have "\<dots> = ?old - IBLOCK_12 - 1" unfolding first True by (simp only: word_mod_div_equality)
      finally have eq: "b = ?old" by simp
      then have "at_block fs inode ?g (unat b)" using at by simp
      then show ?thesis unfolding sk using first True fs_reads_refl [OF ok] by (auto simp: arrives_def same_handle_def)
    next
      case False
      show ?thesis unfolding sk using seek_dind_same [OF ok m at old b(1) b36 b(2) first] first False by simp
    qed
  next
    case False
    have "arrives F fs inode f (unat b) (bf_seek inode b ?g fs)"
      by (rule arrives_weaken [OF bf_seek_arrives [OF ok m b(1)]]) (simp add: same_handle_def)
    then show ?thesis unfolding sk using False by simp
  qed
qed

text \<open>Two handles on the same block agree.\<close>

lemma at_block_same:
  assumes m: "mapped F fs inode P" "route n \<in> P" and f: "fs_reads F fs fs1" "at_block fs1 inode f1 n" and g: "fs_reads F fs fs2" "at_block fs2 inode f2 n"
  shows "block_id f1 = block_id f2 \<and> block_id_in_file f1 = block_id_in_file f2 \<and>
    (\<forall>l < length (snd (route n)). indirect_block f1 l = indirect_block f2 l)"
proof -
  note n1 = mapped_step(2) [OF m(1) reads_step [OF f(1)] pointers_stay_empty]
    and n2 = mapped_step(2) [OF m(1) reads_step [OF g(1)] pointers_stay_empty]
  have up: "(fst (route n), take l (snd (route n))) \<in> P" for l
    using closed_take [of P "fst (route n)" "snd (route n)"] m by (simp add: mapped_def)
  show ?thesis
    using f(2) g(2) n1 [OF m(2)] n2 [OF m(2)] n1 [OF up] n2 [OF up] by (auto simp: at_block_def bmap_def word_unat_eq_iff)
qed

section \<open>Properties\<close>

definition two_blocks :: ext2_inode where
  "two_blocks = small_file\<lparr>i_size := 5000, i_blocks := 16, i_block := (\<lambda>_. 0)(0 := 1, 1 := 2)\<rparr>"

lemma two_blocks_bmap: "bmap fs two_blocks 0 = Some 1" "bmap fs two_blocks 1 = Some 2"
  by (simp_all add: bmap_def route_def node_def two_blocks_def)

lemma two_blocks_maps: "inode_maps {} small_fs two_blocks 2"
proof -
  have "{..<2 :: nat} = {0, 1}" by auto
  then have "positions 2 = {(0, []), (1, [])}" by (auto simp: positions_def route_def on_way_def)
  moreover have "node small_fs two_blocks (0, []) = Some 1" "node small_fs two_blocks (1, []) = Some 2"
    by (simp_all add: node_def two_blocks_def)
  ultimately have "mapped {} small_fs two_blocks (positions 2)"
    by (simp add: mapped_def closed_def index_blocks_def small_fs_allocated)
  then show ?thesis using small_file_maps by (simp add: inode_maps_def two_blocks_def)
qed

text \<open>
  C9 (functional): \<open>bf_seek\<close> finds every block of a well mapped inode, on the direct, the indirect and the
  double indirect level: it returns 0, the handle's block is the one the block map gives, and no content
  changes. On the block groups below 2 GiB, to which writes are confined, no inode has more than 491520
  blocks (\<open>inode_maps_bound\<close> in \<open>File_Data\<close>), so nothing is claimed of the triple indirect level.
\<close>

theorem bf_seek_finds:
  assumes "fs_ok F fs" "inode_maps F fs inode n" "unat b < n"
  shows "\<exists>f' fs'. bf_seek inode b f fs = Some (0, f', fs') \<and> bmap fs inode (unat b) = Some (block_id f') \<and>
     block_id_in_file f' = b \<and> fs_ok F fs' \<and> (\<forall>j x. allocated fs j \<and> j \<notin> F \<and> fs_content fs j = Some x \<longrightarrow> fs_content fs' j = Some x)"
proof -
  have m: "mapped F fs inode (positions n)" "n < 2 ^ 29" using assms(2) by (simp_all add: inode_maps_def)
  obtain f' fs' where r: "bf_seek inode b f fs = Some (0, f', fs')" "fs_reads F fs fs'" "at_block fs' inode f' (unat b)"
    using bf_seek_arrives [OF assms(1) m assms(3), of f] by (auto simp: arrives_def)
  have "bmap fs' inode (unat b) = bmap fs inode (unat b)"
    using mapped_step(2) [OF m(1) reads_step [OF r(2)] pointers_stay_empty route_positions [OF assms(3)]] by (simp add: bmap_def)
  then show ?thesis
    using r fs_reads_ok [OF r(2)] fs_reads_content [OF r(2) allocated_disk_blocks] by (auto simp: at_block_def word_unat_eq_iff)
qed

theorem bf_seek_finds_witness:
  "\<exists>f' fs'. bf_seek two_blocks 1 FileStatus_new small_fs = Some (0, f', fs') \<and> block_id f' = 2"
  using bf_seek_finds [OF small_fs_ok two_blocks_maps, of 1 FileStatus_new] by (auto simp: two_blocks_bmap [simplified])

text \<open>
  C10 (equivalence): \<open>next_block\<close>, which reuses the pointers the handle holds, is equivalent to \<open>bf_seek\<close>
  of the next block from the inode: both return 0 and leave the handle on the same block, with the
  same pointers on the way to it. This holds on the direct, the indirect and the double indirect level
  and across the steps from one to the next; no inode of the model reaches the triple indirect level.
\<close>

theorem next_block_is_bf_seek:
  assumes "fs_ok F fs" "inode_maps F fs inode n" "at_block fs inode f i" "Suc i < n"
  shows "\<exists>f1 fs1 f2 fs2. next_block inode f fs = Some (0, f1, fs1) \<and>
     bf_seek inode (block_id_in_file f + 1) f fs = Some (0, f2, fs2) \<and>
     block_id f1 = block_id f2 \<and> block_id_in_file f1 = block_id_in_file f2 \<and>
     (\<forall>l < length (snd (route (Suc i))). indirect_block f1 l = indirect_block f2 l)"
proof -
  have m: "mapped F fs inode (positions n)" "n < 2 ^ 29" using assms(2) by (simp_all add: inode_maps_def)
  have on: "on_block F fs inode f i" using assms m by (auto simp: on_block_def)
  note b = on_block_number [OF on]
  obtain f1 fs1 where 1: "next_block inode f fs = Some (0, f1, fs1)" "fs_reads F fs fs1" "at_block fs1 inode f1 (Suc i)"
    using next_block_arrives [OF on] by (auto simp: arrives_def)
  have lt: "unat (block_id_in_file f + 1) < n" using b assms(4) by simp
  obtain f2 fs2 where 2: "bf_seek inode (block_id_in_file f + 1) f fs = Some (0, f2, fs2)" "fs_reads F fs fs2" "at_block fs2 inode f2 (Suc i)"
    using bf_seek_arrives [OF assms(1) m lt, of f] b(2) by (auto simp: arrives_def)
  note at = at_block_same [OF m(1) route_positions [OF assms(4)] 1(2) 1(3) 2(2,3)]
  show ?thesis using 1(1) 2(1) at by blast
qed

theorem next_block_is_bf_seek_witness:
  "\<exists>f1 fs1. next_block two_blocks (FileStatus_new\<lparr>block_id := 1\<rparr>) small_fs = Some (0, f1, fs1) \<and>
     (\<exists>f2 fs2. bf_seek two_blocks 1 (FileStatus_new\<lparr>block_id := 1\<rparr>) small_fs = Some (0, f2, fs2) \<and> block_id f1 = block_id f2)"
proof -
  have "at_block small_fs two_blocks (FileStatus_new\<lparr>block_id := 1\<rparr>) 0"
    by (simp add: at_block_def FileStatus_new_def two_blocks_bmap route_def)
  from next_block_is_bf_seek [OF small_fs_ok two_blocks_maps this] show ?thesis by (auto simp: FileStatus_new_def)
qed

text \<open>
  C11 (equivalence): below the triple indirect level \<open>seek\<close> is equivalent to \<open>bf_seek\<close>, from a handle that
  stands on any block of the file or is new.
\<close>

theorem seek_is_bf_seek:
  assumes "fs_ok F fs" "inode_maps F fs inode n" "unat b < n" "unat b < 1049612"
    "unat (block_id_in_file f) < 1036 \<or> at_block fs inode f (unat (block_id_in_file f))"
  shows "\<exists>f1 fs1 f2 fs2. seek inode b f fs = Some (0, f1, fs1) \<and> bf_seek inode b f fs = Some (0, f2, fs2) \<and>
     block_id f1 = block_id f2 \<and> block_id_in_file f1 = block_id_in_file f2 \<and>
     (\<forall>l < length (snd (route (unat b))). indirect_block f1 l = indirect_block f2 l)"
proof -
  have m: "mapped F fs inode (positions n)" "n < 2 ^ 29" using assms(2) by (simp_all add: inode_maps_def)
  obtain f1 fs1 where 1: "seek inode b f fs = Some (0, f1, fs1)" "fs_reads F fs fs1" "at_block fs1 inode f1 (unat b)"
    using seek_arrives [OF assms(1) m assms(5,3,4)] by (auto simp: arrives_def)
  obtain f2 fs2 where 2: "bf_seek inode b f fs = Some (0, f2, fs2)" "fs_reads F fs fs2" "at_block fs2 inode f2 (unat b)"
    using bf_seek_arrives [OF assms(1) m assms(3), of f] by (auto simp: arrives_def)
  note at = at_block_same [OF m(1) route_positions [OF assms(3)] 1(2,3) 2(2,3)]
  show ?thesis using 1(1) 2(1) at by blast
qed

theorem seek_is_bf_seek_witness:
  "\<exists>f1 fs1. seek two_blocks 1 FileStatus_new small_fs = Some (0, f1, fs1) \<and>
     (\<exists>f2 fs2. bf_seek two_blocks 1 FileStatus_new small_fs = Some (0, f2, fs2) \<and> block_id f1 = block_id f2)"
  using seek_is_bf_seek [OF small_fs_ok two_blocks_maps, of 1 FileStatus_new] by (auto simp: FileStatus_new_def)

end
