(* ===== verification/File_Data.thy ===== *)
theory File_Data
  imports File_Seek
begin

text \<open>
  The contents of files: what \<open>copy_to_buf\<close> returns and \<open>write\<close> stores, in terms of the bytes that the
  block map of the inode gives.
\<close>

section \<open>The bytes of a file\<close>

definition file_bytes :: "fs \<Rightarrow> ext2_inode \<Rightarrow> nat \<Rightarrow> byte" where
  "file_bytes fs inode p = (case bmap fs inode (p div BLOCK_SIZE) of
     None \<Rightarrow> 0
   | Some k \<Rightarrow> (case fs_content fs k of None \<Rightarrow> 0 | Some x \<Rightarrow> x (p mod BLOCK_SIZE)))"

text \<open>A well mapped inode with blocks for its size, none of them fresh.\<close>

definition file_ok :: "u32 set \<Rightarrow> fs \<Rightarrow> ext2_inode \<Rightarrow> nat \<Rightarrow> bool" where
  "file_ok F fs inode n \<longleftrightarrow> inode_maps F fs inode n \<and> unat (i_size inode) \<le> n * 4096 \<and>
     (\<forall>i k. i * 4096 < unat (i_size inode) \<longrightarrow> bmap fs inode i = Some k \<longrightarrow> k \<notin> F)"

text \<open>A handle whose pointers are current, or will be looked up before they are used.\<close>

definition handle_ok :: "fs \<Rightarrow> ext2_inode \<Rightarrow> nat \<Rightarrow> file_status \<Rightarrow> bool" where
  "handle_ok fs inode n f \<longleftrightarrow> (unat (block_id_in_file f) < n \<or> unat (block_id_in_file f) < 12) \<and>
     (cache_update_flag f \<or> unat (block_id_in_file f) < 1036 \<or> at_block fs inode f (unat (block_id_in_file f)))"

lemma file_blocks:
  assumes "file_ok F fs inode n" "i * 4096 < unat (i_size inode)"
  obtains k x where "i < n" "bmap fs inode i = Some k" "allocated fs k" "k \<notin> F"
proof -
  have i: "i < n" using assms by (auto simp: file_ok_def)
  have m: "mapped F fs inode (positions n)" using assms(1) by (simp add: file_ok_def inode_maps_def)
  obtain k where "bmap fs inode i = Some k" "allocated fs k" unfolding bmap_def by (rule mappedD [OF m route_positions [OF i]])
  then show ?thesis using that i assms by (auto simp: file_ok_def)
qed

lemma file_bytes_block:
  "bmap fs inode (p div 4096) = Some k \<Longrightarrow> fs_content fs k = Some x \<Longrightarrow> file_bytes fs inode p = x (p mod 4096)"
  by (simp add: file_bytes_def)

lemma below_block: "p < m \<Longrightarrow> p div 4096 * 4096 < (m :: nat)"
  using div_times_less_eq_dividend [of p 4096] by linarith

lemma block_below: "p < i * 4096 + 4096 \<Longrightarrow> i * 4096 < m \<Longrightarrow> p div 4096 * 4096 < (m :: nat)"
proof -
  assume a: "p < i * 4096 + 4096" "i * 4096 < m"
  then have "p div 4096 < Suc i" by (intro less_mult_imp_div_less) simp
  then have "p div 4096 * 4096 \<le> i * 4096" by simp
  with a(2) show ?thesis by linarith
qed

lemma first_chunk: "sz - min sz (4096 - off mod 4096) = 0 \<or> off + min sz (4096 - off mod 4096) = Suc (off div 4096) * 4096"
proof (cases "sz \<le> 4096 - off mod 4096")
  case False
  have "off div 4096 * 4096 + off mod 4096 = off" "off mod 4096 < 4096" by simp_all
  then have "off + (4096 - off mod 4096) = off div 4096 * 4096 + 4096" by linarith
  then show ?thesis using False by simp
qed simp

lemma min_chunks: "c \<le> sz \<Longrightarrow> c + min (sz - c) (m - (off + c)) = max c (min sz (m - off :: nat))"
  by (auto simp: min_def max_def)

lemma map_upt_append: "map g [a ..< a + b] @ map g [a + b ..< a + b + c] = map g [a ..< a + (b + c)]"
  using upt_add_eq_append [of a "a + b" c] by (simp add: add.assoc)

lemma bmap_reads:
  assumes "mapped F fs inode (positions n)" "fs_reads F fs fs'" "i < n"
  shows "bmap fs' inode i = bmap fs inode i"
  using mapped_step(2) [OF assms(1) reads_step [OF assms(2)] pointers_stay_empty route_positions [OF assms(3)]] by (simp add: bmap_def)

lemma file_ok_reads:
  assumes "file_ok F fs inode n" "fs_reads F fs fs'"
  shows "file_ok F fs' inode n"
proof -
  have m: "mapped F fs inode (positions n)" using assms(1) by (simp add: file_ok_def inode_maps_def)
  have "s_log_block_size (super_of fs') = s_log_block_size (super_of fs)" using fs_reads_meta [OF assms(2)] by (simp add: same_meta_def)
  moreover have "mapped F fs' inode (positions n)" by (rule mapped_step(1) [OF m reads_step [OF assms(2)]]) simp
  ultimately show ?thesis
    using assms(1) bmap_reads [OF m assms(2)] by (auto simp: file_ok_def inode_maps_def)
qed

lemma file_bytes_reads:
  assumes f: "file_ok F fs inode n" and s: "fs_ok F fs" "fs_reads F fs fs'" and p: "p div 4096 * 4096 < unat (i_size inode)"
  shows "file_bytes fs' inode p = file_bytes fs inode p"
proof -
  obtain k where k: "p div 4096 < n" "bmap fs inode (p div 4096) = Some k" "allocated fs k" "k \<notin> F"
    by (rule file_blocks [OF f p])
  obtain x where x: "fs_content fs k = Some x" by (rule allocated_content [OF s(1) k(3)])
  have "fs_content fs' k = Some x" by (rule fs_reads_content [OF s(2) allocated_disk_blocks [OF k(3)] k(4) x])
  moreover have "bmap fs' inode (p div 4096) = Some k"
    using bmap_reads [OF _ s(2) k(1)] f k(2) by (simp add: file_ok_def inode_maps_def)
  ultimately show ?thesis using k(2) x by (simp add: file_bytes_def)
qed

section \<open>Reading\<close>

text \<open>A read of a part of one block.\<close>

lemma read_part:
  assumes s: "fs_ok F fs" and f: "file_ok F fs inode n" and a: "at_block fs inode h i" "i * 4096 < unat (i_size inode)" and o': "off + c \<le> 4096"
  obtains blk fs' where "get_block (block_id h) False off [] c fs = Some (Some (blk, map (file_bytes fs inode) [i * 4096 + off ..< i * 4096 + off + c]), fs')"
    "fs_reads F fs fs'"
proof -
  obtain k where k: "i < n" "bmap fs inode i = Some k" "allocated fs k" "k \<notin> F" by (rule file_blocks [OF f a(2)])
  have b: "block_id h = k" using a(1) k(2) by (simp add: at_block_def)
  obtain x where x: "fs_content fs k = Some x" by (rule allocated_content [OF s k(3)])
  obtain blk fs' where g: "get_block k False off [] c fs = Some (Some (blk, get_bytes x off c), fs')" "fs_reads F fs fs'"
    by (rule get_block_read [OF s k(3) x, of off c "[]"]) (use o' in simp_all)
  have "file_bytes fs inode (i * 4096 + off + j) = x (off + j)" if "j < c" for j
  proof -
    have "(i * 4096 + (off + j)) div 4096 = i" "(i * 4096 + (off + j)) mod 4096 = off + j" using that o' by simp_all
    then show ?thesis using file_bytes_block [of fs inode "i * 4096 + off + j" k x] k(2) x by (simp add: add.assoc)
  qed
  then have "get_bytes x off c = map (file_bytes fs inode) [i * 4096 + off ..< i * 4096 + off + c]"
    by (intro nth_equalityI) (simp_all add: get_bytes_def)
  then show ?thesis using that g b by simp
qed

lemma file_ok_maps: "file_ok F fs inode n \<Longrightarrow> mapped F fs inode (positions n) \<and> n < 2 ^ 29"
  by (simp add: file_ok_def inode_maps_def)

lemma at_block_reads:
  "file_ok F fs inode n \<Longrightarrow> i < n \<Longrightarrow> at_block fs inode h i \<Longrightarrow> fs_reads F fs fs' \<Longrightarrow> at_block fs' inode h i"
  using at_block_step [OF _ _ route_positions reads_step pointers_stay_empty] file_ok_maps by blast

text \<open>Going on to the next block and reading from it.\<close>

lemma read_next:
  assumes s: "fs_ok F fs" and f: "file_ok F fs inode n" and a: "at_block fs inode h i" "Suc i * 4096 < unat (i_size inode)" and c: "c \<le> 4096"
  obtains h' fs1 blk fs' where "next_block inode h fs = Some (0, h', fs1)"
    "get_block (block_id h') False 0 [] c fs1 = Some (Some (blk, map (file_bytes fs inode) [Suc i * 4096 ..< Suc i * 4096 + c]), fs')"
    "fs_reads F fs fs'" "at_block fs' inode h' (Suc i)" "Suc i < n" "same_handle h h'"
proof -
  have i: "Suc i < n" using f a(2) by (auto simp: file_ok_def)
  have "on_block F fs inode h i" using s a(1) i file_ok_maps [OF f] by (auto simp: on_block_def)
  from next_block_arrives [OF this]
  obtain h' fs1 where n: "next_block inode h fs = Some (0, h', fs1)" "fs_reads F fs fs1" "at_block fs1 inode h' (Suc i)" "same_handle h h'"
    by (auto simp: arrives_def)
  have c0: "0 + c \<le> 4096" using c by simp
  obtain blk fs' where g: "get_block (block_id h') False 0 [] c fs1 =
      Some (Some (blk, map (file_bytes fs1 inode) [Suc i * 4096 + 0 ..< Suc i * 4096 + 0 + c]), fs')" "fs_reads F fs1 fs'"
    by (rule read_part [OF fs_reads_ok [OF n(2)] file_ok_reads [OF f n(2)] n(3) a(2) c0])
  have "file_bytes fs1 inode p = file_bytes fs inode p" if "p \<in> {Suc i * 4096 ..< Suc i * 4096 + c}" for p
  proof (rule file_bytes_reads [OF f s n(2)])
    have "p < Suc i * 4096 + 4096" using that c by simp
    then show "p div 4096 * 4096 < unat (i_size inode)" using a(2) by (rule block_below)
  qed
  then have "map (file_bytes fs1 inode) [Suc i * 4096 ..< Suc i * 4096 + c] = map (file_bytes fs inode) [Suc i * 4096 ..< Suc i * 4096 + c]"
    by (intro map_cong refl) simp
  moreover have "at_block fs' inode h' (Suc i)" by (rule at_block_reads [OF file_ok_reads [OF f n(2)] i n(3) g(2)])
  ultimately show ?thesis using that [OF n(1) _ fs_reads_trans [OF n(2) g(2)] _ i n(4)] g(1) by simp
qed

lemma copy_loop_ok:
  assumes "fs_ok F fs" "file_ok F fs inode n" "at_block fs inode h i" "i < n"
    "sz = 0 \<or> unat (i_size inode) \<le> off \<or> off = Suc i * 4096"
  shows "\<exists>h' j fs'. copy_loop inode (unat (i_size inode)) off sz out h fs =
      Some (int (length out + min sz (unat (i_size inode) - off)),
        out @ map (file_bytes fs inode) [off ..< off + min sz (unat (i_size inode) - off)], h', fs') \<and>
    fs_reads F fs fs' \<and> at_block fs' inode h' j \<and> j < n \<and> same_handle h h'"
  using assms
proof (induction sz arbitrary: off out h fs i rule: less_induct)
  case (less sz)
  let ?s = "unat (i_size inode)"
  show ?case
  proof (cases "sz = 0 \<or> ?s \<le> off")
    case True
    then show ?thesis
      using less.prems fs_reads_refl [OF less.prems(1)] by (subst copy_loop.simps) (auto simp: same_handle_def)
  next
    case False
    then have off: "off = Suc i * 4096" "0 < sz" "off < ?s" using less.prems(5) by auto
    define c where "c = min sz (min (?s - off) 4096)"
    have c: "c \<le> 4096" "0 < c" "c \<le> sz" "c \<le> ?s - off" using off by (auto simp: c_def)
    obtain h1 fs1 blk fs2 where r: "next_block inode h fs = Some (0, h1, fs1)"
      "get_block (block_id h1) False 0 [] c fs1 = Some (Some (blk, map (file_bytes fs inode) [off ..< off + c]), fs2)"
      "fs_reads F fs fs2" "at_block fs2 inode h1 (Suc i)" "Suc i < n" "same_handle h h1"
      using read_next [OF less.prems(1-3) _ c(1)] off(1,3) by metis
    have next': "sz - c = 0 \<or> ?s \<le> off + c \<or> off + c = Suc (Suc i) * 4096"
      using off(1) by (auto simp: c_def min_def)
    have lt: "sz - c < sz" using c(2,3) by simp
    from less.IH [OF lt fs_reads_ok [OF r(3)] file_ok_reads [OF less.prems(2) r(3)] r(4,5) next', of "out @ map (file_bytes fs inode) [off ..< off + c]"]
    obtain h' j fs' where w: "copy_loop inode ?s (off + c) (sz - c) (out @ map (file_bytes fs inode) [off ..< off + c]) h1 fs2 =
        Some (int (length (out @ map (file_bytes fs inode) [off ..< off + c]) + min (sz - c) (?s - (off + c))),
          (out @ map (file_bytes fs inode) [off ..< off + c]) @ map (file_bytes fs2 inode) [off + c ..< off + c + min (sz - c) (?s - (off + c))], h', fs')"
      "fs_reads F fs2 fs'" "at_block fs' inode h' j" "j < n" "same_handle h1 h'"
      by auto
    have "map (file_bytes fs2 inode) [off + c ..< off + c + min (sz - c) (?s - (off + c))] =
        map (file_bytes fs inode) [off + c ..< off + c + min (sz - c) (?s - (off + c))]"
    proof (intro map_cong refl file_bytes_reads [OF less.prems(2,1) r(3)])
      fix p assume "p \<in> set [off + c ..< off + c + min (sz - c) (?s - (off + c))]"
      then show "p div 4096 * 4096 < ?s" by (intro below_block) auto
    qed
    moreover have "c + min (sz - c) (?s - (off + c)) = min sz (?s - off)" using c by auto
    ultimately have "copy_loop inode ?s off sz out h fs =
        Some (int (length out + min sz (?s - off)), out @ map (file_bytes fs inode) [off ..< off + min sz (?s - off)], h', fs')"
      using r(1,2) w(1) off(2,3) c(2) False upt_add_eq_append [of off "off + c" "min (sz - c) (?s - (off + c))"]
      by (subst copy_loop.simps) (simp add: c_def [symmetric] add.assoc Let_def)
    then show ?thesis using fs_reads_trans [OF r(3) w(2)] w(3-5) r(6) by (auto simp: same_handle_def)
  qed
qed

text \<open>Before every access the handle looks its pointers up again if it has to.\<close>

lemma fd_upd_cache_ok:
  assumes s: "fs_ok F fs" and f: "file_ok F fs inode n" and h: "handle_ok fs inode n h"
  obtains h' fs' where "fd_upd_cache inode h fs = Some (0, h', fs')" "fs_reads F fs fs'" "handle_ok fs' inode n h'" "\<not> cache_update_flag h'"
proof (cases "cache_update_flag h")
  case True
  let ?b = "block_id_in_file h" and ?h = "h\<lparr>cache_update_flag := False\<rparr>"
  have m: "mapped F fs inode (positions n)" "n < 2 ^ 29" using file_ok_maps [OF f] by auto
  show ?thesis
  proof (cases "unat ?b < n")
    case b: True
    from bf_seek_arrives [OF s m b, of ?h]
    obtain h' fs' where r: "bf_seek inode ?b ?h fs = Some (0, h', fs')" "fs_reads F fs fs'" "at_block fs' inode h' (unat ?b)" "same_handle ?h h'"
      by (auto simp: arrives_def)
    then show ?thesis using True b by (intro that [of h' fs']) (auto simp: fd_upd_cache_def handle_ok_def same_handle_def at_block_def)
  next
    case False
    then have b: "unat ?b < 12" using h by (simp add: handle_ok_def)
    then have "?b \<le> IBLOCK_11" by (simp only: IBLOCK_le)
    then have "fd_upd_cache inode h fs = Some (0, ?h\<lparr>block_id := i_block inode (unat ?b)\<rparr>, fs)" using True by (simp add: fd_upd_cache_def bf_seek_def)
    then show ?thesis using b by (intro that [OF _ fs_reads_refl [OF s]]) (auto simp: handle_ok_def)
  qed
next
  case False
  then show ?thesis using h by (intro that [of h fs]) (auto simp: fd_upd_cache_def fs_reads_refl [OF s])
qed

text \<open>Going to the block of an offset below the size.\<close>

lemma seek_offset:
  assumes s: "fs_ok F fs" and f: "file_ok F fs inode n" and h: "handle_ok fs inode n h" "\<not> cache_update_flag h" and p: "off < 2 ^ 32" "off div 4096 < n"
  obtains h' fs' where "seek inode (word_of_nat (off div BLOCK_SIZE)) h fs = Some (0, h', fs')" "fs_reads F fs fs'"
    "at_block fs' inode h' (off div 4096)" "same_handle h h'"
proof -
  have m: "mapped F fs inode (positions n)" "n < 2 ^ 29" using file_ok_maps [OF f] by auto
  have lt: "off div 4096 < 1048576" using p(1) by (simp add: less_mult_imp_div_less)
  then have u: "unat (word_of_nat (off div 4096) :: u32) = off div 4096" by (simp add: unat_of_nat)
  have "arrives F fs inode h (unat (word_of_nat (off div 4096) :: u32)) (seek inode (word_of_nat (off div 4096)) h fs)"
    by (rule seek_arrives [OF s m]) (use h p lt u in \<open>auto simp: handle_ok_def\<close>)
  then show ?thesis using that u by (auto simp: arrives_def)
qed

text \<open>The number of bytes read: the first block is not cut at the end of the file, the others are.\<close>

definition read_length :: "nat \<Rightarrow> nat \<Rightarrow> nat \<Rightarrow> nat" where
  "read_length off sz isize = max (min sz (4096 - off mod 4096)) (min sz (isize - off))"

lemma copy_to_buf_ok:
  assumes s: "fs_ok F fs" and f: "file_ok F fs inode n" and h: "handle_ok fs inode n h" and off: "off < unat (i_size inode)"
  obtains h' j fs' where "copy_to_buf inode off sz h fs = Some (int (read_length off sz (unat (i_size inode))),
      map (file_bytes fs inode) [off ..< off + read_length off sz (unat (i_size inode))], h', fs')"
    "fs_reads F fs fs'" "at_block fs' inode h' j" "j < n" "\<not> cache_update_flag h'"
proof -
  let ?s = "unat (i_size inode)" and ?c = "min sz (4096 - off mod 4096)"
  obtain h1 fs1 where u: "fd_upd_cache inode h fs = Some (0, h1, fs1)" "fs_reads F fs fs1" "handle_ok fs1 inode n h1" "\<not> cache_update_flag h1"
    by (rule fd_upd_cache_ok [OF s f h])
  note s1 = fs_reads_ok [OF u(2)] and f1 = file_ok_reads [OF f u(2)]
  have blk: "off div 4096 * 4096 < ?s" using off by (rule below_block)
  then have n: "off div 4096 < n" using f by (auto simp: file_ok_def)
  have "off < 2 ^ 32" using off unsigned_less [of "i_size inode", where ?'a = nat] by simp
  then obtain h2 fs2 where k: "seek inode (word_of_nat (off div BLOCK_SIZE)) h1 fs1 = Some (0, h2, fs2)" "fs_reads F fs1 fs2"
    "at_block fs2 inode h2 (off div 4096)" "same_handle h1 h2"
    by (rule seek_offset [OF s1 f1 u(3,4) _ n])
  note r2 = fs_reads_trans [OF u(2) k(2)]
  have c: "off mod 4096 + ?c \<le> 4096" by auto
  obtain b fs3 where g: "get_block (block_id h2) False (off mod 4096) [] ?c fs2 =
      Some (Some (b, map (file_bytes fs2 inode) [off div 4096 * 4096 + off mod 4096 ..< off div 4096 * 4096 + off mod 4096 + ?c]), fs3)"
    "fs_reads F fs2 fs3"
    by (rule read_part [OF fs_reads_ok [OF r2] file_ok_reads [OF f r2] k(3) blk c])
  note r3 = fs_reads_trans [OF r2 g(2)]
  have off_eq: "off div 4096 * 4096 + off mod 4096 = off" by simp
  have same: "map (file_bytes fs2 inode) [off ..< off + ?c] = map (file_bytes fs inode) [off ..< off + ?c]"
  proof (intro map_cong refl file_bytes_reads [OF f s r2])
    fix p assume "p \<in> set [off ..< off + ?c]"
    then have "p < off + ?c" by simp
    then have "p < off div 4096 * 4096 + 4096" using off_eq c by linarith
    then show "p div 4096 * 4096 < ?s" using blk by (rule block_below)
  qed
  have "sz - ?c = 0 \<or> ?s \<le> off + ?c \<or> off + ?c = Suc (off div 4096) * 4096" using first_chunk [of sz off] by blast
  from copy_loop_ok [OF fs_reads_ok [OF r3] file_ok_reads [OF f r3] at_block_reads [OF file_ok_reads [OF f r2] n k(3) g(2)] n this,
      of "map (file_bytes fs inode) [off ..< off + ?c]"]
  obtain h' j fs' where w: "copy_loop inode ?s (off + ?c) (sz - ?c) (map (file_bytes fs inode) [off ..< off + ?c]) h2 fs3 =
      Some (int (?c + min (sz - ?c) (?s - (off + ?c))), map (file_bytes fs inode) [off ..< off + ?c] @
        map (file_bytes fs3 inode) [off + ?c ..< off + ?c + min (sz - ?c) (?s - (off + ?c))], h', fs')"
    "fs_reads F fs3 fs'" "at_block fs' inode h' j" "j < n" "same_handle h2 h'"
    by auto
  have tail: "map (file_bytes fs3 inode) [off + ?c ..< off + ?c + min (sz - ?c) (?s - (off + ?c))] =
      map (file_bytes fs inode) [off + ?c ..< off + ?c + min (sz - ?c) (?s - (off + ?c))]"
  proof (intro map_cong refl file_bytes_reads [OF f s r3])
    fix p assume "p \<in> set [off + ?c ..< off + ?c + min (sz - ?c) (?s - (off + ?c))]"
    then have "off + ?c \<le> p" "p < off + ?c + min (sz - ?c) (?s - (off + ?c))" by simp_all
    moreover have "min (sz - ?c) (?s - (off + ?c)) \<le> ?s - (off + ?c)" by simp
    ultimately have "p < ?s" by linarith
    then show "p div 4096 * 4096 < ?s" by (rule below_block)
  qed
  have len: "?c + min (sz - ?c) (?s - (off + ?c)) = read_length off sz ?s"
    unfolding read_length_def by (rule min_chunks) simp
  have list: "map (file_bytes fs inode) [off ..< off + ?c] @ map (file_bytes fs inode) [off + ?c ..< off + ?c + min (sz - ?c) (?s - (off + ?c))] =
      map (file_bytes fs inode) [off ..< off + read_length off sz ?s]"
    unfolding len [symmetric] by (rule map_upt_append)
  have "copy_to_buf inode off sz h fs = Some (int (read_length off sz ?s), map (file_bytes fs inode) [off ..< off + read_length off sz ?s], h', fs')"
    using off u(1) k(1) g(1) w(1) unfolding off_eq same tail len list by (simp add: copy_to_buf_def Let_def)
  moreover have "\<not> cache_update_flag h'" using w(5) k(4) u(4) by (simp add: same_handle_def)
  ultimately show ?thesis by (rule that [OF _ fs_reads_trans [OF r3 w(2)] w(3,4)])
qed

section \<open>Writing inside the file\<close>

text \<open>A parent of a position of the map is above the bottom.\<close>

lemma route_length: "length (snd (route m)) = fst (route m) - 11"
  by (simp add: route_def)

lemma positions_interior:
  assumes "(t, ks @ [o']) \<in> positions n"
  shows "interior (t, ks)"
proof -
  obtain m j where m: "fst (route m) = t" "ks @ [o'] = take j (snd (route m))" using assms by (auto simp: positions_def on_way_def)
  have "length (ks @ [o']) \<le> length (snd (route m))" unfolding m(2) by simp
  then show ?thesis using m(1) route_length [of m] by (simp add: interior_def)
qed

text \<open>The number of the block at a position.\<close>

fun unroute :: "position \<Rightarrow> nat" where
  "unroute (t, [i]) = 12 + i"
| "unroute (t, [i, j]) = 1036 + (i * 1024 + j)"
| "unroute (t, [i, j, k]) = 1049612 + ((i * 1024 + j) * 1024 + k)"
| "unroute (t, _) = t"

lemma unroute_route: "unroute (route n) = n"
proof -
  consider "n < 12" | "12 \<le> n" "n < 1036" | "1036 \<le> n" "n < 1049612" | "1049612 \<le> n" by linarith
  then show ?thesis
  proof cases
    case 1
    then show ?thesis by (simp add: route_simps(1))
  next
    case 2
    then show ?thesis by (simp add: route_simps(2))
  next
    case 3
    have "(n - 1036) div 1024 * 1024 + (n - 1036) mod 1024 = n - 1036" by (rule div_mult_mod_eq)
    then show ?thesis using 3(1) unfolding route_simps(3) [OF 3] unroute.simps by simp
  next
    case 4
    have "(n - 1049612) div 1024 div 1024 * 1024 + (n - 1049612) div 1024 mod 1024 = (n - 1049612) div 1024"
      "(n - 1049612) div 1024 * 1024 + (n - 1049612) mod 1024 = n - 1049612" by (rule div_mult_mod_eq)+
    then show ?thesis using 4 unfolding route_tind_nat [OF 4] unroute.simps by simp
  qed
qed

lemma route_inj: "route i = route j \<Longrightarrow> i = j"
  by (metis unroute_route)

lemma bmap_inj:
  assumes m: "mapped F fs inode (positions n)" and i: "i < n" "j < n" "bmap fs inode i = bmap fs inode j"
  shows "i = j"
proof -
  have "route i = route j"
    using m i(3) route_positions [OF i(1)] route_positions [OF i(2)] by (auto simp: mapped_def bmap_def inj_on_def)
  then show ?thesis by (rule route_inj)
qed

text \<open>No inode has more blocks than the groups below 2 GiB.\<close>

lemma card_disk_blocks: "card disk_blocks \<le> 491520"
proof -
  have "k \<in> (\<lambda>(g, i). word_of_nat (g * 33794 + i)) ` ({..<15} \<times> {..<32768})" if "k \<in> disk_blocks" for k
  proof -
    have "unat k div 33794 < 15" "unat k mod 33794 < 32768" using that by (simp_all add: disk_blocks_def less_mult_imp_div_less)
    moreover have "k = word_of_nat (unat k div 33794 * 33794 + unat k mod 33794)" by (simp only: div_mult_mod_eq) simp
    ultimately show ?thesis
      by (intro image_eqI [of _ _ "(unat k div 33794, unat k mod 33794)"]) (simp_all del: of_nat_add of_nat_mult)
  qed
  then have "disk_blocks \<subseteq> (\<lambda>(g, i). word_of_nat (g * 33794 + i)) ` ({..<15} \<times> {..<32768})" by blast
  then have "card disk_blocks \<le> card ((\<lambda>(g, i). word_of_nat (g * 33794 + i) :: u32) ` ({..<15 :: nat} \<times> {..<32768 :: nat}))"
    by (rule card_mono [rotated]) simp
  also have "\<dots> \<le> card ({..<15 :: nat} \<times> {..<32768 :: nat})" by (rule card_image_le) simp
  finally show ?thesis by simp
qed

lemma inode_maps_bound:
  assumes "inode_maps F fs inode n"
  shows "n \<le> 491520"
proof -
  have m: "mapped F fs inode (positions n)" using assms by (simp add: inode_maps_def)
  have b: "\<exists>j. bmap fs inode i = Some j \<and> j \<in> disk_blocks" if "i < n" for i
    by (rule mappedD [OF m route_positions [OF that]]) (auto simp: bmap_def dest: allocated_disk_blocks)
  have "inj_on (bmap fs inode) {..<n}" using bmap_inj [OF m] by (intro inj_onI) simp
  then have "card {..<n} = card (bmap fs inode ` {..<n})" by (simp add: card_image)
  also have "\<dots> \<le> card (Some ` disk_blocks)" by (rule card_mono) (simp, use b in force)
  also have "\<dots> \<le> card disk_blocks" by (rule card_image_le) simp
  finally show ?thesis using card_disk_blocks by simp
qed

lemma data_not_index_block:
  assumes m: "mapped F fs inode (positions n)" and i: "i < n" "bmap fs inode i = Some k"
  shows "k \<notin> index_blocks fs inode (positions n)"
proof
  assume "k \<in> index_blocks fs inode (positions n)"
  then obtain t ks o' where q: "(t, ks @ [o']) \<in> positions n" "node fs inode (t, ks) = Some k" by (auto simp: index_blocks_def)
  then have "(t, ks) \<in> positions n" using m by (auto simp: mapped_def closed_def)
  from data_not_index [OF m i this positions_interior [OF q(1)]] q(2) show False by simp
qed

text \<open>A write of a part of the block the handle stands on.\<close>

definition wrote :: "ext2_inode \<Rightarrow> nat \<Rightarrow> byte list \<Rightarrow> fs \<Rightarrow> fs \<Rightarrow> bool" where
  "wrote inode off bs fs fs' \<longleftrightarrow> (\<forall>p < unat (i_size inode).
     file_bytes fs' inode p = (if off \<le> p \<and> p < off + length bs then bs ! (p - off) else file_bytes fs inode p))"

lemma block_wrote:
  assumes s: "fs_ok F fs" and f: "file_ok F fs inode n" and k: "i < n" "bmap fs inode i = Some k" "fs_content fs k = Some x"
    and st: "step F {k} fs F' fs'" "fs_content fs' k = Some (put_bytes x off bs)" "\<And>j. j < n \<Longrightarrow> bmap fs' inode j = bmap fs inode j"
    and o': "off + length bs \<le> 4096"
  shows "wrote inode (i * 4096 + off) bs fs fs'"
  unfolding wrote_def
proof (intro allI impI)
  fix p assume p: "p < unat (i_size inode)"
  obtain l where l: "p div 4096 < n" "bmap fs inode (p div 4096) = Some l" "allocated fs l" "l \<notin> F"
    by (rule file_blocks [OF f below_block [OF p]])
  obtain y where y: "fs_content fs l = Some y" by (rule allocated_content [OF s l(3)])
  have pe: "p = p div 4096 * 4096 + p mod 4096" "p mod 4096 < 4096" by simp_all
  have m: "mapped F fs inode (positions n)" using file_ok_maps [OF f] by blast
  show "file_bytes fs' inode p =
      (if i * 4096 + off \<le> p \<and> p < i * 4096 + off + length bs then bs ! (p - (i * 4096 + off)) else file_bytes fs inode p)"
  proof (cases "p div 4096 = i")
    case True
    have "file_bytes fs' inode p = put_bytes x off bs (p mod 4096)"
      using st(3) [OF l(1)] k(2) st(2) True by (intro file_bytes_block) simp_all
    moreover have "file_bytes fs inode p = x (p mod 4096)" using k(2,3) True by (intro file_bytes_block) simp_all
    moreover have "p - (i * 4096 + off) = p mod 4096 - off" "i * 4096 + off \<le> p \<longleftrightarrow> off \<le> p mod 4096"
      "p < i * 4096 + off + length bs \<longleftrightarrow> p mod 4096 < off + length bs"
      using pe True by linarith+
    ultimately show ?thesis by (simp only: put_bytes_def)
  next
    case False
    then have "l \<noteq> k" using bmap_inj [OF m l(1) k(1)] l(2) k(2) by auto
    then have "fs_content fs' l = Some y" using step_content [OF st(1) l(3,4) _ y] by simp
    then have "file_bytes fs' inode p = file_bytes fs inode p"
      using file_bytes_block [of fs' inode p l y] file_bytes_block [OF l(2) y] st(3) [OF l(1)] l(2) by simp
    moreover have "\<not> (i * 4096 + off \<le> p \<and> p < i * 4096 + off + length bs)"
    proof
      assume "i * 4096 + off \<le> p \<and> p < i * 4096 + off + length bs"
      then have "i * 4096 \<le> p" "p < i * 4096 + 4096" using o' by auto
      then have "p div 4096 = i" by (intro div_nat_eqI) simp_all
      with False show False ..
    qed
    ultimately show ?thesis by (simp only: if_False)
  qed
qed

definition data_blocks :: "fs \<Rightarrow> ext2_inode \<Rightarrow> nat \<Rightarrow> u32 set" where
  "data_blocks fs inode n = {k. \<exists>i < n. bmap fs inode i = Some k}"

text \<open>The result of writing bytes inside the file.\<close>

definition writes_file :: "u32 set \<Rightarrow> ext2_inode \<Rightarrow> nat \<Rightarrow> nat \<Rightarrow> byte list \<Rightarrow> fs \<Rightarrow> fs \<Rightarrow> bool" where
  "writes_file F inode n off bs fs fs' \<longleftrightarrow> file_ok F fs' inode n \<and> wrote inode off bs fs fs' \<and>
     step F (data_blocks fs inode n) fs F fs' \<and> allocated fs' = allocated fs \<and> (\<forall>i < n. bmap fs' inode i = bmap fs inode i)"

lemma writes_file_ok: "writes_file F inode n off bs fs fs' \<Longrightarrow> fs_ok F fs' \<and> file_ok F fs' inode n"
  by (simp add: writes_file_def step_def)

lemma writes_file_data: "writes_file F inode n off bs fs fs' \<Longrightarrow> data_blocks fs' inode n = data_blocks fs inode n"
  by (auto simp: writes_file_def data_blocks_def)

lemma reads_writes_file:
  assumes f: "file_ok F fs inode n" and s: "fs_ok F fs" and r: "fs_reads F fs fs'"
  shows "writes_file F inode n off [] fs fs'"
proof -
  have m: "mapped F fs inode (positions n)" using file_ok_maps [OF f] by blast
  have "wrote inode off [] fs fs'" using file_bytes_reads [OF f s r] below_block by (auto simp: wrote_def)
  then show ?thesis
    using file_ok_reads [OF f r] step_mono [OF reads_step [OF r]] fs_reads_allocated [OF r] bmap_reads [OF m r]
    by (simp add: writes_file_def)
qed

lemma writes_file_trans:
  assumes a: "writes_file F inode n off bs fs fs1" and b: "writes_file F inode n (off + length bs) cs fs1 fs2"
  shows "writes_file F inode n off (bs @ cs) fs fs2"
proof -
  have "wrote inode off (bs @ cs) fs fs2"
    using a b unfolding writes_file_def wrote_def by (auto simp: nth_append)
  moreover have "step F (data_blocks fs inode n) fs F fs2"
    using step_trans [of F "data_blocks fs inode n" fs F fs1 "data_blocks fs inode n" F fs2] a b writes_file_data [OF a]
    by (simp add: writes_file_def)
  ultimately show ?thesis using a b by (simp add: writes_file_def)
qed

lemma part_writes_file:
  assumes "wrote inode off bs fs fs'" "file_ok F fs' inode n" "step F {k} fs F fs'" "allocated fs' = allocated fs"
    "bmap fs inode i = Some k" "\<And>j. j < n \<Longrightarrow> bmap fs' inode j = bmap fs inode j" "i < n"
  shows "writes_file F inode n off bs fs fs'"
proof -
  have "{k} \<subseteq> data_blocks fs inode n" using assms(5,7) by (auto simp: data_blocks_def)
  from step_mono [OF assms(3) this] show ?thesis using assms by (simp add: writes_file_def)
qed

lemma write_part:
  assumes s: "fs_ok F fs" and f: "file_ok F fs inode n" and a: "at_block fs inode h i" "i * 4096 < unat (i_size inode)"
    and o': "off + c \<le> 4096" "c \<le> length buf"
  obtains blk fs' where "get_block (block_id h) True off buf c fs = Some (Some (blk, []), fs')" "at_block fs' inode h i"
    "writes_file F inode n (i * 4096 + off) (take c buf) fs fs'"
proof -
  obtain k where k: "i < n" "bmap fs inode i = Some k" "allocated fs k" "k \<notin> F" by (rule file_blocks [OF f a(2)])
  have b: "block_id h = k" using a(1) k(2) by (simp add: at_block_def)
  obtain x where x: "fs_content fs k = Some x" by (rule allocated_content [OF s k(3)])
  obtain blk fs' where g: "get_block k True off buf c fs = Some (Some (blk, []), fs')" "fs_writes F k (put_bytes x off (take c buf)) fs fs'"
    by (rule get_block_write [OF s k(3) x, of off c buf]) (use o' in simp_all)
  have "F - {k} = F" using k(4) by blast
  then have st: "step F {k} fs F fs'" using writes_step [OF g(2)] by simp
  have m: "mapped F fs inode (positions n)" using file_ok_maps [OF f] by blast
  have ps: "pointers_stay fs fs' inode (positions n) {k}"
    by (rule pointers_stay_disjoint) (use data_not_index_block [OF m k(1,2)] in simp)
  have wk: "fs_content fs' k = Some (put_bytes x off (take c buf))" using g(2) unfolding fs_writes_def by blast
  have bm: "bmap fs' inode j = bmap fs inode j" if "j < n" for j
    using mapped_step(2) [OF m st ps route_positions [OF that]] by (simp add: bmap_def)
  have f': "file_ok F fs' inode n"
    using f mapped_step(1) [OF m st ps] bm step_meta [OF st] by (auto simp: file_ok_def inode_maps_def same_meta_def)
  have "wrote inode (i * 4096 + off) (take c buf) fs fs'"
    by (rule block_wrote [OF s f k(1,2) x st wk bm]) (use o' in simp_all)
  from part_writes_file [OF this f' st fs_writes_allocated [OF g(2)] k(2) bm k(1)]
  show ?thesis using that g(1) b at_block_step [OF a(1) m route_positions [OF k(1)] st ps] by simp
qed

lemma over_loop_ok:
  assumes "fs_ok F fs" "file_ok F fs inode n" "at_block fs inode h i" "i < n" "m + sz = length buf" "off + sz \<le> unat (i_size inode)"
    "sz = 0 \<or> off = Suc i * 4096"
  shows "\<exists>h' j fs'. over_loop inode (unat (i_size inode)) buf m off sz h fs = Some (int (length buf), h', fs') \<and>
    writes_file F inode n off (drop m buf) fs fs' \<and> at_block fs' inode h' j \<and> j < n \<and> same_handle h h'"
  using assms
proof (induction sz arbitrary: off m h fs i rule: less_induct)
  case (less sz)
  let ?s = "unat (i_size inode)"
  show ?case
  proof (cases "sz = 0")
    case True
    then show ?thesis
      using less.prems reads_writes_file [OF less.prems(2,1) fs_reads_refl [OF less.prems(1)]]
      by (subst over_loop.simps) (auto simp: same_handle_def)
  next
    case False
    then have off: "off = Suc i * 4096" "off < ?s" using less.prems(6,7) by auto
    define c where "c = min sz 4096"
    have c: "0 < c" "c \<le> sz" "0 + c \<le> 4096" "c \<le> length (drop m buf)" using False less.prems(5) by (auto simp: c_def)
    have iS: "Suc i < n" "Suc i * 4096 < ?s" using less.prems(2) off by (auto simp: file_ok_def)
    have "on_block F fs inode h i" using less.prems(1,3) iS(1) file_ok_maps [OF less.prems(2)] by (auto simp: on_block_def)
    from next_block_arrives [OF this]
    obtain h1 fs1 where r: "next_block inode h fs = Some (0, h1, fs1)" "fs_reads F fs fs1" "at_block fs1 inode h1 (Suc i)" "same_handle h h1"
      by (auto simp: arrives_def)
    note s1 = fs_reads_ok [OF r(2)] and f1 = file_ok_reads [OF less.prems(2) r(2)]
    obtain blk fs2 where w: "get_block (block_id h1) True 0 (drop m buf) c fs1 = Some (Some (blk, []), fs2)"
      "at_block fs2 inode h1 (Suc i)" "writes_file F inode n (Suc i * 4096 + 0) (take c (drop m buf)) fs1 fs2"
      by (rule write_part [OF s1 f1 r(3) iS(2) c(3,4)])
    have w2: "writes_file F inode n off (take c (drop m buf)) fs fs2"
      using writes_file_trans [OF reads_writes_file [OF less.prems(2,1) r(2), of off]] w(3) off(1) by simp
    have pre: "sz - c < sz" "m + c + (sz - c) = length buf" "off + c + (sz - c) \<le> ?s" "sz - c = 0 \<or> off + c = Suc (Suc i) * 4096"
      using c less.prems(5,6) off(1) False by (auto simp: c_def min_def)
    have fs2: "fs_ok F fs2" "file_ok F fs2 inode n" using writes_file_ok [OF w(3)] by auto
    from less.IH [OF pre(1) fs2 w(2) iS(1) pre(2-4)]
    obtain h' j fs' where z: "over_loop inode ?s buf (m + c) (off + c) (sz - c) h1 fs2 = Some (int (length buf), h', fs')"
      "writes_file F inode n (off + c) (drop (m + c) buf) fs2 fs'" "at_block fs' inode h' j" "j < n" "same_handle h1 h'"
      by blast
    have "over_loop inode ?s buf m off sz h fs = Some (int (length buf), h', fs')"
      using r(1) w(1) z(1) False off(2) by (subst over_loop.simps) (simp add: c_def [symmetric] Let_def)
    moreover have "writes_file F inode n off (drop m buf) fs fs'"
    proof -
      have "length (take c (drop m buf)) = c" using c(4) by simp
      moreover have "take c (drop m buf) @ drop (m + c) buf = drop m buf"
        using append_take_drop_id [of c "drop m buf"] by (simp add: add.commute)
      ultimately show ?thesis using writes_file_trans [OF w2, of "drop (m + c) buf" fs'] z(2) by simp
    qed
    ultimately show ?thesis using z(3-5) r(4) by (auto simp: same_handle_def)
  qed
qed

lemma fd_write_inside_ok:
  assumes s: "fs_ok F fs" and f: "file_ok F fs inode n" and h: "handle_ok fs inode n h"
    and len: "off + length buf \<le> unat (i_size inode)" "off < unat (i_size inode)"
  obtains h' j fs' where "fd_write buf off False inode h fs = Some (int (length buf), False, inode, h', fs')"
    "writes_file F inode n off buf fs fs'" "at_block fs' inode h' j" "j < n" "\<not> cache_update_flag h'"
proof -
  let ?s = "unat (i_size inode)" and ?c = "min (length buf) (4096 - off mod 4096)"
  obtain h1 fs1 where u: "fd_upd_cache inode h fs = Some (0, h1, fs1)" "fs_reads F fs fs1" "handle_ok fs1 inode n h1" "\<not> cache_update_flag h1"
    by (rule fd_upd_cache_ok [OF s f h])
  note s1 = fs_reads_ok [OF u(2)] and f1 = file_ok_reads [OF f u(2)]
  have blk: "off div 4096 * 4096 < ?s" using len(2) by (rule below_block)
  then have n: "off div 4096 < n" using f by (auto simp: file_ok_def)
  have "off < 2 ^ 32" using len(2) unsigned_less [of "i_size inode", where ?'a = nat] by simp
  then obtain h2 fs2 where k: "seek inode (word_of_nat (off div BLOCK_SIZE)) h1 fs1 = Some (0, h2, fs2)" "fs_reads F fs1 fs2"
    "at_block fs2 inode h2 (off div 4096)" "same_handle h1 h2"
    by (rule seek_offset [OF s1 f1 u(3,4) _ n])
  note r2 = fs_reads_trans [OF u(2) k(2)]
  have c: "off mod 4096 + ?c \<le> 4096" "?c \<le> length buf" by auto
  obtain b fs3 where g: "get_block (block_id h2) True (off mod 4096) buf ?c fs2 = Some (Some (b, []), fs3)" "at_block fs3 inode h2 (off div 4096)"
    "writes_file F inode n (off div 4096 * 4096 + off mod 4096) (take ?c buf) fs2 fs3"
    by (rule write_part [OF fs_reads_ok [OF r2] file_ok_reads [OF f r2] k(3) blk c])
  have w3: "writes_file F inode n off (take ?c buf) fs fs3"
    using writes_file_trans [OF reads_writes_file [OF f s r2, of off]] g(3) by simp
  have fs3: "fs_ok F fs3" "file_ok F fs3 inode n" using writes_file_ok [OF g(3)] by auto
  have pre: "?c + (length buf - ?c) = length buf" "off + ?c + (length buf - ?c) \<le> ?s" using len(1) by auto
  from over_loop_ok [OF fs3 g(2) n pre first_chunk]
  obtain h' j fs' where w: "over_loop inode ?s buf ?c (off + ?c) (length buf - ?c) h2 fs3 = Some (int (length buf), h', fs')"
    "writes_file F inode n (off + ?c) (drop ?c buf) fs3 fs'" "at_block fs' inode h' j" "j < n" "same_handle h2 h'"
    by blast
  have "writes_file F inode n off buf fs fs'" using writes_file_trans [OF w3, of "drop ?c buf" fs'] w(2) by simp
  moreover have "fd_write buf off False inode h fs = Some (int (length buf), False, inode, h', fs')"
    using u(1) k(1) g(1) w(1) len(1) by (simp add: fd_write_def write_over_def Let_def)
  moreover have "\<not> cache_update_flag h'" using w(5) k(4) u(4) by (simp add: same_handle_def)
  ultimately show ?thesis using that w(3,4) by blast
qed

end
