(* ===== verification/File_Append.thy ===== *)
theory File_Append
  imports File_Data
begin

text \<open>
  Writes that extend a file: \<open>write\<close> from inside the file or from its end past its end allocates the
  blocks it needs, stores all the bytes, and leaves every block that does not belong to the file
  alone.
\<close>

section \<open>Steps of a growing file\<close>

text \<open>The blocks of a file, those of pointers included.\<close>

definition owns :: "fs \<Rightarrow> ext2_inode \<Rightarrow> nat \<Rightarrow> u32 set" where
  "owns fs inode n = {k. \<exists>p \<in> positions n. node fs inode p = Some k}"

text \<open>No block outside the file changes, and the file only takes blocks that were free.\<close>

definition frame :: "u32 set \<Rightarrow> fs \<Rightarrow> u32 set \<Rightarrow> u32 set \<Rightarrow> fs \<Rightarrow> u32 set \<Rightarrow> bool" where
  "frame F fs A F' fs' A' \<longleftrightarrow> same_meta fs fs' \<and> (\<forall>k. allocated fs k \<longrightarrow> allocated fs' k \<and> (k \<in> F' \<longrightarrow> k \<in> F) \<and> (k \<in> A' \<longrightarrow> k \<in> A)) \<and>
     keeps (\<lambda>k. allocated fs k \<and> k \<notin> F \<and> k \<notin> A) (fs_content fs) (fs_content fs')"

lemma frame_trans: "frame F fs A F' fs' A' \<Longrightarrow> frame F' fs' A' F'' fs'' A'' \<Longrightarrow> frame F fs A F'' fs'' A''"
proof -
  assume a: "frame F fs A F' fs' A'" "frame F' fs' A' F'' fs'' A''"
  have "keeps (\<lambda>k. allocated fs k \<and> k \<notin> F \<and> k \<notin> A) (fs_content fs) (fs_content fs'')"
    using a unfolding frame_def keeps_def by blast
  moreover have "same_meta fs fs''" using a by (auto simp: frame_def intro: same_meta_trans)
  ultimately show ?thesis using a by (simp add: frame_def)
qed

lemma step_frame: "step F W fs F' fs' \<Longrightarrow> W \<subseteq> A \<Longrightarrow> frame F fs A F' fs' A"
  unfolding step_def frame_def keeps_def by blast

text \<open>The bytes \<open>bs\<close> were stored at an offset in the file or at its end, which moves with them.\<close>

definition stored_at :: "ext2_inode \<Rightarrow> fs \<Rightarrow> ext2_inode \<Rightarrow> fs \<Rightarrow> nat \<Rightarrow> byte list \<Rightarrow> bool" where
  "stored_at inode fs inode' fs' off bs \<longleftrightarrow> off \<le> unat (i_size inode) \<and>
     unat (i_size inode') = max (unat (i_size inode)) (off + length bs) \<and>
     (\<forall>p < unat (i_size inode').
        file_bytes fs' inode' p = (if off \<le> p \<and> p < off + length bs then bs ! (p - off) else file_bytes fs inode p))"

lemma stored_trans:
  assumes "stored_at inode fs inode1 fs1 off bs" "stored_at inode1 fs1 inode2 fs2 (off + length bs) cs"
  shows "stored_at inode fs inode2 fs2 off (bs @ cs)"
proof -
  have "file_bytes fs2 inode2 p = (if off \<le> p \<and> p < off + length (bs @ cs) then (bs @ cs) ! (p - off) else file_bytes fs inode p)"
    if "p < unat (i_size inode2)" for p
    using assms that unfolding stored_at_def by (auto simp: nth_append)
  then show ?thesis using assms by (simp add: stored_at_def)
qed

definition grows_file :: "u32 set \<Rightarrow> ext2_inode \<Rightarrow> nat \<Rightarrow> fs \<Rightarrow> u32 set \<Rightarrow> ext2_inode \<Rightarrow> nat \<Rightarrow> fs \<Rightarrow> nat \<Rightarrow> byte list \<Rightarrow> bool" where
  "grows_file F inode n fs F' inode' n' fs' off bs \<longleftrightarrow> n \<le> n' \<and> fs_ok F' fs' \<and> file_ok F' fs' inode' n' \<and>
     stored_at inode fs inode' fs' off bs \<and> frame F fs (owns fs inode n) F' fs' (owns fs' inode' n')"

lemma grows_trans:
  assumes "grows_file F inode n fs F1 inode1 n1 fs1 off bs" "grows_file F1 inode1 n1 fs1 F2 inode2 n2 fs2 (off + length bs) cs"
  shows "grows_file F inode n fs F2 inode2 n2 fs2 off (bs @ cs)"
  using assms unfolding grows_file_def by (auto intro: stored_trans frame_trans)

lemma grows_reads:
  assumes s: "fs_ok F fs" and f: "file_ok F fs inode n" and r: "fs_reads F fs fs'" and off: "off \<le> unat (i_size inode)"
  shows "grows_file F inode n fs F inode n fs' off []"
proof -
  have m: "mapped F fs inode (positions n)" using file_ok_maps [OF f] by blast
  have "owns fs' inode n = owns fs inode n"
    using mapped_step(2) [OF m reads_step [OF r] pointers_stay_empty] by (auto simp: owns_def)
  moreover have "stored_at inode fs inode fs' off []"
    using off file_bytes_reads [OF f s r below_block] by (auto simp: stored_at_def)
  ultimately show ?thesis
    using fs_reads_ok [OF r] file_ok_reads [OF f r] step_frame [OF reads_step [OF r]] by (simp add: grows_file_def)
qed

lemma growing_frame:
  assumes g: "growing F0 fs0 inode0 (positions n) F fs inode (positions m)" and m0: "mapped F0 fs0 inode0 (positions n)"
    and A: "A = owns fs inode m"
  shows "frame F0 fs0 (owns fs0 inode0 n) F fs A"
proof -
  obtain W where W: "step F0 W fs0 F fs" "\<forall>w \<in> W. allocated fs0 w \<longrightarrow> (\<exists>q \<in> positions n. interior q \<and> node fs0 inode0 q = Some w)"
    using g by (auto simp: growing_def)
  have "k \<in> owns fs0 inode0 n" if k: "allocated fs0 k" "k \<in> A" for k
  proof -
    obtain p where p: "p \<in> positions m" "node fs inode p = Some k" using k(2) by (auto simp: A owns_def)
    then have "p \<in> positions n" using g k(1) unfolding growing_def by blast
    then show ?thesis using g p(2) unfolding growing_def owns_def by auto
  qed
  moreover have "keeps (\<lambda>k. allocated fs0 k \<and> k \<notin> F0 \<and> k \<notin> owns fs0 inode0 n) (fs_content fs0) (fs_content fs)"
    using W unfolding step_def keeps_def owns_def by blast
  ultimately show ?thesis using W(1) by (simp add: frame_def step_def)
qed

lemma alloc_file:
  assumes s: "fs_ok F fs" and f: "file_ok F fs inode n" and n: "n < 1049612" and r: "room fs (m + 3)" and off: "off \<le> unat (i_size inode)"
  obtains b k inode' fs' F' where "alloc_block_inode inode fs = Some (Some (b, k), inode', fs')"
    "grows_file F inode n fs F' inode' (Suc n) fs' off []" "i_size inode' = i_size inode" "room fs' m"
    "\<forall>h i. i < n \<longrightarrow> at_block fs inode h i \<longrightarrow> at_block fs' inode' h i"
proof -
  have im: "inode_maps F fs inode n" using f by (simp add: file_ok_def)
  have m: "mapped F fs inode (positions n)" using file_ok_maps [OF f] by blast
  obtain b k inode' fs' F' ps where a: "alloc_block_inode inode fs = Some (Some (b, k), inode', fs')"
    "growing F fs inode (positions n) F' fs' (inode'\<lparr>i_blocks := i_blocks inode\<rparr>) (positions (Suc n))"
    "inode_maps F' fs' inode' (Suc n)" "\<not> allocated fs k" "F' \<subseteq> insert k F" "room fs' m"
    by (rule alloc_block_inode_ok [OF s im n r])
  have nd: "node fs' inode' p = node fs inode p" if "p \<in> positions n" for p
    using a(2) that unfolding growing_def by (auto simp: node_def)
  have bm: "bmap fs' inode' i = bmap fs inode i" if "i < n" for i using nd [OF route_positions [OF that]] by (simp add: bmap_def)
  obtain g where g: "inode'\<lparr>i_blocks := i_blocks inode\<rparr> = inode\<lparr>i_block := g\<rparr>" using a(2) unfolding growing_def by blast
  have sz: "i_size inode' = i_size inode" using arg_cong [OF g, of i_size] by simp
  have F': "j \<notin> F'" if "allocated fs j" "j \<notin> F" for j using a(4,5) that by blast
  have "j \<notin> F'" if "i * 4096 < unat (i_size inode)" "bmap fs' inode' i = Some j" for i j
    using file_blocks [OF f that(1)] bm that(2) F' by (metis option.inject)
  then have f': "file_ok F' fs' inode' (Suc n)" using a(3) f sz by (simp add: file_ok_def)
  have "file_bytes fs' inode' p = file_bytes fs inode p" if p: "p < unat (i_size inode)" for p
  proof -
    obtain j where j: "p div 4096 < n" "bmap fs inode (p div 4096) = Some j" "allocated fs j" "j \<notin> F"
      by (rule file_blocks [OF f below_block [OF p]])
    obtain x where x: "fs_content fs j = Some x" by (rule allocated_content [OF s j(3)])
    have "fs_content fs' j = Some x" by (rule growing_content [OF a(2) m j(3,4) x data_not_index [OF m j(1,2)]])
    then show ?thesis using file_bytes_block [OF j(2) x] file_bytes_block [of fs' inode' p j x] bm [OF j(1)] j(2) by simp
  qed
  then have st: "stored_at inode fs inode' fs' off []" using off sz by (auto simp: stored_at_def)
  have "frame F fs (owns fs inode n) F' fs' (owns fs' inode' (Suc n))"
    by (rule growing_frame [OF a(2) m]) (simp add: owns_def node_def)
  then have "grows_file F inode n fs F' inode' (Suc n) fs' off []" using growing_ok [OF a(2)] f' st by (simp add: grows_file_def)
  moreover have "at_block fs' inode' h i" if h: "i < n" "at_block fs inode h i" for h i
  proof -
    have "(fst (route i), take l (snd (route i))) \<in> positions n" for l
      using closed_take [OF closed_positions, of "fst (route i)" "snd (route i)" n] route_positions [OF h(1)] by simp
    then show ?thesis using h nd bm by (simp add: at_block_def)
  qed
  ultimately show ?thesis using that a(1,6) sz by blast
qed

text \<open>The size of the inode does not matter to its block map.\<close>

lemma node_grow_to: "node fs (grow_to p inode) = node fs inode"
  by (simp add: grow_to_def node_def fun_eq_iff)

lemma grow_to_fields [simp]:
  "i_block (grow_to p inode) = i_block inode" "i_blocks (grow_to p inode) = i_blocks inode" "i_mode (grow_to p inode) = i_mode inode"
  by (simp_all add: grow_to_def)

lemma grow_to_simps [simp]:
  "bmap fs (grow_to p inode) = bmap fs inode" "file_bytes fs (grow_to p inode) = file_bytes fs inode"
  "owns fs (grow_to p inode) = owns fs inode"
  "mapped F fs (grow_to p inode) = mapped F fs inode" "at_block fs (grow_to p inode) = at_block fs inode"
  by (intro ext, simp add: bmap_def file_bytes_def owns_def mapped_def at_block_def index_blocks_def node_grow_to)+

lemma grow_to_size: "p < 2 ^ 32 \<Longrightarrow> unat (i_size (grow_to p inode)) = max (unat (i_size inode)) p"
  using unsigned_less [of "i_size inode", where ?'a = nat] by (simp add: grow_to_def unat_of_nat max_def)

text \<open>A write to a block of the file, from a byte of the file or from its end.\<close>

lemma store_block:
  assumes s: "fs_ok F fs" and f: "file_ok F fs inode n" and q: "q < n" "bmap fs inode q = Some k" "fs_content fs k = Some x"
    and st: "step F {k} fs (F - {k}) fs'" "fs_content fs' k = Some (put_bytes x off bs)" "\<And>j. j < n \<Longrightarrow> bmap fs' inode j = bmap fs inode j"
    and o': "off + length bs \<le> 4096" "q * 4096 + off \<le> unat (i_size inode)"
    and p: "p < max (unat (i_size inode)) (q * 4096 + off + length bs)"
  shows "file_bytes fs' inode p = (if q * 4096 + off \<le> p \<and> p < q * 4096 + off + length bs then bs ! (p - (q * 4096 + off)) else file_bytes fs inode p)"
proof -
  have pe: "p = p div 4096 * 4096 + p mod 4096" "p mod 4096 < 4096" by simp_all
  show ?thesis
  proof (cases "p div 4096 = q")
    case True
    have "file_bytes fs' inode p = put_bytes x off bs (p mod 4096)"
      using st(2) st(3) [OF q(1)] q(2) True by (intro file_bytes_block) simp_all
    moreover have "file_bytes fs inode p = x (p mod 4096)" using q(2,3) True by (intro file_bytes_block) simp_all
    moreover have "p - (q * 4096 + off) = p mod 4096 - off" "q * 4096 + off \<le> p \<longleftrightarrow> off \<le> p mod 4096"
      "p < q * 4096 + off + length bs \<longleftrightarrow> p mod 4096 < off + length bs"
      using pe True by linarith+
    ultimately show ?thesis by (simp only: put_bytes_def)
  next
    case False
    have out: "\<not> (q * 4096 + off \<le> p \<and> p < q * 4096 + off + length bs)"
    proof
      assume "q * 4096 + off \<le> p \<and> p < q * 4096 + off + length bs"
      then have "q * 4096 \<le> p" "p < q * 4096 + 4096" using o' by auto
      then have "p div 4096 = q" by (intro div_nat_eqI) simp_all
      with False show False ..
    qed
    then have "p < unat (i_size inode)" using p o'(2) by linarith
    then obtain l where l: "p div 4096 < n" "bmap fs inode (p div 4096) = Some l" "allocated fs l" "l \<notin> F"
      by (rule file_blocks [OF f below_block])
    obtain y where y: "fs_content fs l = Some y" by (rule allocated_content [OF s l(3)])
    have "l \<noteq> k" using bmap_inj [OF conjunct1 [OF file_ok_maps [OF f]] l(1) q(1)] l(2) q(2) False by auto
    then have "fs_content fs' l = Some y" using step_content [OF st(1) l(3,4) _ y] by simp
    then have "file_bytes fs' inode p = file_bytes fs inode p"
      using file_bytes_block [of fs' inode p l y] file_bytes_block [OF l(2) y] st(3) [OF l(1)] l(2) by simp
    then show ?thesis using out by (simp only: if_False)
  qed
qed

lemma same_block: "q * 4096 + off \<le> isize \<Longrightarrow> off + c \<le> 4096 \<Longrightarrow> isize \<le> i * 4096 \<Longrightarrow> i * 4096 < q * 4096 + off + c \<Longrightarrow> i = (q :: nat)"
  by linarith

lemma store_part:
  assumes s: "fs_ok F fs" and f: "file_ok F fs inode n" and a: "at_block fs inode h q" "q < n"
    and o': "off + c \<le> 4096" "c \<le> length buf" "q * 4096 + off \<le> unat (i_size inode)" "q * 4096 + off + c < 2 ^ 32"
  obtains blk fs' F' where "get_block (block_id h) True off buf c fs = Some (Some (blk, []), fs')" "at_block fs' inode h q"
    "grows_file F inode n fs F' (grow_to (q * 4096 + off + c) inode) n fs' (q * 4096 + off) (take c buf)" "room fs' = room fs"
proof -
  have m: "mapped F fs inode (positions n)" using file_ok_maps [OF f] by blast
  obtain k where k: "bmap fs inode q = Some k" "allocated fs k" unfolding bmap_def by (rule mappedD [OF m route_positions [OF a(2)]])
  have b: "block_id h = k" using a(1) k(1) by (simp add: at_block_def)
  obtain x where x: "fs_content fs k = Some x" by (rule allocated_content [OF s k(2)])
  obtain blk fs' where g: "get_block k True off buf c fs = Some (Some (blk, []), fs')" "fs_writes F k (put_bytes x off (take c buf)) fs fs'"
    by (rule get_block_write [OF s k(2) x, of off c buf]) (use o' in simp_all)
  note st = writes_step [OF g(2)]
  have ps: "pointers_stay fs fs' inode (positions n) {k}"
    by (rule pointers_stay_disjoint) (use data_not_index_block [OF m a(2) k(1)] in simp)
  have wk: "fs_content fs' k = Some (put_bytes x off (take c buf))" using g(2) unfolding fs_writes_def by blast
  have nd: "node fs' inode p = node fs inode p" if "p \<in> positions n" for p by (rule mapped_step(2) [OF m st ps that])
  then have bm: "bmap fs' inode j = bmap fs inode j" if "j < n" for j using route_positions [OF that] by (simp add: bmap_def)
  let ?i = "grow_to (q * 4096 + off + c) inode"
  have sz: "unat (i_size ?i) = max (unat (i_size inode)) (q * 4096 + off + c)" by (rule grow_to_size) (use o'(4) in simp)
  have "j \<notin> F - {k}" if j: "i * 4096 < unat (i_size ?i)" "bmap fs' inode i = Some j" for i j
  proof (cases "i * 4096 < unat (i_size inode)")
    case True
    from file_blocks [OF f this] show ?thesis using bm j(2) by (metis DiffD1 option.inject)
  next
    case False
    then have "i = q" using j(1) sz same_block [OF o'(3,1), of i] by (simp add: max_def split: if_splits)
    then show ?thesis using bm [OF a(2)] k(1) j(2) by simp
  qed
  moreover have "unat (i_size ?i) \<le> n * 4096"
  proof -
    have "q * 4096 + 4096 \<le> n * 4096" using a(2) by linarith
    then show ?thesis using sz f o'(1) by (simp add: file_ok_def)
  qed
  ultimately have f': "file_ok (F - {k}) fs' ?i n"
    using f mapped_step(1) [OF m st ps] step_meta [OF st] by (simp add: file_ok_def inode_maps_def same_meta_def)
  have len: "length (take c buf) = c" using o'(2) by simp
  have "stored_at inode fs ?i fs' (q * 4096 + off) (take c buf)"
    using store_block [OF s f a(2) k(1) x st wk bm _ o'(3)] o'(1,3) unfolding stored_at_def sz len grow_to_simps by blast
  moreover have "frame F fs (owns fs inode n) (F - {k}) fs' (owns fs' ?i n)"
  proof -
    have "owns fs' ?i n = owns fs inode n" using nd by (auto simp: owns_def)
    moreover have "{k} \<subseteq> owns fs inode n" using k(1) route_positions [OF a(2)] by (auto simp: owns_def bmap_def)
    ultimately show ?thesis using step_frame [OF st] by simp
  qed
  ultimately have "grows_file F inode n fs (F - {k}) ?i n fs' (q * 4096 + off) (take c buf)"
    using step_ok [OF st] f' by (simp add: grows_file_def)
  moreover have "room fs' = room fs" by (rule ext) (rule room_same [OF fs_writes_meta [OF g(2)] fs_writes_allocated [OF g(2)]])
  ultimately show ?thesis
    using that g(1) b at_block_step [OF a(1) m route_positions [OF a(2)] st ps] by blast
qed

section \<open>Writing past the end\<close>

text \<open>A block is allocated when the write has come to the end of the file.\<close>

lemma ensure_block:
  assumes s: "fs_ok F fs" and f: "file_ok F fs inode n" and n: "n < 1049612" and r: "room fs (m + 3)" and off: "off \<le> unat (i_size inode)"
  obtains inode' fs' F' where "(if b then do { (r, inode, fs) \<leftarrow> alloc_block_inode inode fs; Some (r \<noteq> None, inode, fs) } else Some (True, inode, fs)) =
      Some (True, inode', fs')"
    "grows_file F inode n fs F' inode' (if b then Suc n else n) fs' off []" "i_size inode' = i_size inode" "room fs' m"
    "\<forall>h i. i < n \<longrightarrow> at_block fs inode h i \<longrightarrow> at_block fs' inode' h i"
proof (cases b)
  case True
  obtain bl k inode' fs' F' where a: "alloc_block_inode inode fs = Some (Some (bl, k), inode', fs')"
    "grows_file F inode n fs F' inode' (Suc n) fs' off []" "i_size inode' = i_size inode" "room fs' m"
    "\<forall>h i. i < n \<longrightarrow> at_block fs inode h i \<longrightarrow> at_block fs' inode' h i"
    by (rule alloc_file [OF s f n r off])
  show ?thesis using True a(2) by (intro that [OF _ _ a(3-5)]) (simp_all add: a(1))
next
  case False
  show ?thesis
    by (rule that [of inode fs F]) (use False grows_reads [OF s f fs_reads_refl [OF s] off] room_less [OF r] in simp_all)
qed

text \<open>One round of the loop.\<close>

lemma grows_ok: "grows_file F inode n fs F' inode' n' fs' off bs \<Longrightarrow> fs_ok F' fs' \<and> file_ok F' fs' inode' n'"
  by (simp add: grows_file_def)

lemma write_next:
  assumes s: "fs_ok F fs" and f: "file_ok F fs inode n" and a: "at_block fs inode h i" "Suc i < n"
    and c: "c \<le> 4096" "c \<le> length buf" "Suc i * 4096 \<le> unat (i_size inode)" "Suc i * 4096 + c < 2 ^ 32"
  obtains h' fs1 blk fs' F' where "next_block inode h fs = Some (0, h', fs1)"
    "get_block (block_id h') True 0 buf c fs1 = Some (Some (blk, []), fs')"
    "grows_file F inode n fs F' (grow_to (Suc i * 4096 + c) inode) n fs' (Suc i * 4096) (take c buf)"
    "at_block fs' inode h' (Suc i)" "same_handle h h'" "room fs' = room fs"
proof -
  have "on_block F fs inode h i" using s a file_ok_maps [OF f] by (auto simp: on_block_def)
  from next_block_arrives [OF this]
  obtain h' fs1 where r: "next_block inode h fs = Some (0, h', fs1)" "fs_reads F fs fs1" "at_block fs1 inode h' (Suc i)" "same_handle h h'"
    by (auto simp: arrives_def)
  have c': "0 + c \<le> 4096" "Suc i * 4096 + 0 \<le> unat (i_size inode)" "Suc i * 4096 + 0 + c < 2 ^ 32" using c by simp_all
  obtain blk fs' F' where w: "get_block (block_id h') True 0 buf c fs1 = Some (Some (blk, []), fs')" "at_block fs' inode h' (Suc i)"
    "grows_file F inode n fs1 F' (grow_to (Suc i * 4096 + 0 + c) inode) n fs' (Suc i * 4096 + 0) (take c buf)" "room fs' = room fs1"
    by (rule store_part [OF fs_reads_ok [OF r(2)] file_ok_reads [OF f r(2)] r(3) a(2) c'(1) c(2) c'(2,3)])
  have "grows_file F inode n fs F' (grow_to (Suc i * 4096 + c) inode) n fs' (Suc i * 4096) (take c buf)"
    using grows_trans [OF grows_reads [OF s f r(2) c(3)]] w(3) by simp
  moreover have "room fs1 = room fs" by (rule ext) (rule room_same [OF fs_reads_meta [OF r(2)] fs_reads_allocated [OF r(2)]])
  ultimately show ?thesis using that r(1,4) w(1,2,4) by metis
qed

lemma write_loop_ok:
  assumes "fs_ok F fs" "file_ok F fs inode n" "at_block fs inode h i" "i < n" "m + sz = length buf" "off \<le> unat (i_size inode)"
    "sz = 0 \<or> off = Suc i * 4096" "off + sz < 2 ^ 32" "sz \<le> l * 4096" "n + l \<le> 1049612" "room fs (l * 3 + x)"
  shows "\<exists>inode' h' j n' fs' F'. n' \<le> n + l \<and> room fs' x \<and> write_loop buf m off sz inode h fs = Some (int (length buf), True, inode', h', fs') \<and>
    grows_file F inode n fs F' inode' n' fs' off (drop m buf) \<and> at_block fs' inode' h' j \<and> j < n' \<and> same_handle h h'"
  using assms
proof (induction l arbitrary: off m h fs i F inode n sz)
  case 0
  then have "write_loop buf m off sz inode h fs = Some (int (length buf), True, inode, h, fs)" "drop m buf = []"
    by (subst write_loop.simps, simp_all)
  then show ?case using grows_reads [OF 0(1,2) fs_reads_refl [OF 0(1)] 0(6)] 0(3,4,11) by (auto simp: same_handle_def)
next
  case (Suc l)
  show ?case
  proof (cases "sz = 0")
    case True
    then have "write_loop buf m off sz inode h fs = Some (int (length buf), True, inode, h, fs)" "drop m buf = []"
      using Suc.prems(5) by (subst write_loop.simps, simp_all)
    moreover have "room fs x" by (rule room_less [OF Suc.prems(11)]) simp
    ultimately show ?thesis
      using grows_reads [OF Suc.prems(1,2) fs_reads_refl [OF Suc.prems(1)] Suc.prems(6)] Suc.prems(3,4)
      by (intro exI [of _ inode] exI [of _ h] exI [of _ i] exI [of _ n] exI [of _ fs] exI [of _ F]) (simp add: same_handle_def)
  next
    case False
    then have off: "off = Suc i * 4096" using Suc.prems(7) by simp
    define c where "c = min sz 4096"
    have c: "c \<le> sz" "c \<le> 4096" "c \<le> length (drop m buf)" "Suc i * 4096 + c < 2 ^ 32"
      using Suc.prems(5,8) off by (auto simp: c_def)
    have r: "room fs (l * 3 + x + 3)" "n < 1049612" using Suc.prems(10,11) by (simp_all add: ac_simps)
    let ?b = "unat (i_size inode) \<le> off" and ?n = "if unat (i_size inode) \<le> off then Suc n else n"
    obtain inode1 fs1 F1 where a: "(if ?b then do { (r, inode, fs) \<leftarrow> alloc_block_inode inode fs; Some (r \<noteq> None, inode, fs) } else Some (True, inode, fs)) =
        Some (True, inode1, fs1)" "grows_file F inode n fs F1 inode1 ?n fs1 off []" "i_size inode1 = i_size inode" "room fs1 (l * 3 + x)"
      "\<forall>h i. i < n \<longrightarrow> at_block fs inode h i \<longrightarrow> at_block fs1 inode1 h i"
      by (rule ensure_block [OF Suc.prems(1,2) r(2,1) Suc.prems(6), of ?b])
    have iS: "Suc i < ?n" using Suc.prems(2,4) off by (auto simp: file_ok_def)
    have s1: "fs_ok F1 fs1" "file_ok F1 fs1 inode1 ?n" using grows_ok [OF a(2)] by auto
    have sz1: "Suc i * 4096 \<le> unat (i_size inode1)" using a(3) Suc.prems(6) off by simp
    obtain h2 fs2 blk fs3 F3 where w: "next_block inode1 h fs1 = Some (0, h2, fs2)"
      "get_block (block_id h2) True 0 (drop m buf) c fs2 = Some (Some (blk, []), fs3)"
      "grows_file F1 inode1 ?n fs1 F3 (grow_to (Suc i * 4096 + c) inode1) ?n fs3 (Suc i * 4096) (take c (drop m buf))"
      "at_block fs3 inode1 h2 (Suc i)" "same_handle h h2" "room fs3 = room fs1"
      by (rule write_next [OF s1 a(5) [rule_format, OF Suc.prems(4,3)] iS c(2,3) sz1 c(4)])
    let ?i = "grow_to (off + c) inode1"
    have g3: "grows_file F inode n fs F3 ?i ?n fs3 off (take c (drop m buf))"
      using grows_trans [OF a(2), of F3 ?i ?n fs3 "take c (drop m buf)"] w(3) off by simp
    have s3: "fs_ok F3 fs3" "file_ok F3 fs3 ?i ?n" using grows_ok [OF g3] by auto
    have a3: "at_block fs3 ?i h2 (Suc i)" using w(4) by simp
    have pre: "m + c + (sz - c) = length buf" "off + c \<le> unat (i_size ?i)" "sz - c = 0 \<or> off + c = Suc (Suc i) * 4096"
      "off + c + (sz - c) < 2 ^ 32" "sz - c \<le> l * 4096" "?n + l \<le> 1049612" "room fs3 (l * 3 + x)"
      using Suc.prems(5,8-10) c off a(4) w(6) grow_to_size [of "off + c" inode1] by (auto simp: c_def min_def)
    from Suc.IH [OF s3 a3 iS pre]
    obtain inode' h' j n' fs' F' where b: "n' \<le> ?n + l" "room fs' x" and z: "write_loop buf (m + c) (off + c) (sz - c) ?i h2 fs3 = Some (int (length buf), True, inode', h', fs')"
      "grows_file F3 ?i ?n fs3 F' inode' n' fs' (off + c) (drop (m + c) buf)" "at_block fs' inode' h' j" "j < n'" "same_handle h2 h'"
      by blast
    have "write_loop buf m off sz inode h fs = Some (int (length buf), True, inode', h', fs')"
      using a(1) w(1,2) z(1) False by (subst write_loop.simps) (simp add: c_def [symmetric] Let_def)
    moreover have "grows_file F inode n fs F' inode' n' fs' off (drop m buf)"
    proof -
      have "length (take c (drop m buf)) = c" using c(3) by simp
      moreover have "take c (drop m buf) @ drop (m + c) buf = drop m buf"
        using append_take_drop_id [of c "drop m buf"] by (simp add: add.commute)
      ultimately show ?thesis using grows_trans [OF g3, of F' inode' n' fs' "drop (m + c) buf"] z(2) by simp
    qed
    moreover have "same_handle h h'" using w(5) z(5) by (simp add: same_handle_def)
    moreover have "n' \<le> n + Suc l" using b(1) by (simp split: if_splits)
    ultimately show ?thesis using z(3,4) b(2) by blast
  qed
qed

text \<open>No gap is filled when the write starts inside the file or at its end.\<close>

lemma no_gap:
  assumes "off \<le> unat (i_size inode)" "unat (i_size inode) + 4096 < 2 ^ 32"
  shows "gap_loop off inode fs = Some (True, inode, fs)"
proof -
  let ?z = "i_size inode"
  have m: "unat (?z mod 4096) = unat ?z mod 4096" "unat ?z mod 4096 \<le> unat ?z" by (simp_all add: unat_mod)
  have p: "unat (?z + 4096) = unat ?z + 4096" using assms(2) unat_add_lem [of ?z 4096] by simp
  then have "?z mod 4096 \<le> ?z + 4096" unfolding word_le_nat_alt m(1) using m(2) by linarith
  then have "unat (next_boundary ?z) = unat ?z + 4096 - unat ?z mod 4096"
    unfolding next_boundary_def by (simp add: unat_sub m(1) p)
  then have "\<not> unat (next_boundary ?z) < off" using assms(1) mod_less_divisor [of 4096 "unat ?z"] by linarith
  then show ?thesis by (subst gap_loop.simps) simp
qed

lemma first_block:
  assumes "off \<le> isize" "isize \<le> n * 4096"
  shows "off div 4096 < (if isize mod 4096 = 0 then Suc n else n)"
proof (cases "isize mod 4096 = 0")
  case True
  have "off < Suc n * 4096" unfolding mult_Suc using assms by linarith
  then show ?thesis using True by (simp add: less_mult_imp_div_less)
next
  case False
  then have "isize \<noteq> n * 4096" by auto
  then have "off < n * 4096" using assms by linarith
  then show ?thesis using False by (simp add: less_mult_imp_div_less)
qed

lemma write_grow_ok:
  assumes s: "fs_ok F fs" and f: "file_ok F fs inode n" and h: "handle_ok fs inode n h" "\<not> cache_update_flag h"
    and off: "off \<le> unat (i_size inode)" "unat (i_size inode) < off + length buf" "off + length buf + 4096 \<le> 2 ^ 32"
    and r: "n + length buf div 4096 + 2 \<le> 1049612" "room fs ((length buf div 4096 + 2) * 3 + x)"
  obtains inode' h' j n' fs' F' where "n' \<le> n + length buf div 4096 + 2" "room fs' x" "write_grow buf off inode h fs = Some (int (length buf), True, inode', h', fs')"
    "grows_file F inode n fs F' inode' n' fs' off buf" "at_block fs' inode' h' j" "j < n'" "\<not> cache_update_flag h'"
proof -
  let ?s = "unat (i_size inode)" and ?c = "min (length buf) (4096 - off mod 4096)" and ?l = "length buf div 4096 + 1"
  let ?b = "i_size inode mod 4096 = 0" and ?n = "if i_size inode mod 4096 = 0 then Suc n else n"
  have "unat (i_size inode mod 4096) = ?s mod 4096" by (simp add: unat_mod)
  then have z: "?b \<longleftrightarrow> ?s mod 4096 = 0" by (metis unat_eq_zero)
  have gap: "gap_loop off inode fs = Some (True, inode, fs)" by (rule no_gap [OF off(1)]) (use off in linarith)
  have r': "room fs (?l * 3 + x + 3)" "n < 1049612" using r by (simp_all add: algebra_simps)
  obtain inode1 fs1 F1 where a: "(if ?b then do { (r, inode, fs) \<leftarrow> alloc_block_inode inode fs; Some (r \<noteq> None, inode, fs) } else Some (True, inode, fs)) =
      Some (True, inode1, fs1)" "grows_file F inode n fs F1 inode1 ?n fs1 off []" "i_size inode1 = i_size inode" "room fs1 (?l * 3 + x)"
    "\<forall>h i. i < n \<longrightarrow> at_block fs inode h i \<longrightarrow> at_block fs1 inode1 h i"
    by (rule ensure_block [OF s f r'(2,1) off(1), of ?b])
  have s1: "fs_ok F1 fs1" "file_ok F1 fs1 inode1 ?n" using grows_ok [OF a(2)] by auto
  have h1: "handle_ok fs1 inode1 ?n h" using h a(5) by (auto simp: handle_ok_def)
  have q: "off div 4096 < ?n" using first_block [OF off(1), of n] f z by (simp add: file_ok_def)
  have o32: "off < 2 ^ 32" using off(3) by linarith
  obtain h2 fs2 where k: "seek inode1 (word_of_nat (off div BLOCK_SIZE)) h fs1 = Some (0, h2, fs2)" "fs_reads F1 fs1 fs2"
    "at_block fs2 inode1 h2 (off div 4096)" "same_handle h h2"
    by (rule seek_offset [OF s1 h1 h(2) o32 q])
  have eq: "off div 4096 * 4096 + off mod 4096 = off" by simp
  have c: "off mod 4096 + ?c \<le> 4096" "?c \<le> length buf" "off div 4096 * 4096 + off mod 4096 \<le> unat (i_size inode1)"
    "off div 4096 * 4096 + off mod 4096 + ?c < 2 ^ 32"
    unfolding eq using off a(3) by auto
  obtain blk fs3 F3 where w: "get_block (block_id h2) True (off mod 4096) buf ?c fs2 = Some (Some (blk, []), fs3)" "at_block fs3 inode1 h2 (off div 4096)"
    "grows_file F1 inode1 ?n fs2 F3 (grow_to (off + ?c) inode1) ?n fs3 off (take ?c buf)" "room fs3 = room fs2"
    by (rule store_part [OF fs_reads_ok [OF k(2)] file_ok_reads [OF s1(2) k(2)] k(3) q c, unfolded eq])
  let ?i = "grow_to (off + ?c) inode1"
  have o1: "off \<le> unat (i_size inode1)" using off(1) a(3) by simp
  have g3: "grows_file F inode n fs F3 ?i ?n fs3 off (take ?c buf)"
    using grows_trans [OF a(2), of F3 ?i ?n fs3 "take ?c buf"] grows_trans [OF grows_reads [OF s1 k(2) o1], of F3 ?i ?n fs3 "take ?c buf"] w(3) by simp
  have s3: "fs_ok F3 fs3" "file_ok F3 fs3 ?i ?n" using grows_ok [OF g3] by auto
  have a3: "at_block fs3 ?i h2 (off div 4096)" using w(2) by simp
  have rm: "room fs3 (?l * 3 + x)" using a(4) w(4) room_same [OF fs_reads_meta [OF k(2)] fs_reads_allocated [OF k(2)]] by simp
  have pre: "?c + (length buf - ?c) = length buf" "off + ?c \<le> unat (i_size ?i)" "off + ?c + (length buf - ?c) < 2 ^ 32" "length buf - ?c \<le> ?l * 4096" "?n + ?l \<le> 1049612"
    using off(3) grow_to_size [of "off + ?c" inode1] r(1) by auto
  from write_loop_ok [OF s3 a3 q pre(1,2) first_chunk pre(3-5) rm]
  obtain inode' h' j n' fs' F' where b: "n' \<le> ?n + ?l" "room fs' x" and v: "write_loop buf ?c (off + ?c) (length buf - ?c) ?i h2 fs3 = Some (int (length buf), True, inode', h', fs')"
    "grows_file F3 ?i ?n fs3 F' inode' n' fs' (off + ?c) (drop ?c buf)" "at_block fs' inode' h' j" "j < n'" "same_handle h2 h'"
    by blast
  have "grows_file F inode n fs F' inode' n' fs' off buf" using grows_trans [OF g3, of F' inode' n' fs' "drop ?c buf"] v(2) by simp
  moreover have "write_grow buf off inode h fs = Some (int (length buf), True, inode', h', fs')"
    using gap a(1) k(1) w(1) v(1) by (simp add: write_grow_def Let_def)
  moreover have "\<not> cache_update_flag h'" using v(5) k(4) h(2) by (simp add: same_handle_def)
  moreover have "n' \<le> n + length buf div 4096 + 2" using b(1) by (simp split: if_splits)
  ultimately show ?thesis using that v(3,4) b(2) by blast
qed

text \<open>Both branches of \<open>write\<close>.\<close>

lemma wrote_grows:
  assumes f: "file_ok F fs inode n" and w: "writes_file F inode n off bs fs fs'" and off: "off + length bs \<le> unat (i_size inode)"
  shows "grows_file F inode n fs F inode n fs' off bs"
proof -
  have m: "mapped F fs inode (positions n)" using file_ok_maps [OF f] by blast
  have st: "step F (data_blocks fs inode n) fs F fs'" using w by (simp add: writes_file_def)
  have ps: "pointers_stay fs fs' inode (positions n) (data_blocks fs inode n)"
    by (rule pointers_stay_disjoint) (use data_not_index_block [OF m] in \<open>auto simp: data_blocks_def\<close>)
  have "owns fs' inode n = owns fs inode n" using mapped_step(2) [OF m st ps] by (auto simp: owns_def)
  moreover have "data_blocks fs inode n \<subseteq> owns fs inode n" using route_positions by (auto simp: data_blocks_def owns_def bmap_def)
  ultimately have "frame F fs (owns fs inode n) F fs' (owns fs' inode n)" using step_frame [OF st] by simp
  moreover have "stored_at inode fs inode fs' off bs" using w off by (simp add: writes_file_def wrote_def stored_at_def)
  ultimately show ?thesis using writes_file_ok [OF w] by (simp add: grows_file_def)
qed

definition write_at :: "bool \<Rightarrow> nat \<Rightarrow> ext2_inode \<Rightarrow> nat" where
  "write_at append_flag off inode = (if append_flag then unat (i_size inode) else off)"

definition can_write :: "u32 set \<Rightarrow> fs \<Rightarrow> ext2_inode \<Rightarrow> nat \<Rightarrow> file_status \<Rightarrow> nat \<Rightarrow> nat \<Rightarrow> bool" where
  "can_write F fs inode n h off len \<longleftrightarrow> fs_ok F fs \<and> file_ok F fs inode n \<and> handle_ok fs inode n h \<and> 0 < len \<and>
     off \<le> unat (i_size inode) \<and> off + len + 4096 \<le> 2 ^ 32 \<and> n + len div 4096 + 2 \<le> 1049612 \<and> room fs ((len div 4096 + 2) * 3)"

lemma at_block_handle: "at_block fs inode h j \<Longrightarrow> j < n \<Longrightarrow> \<not> cache_update_flag h \<Longrightarrow> handle_ok fs inode n h"
  by (auto simp: handle_ok_def at_block_def)

text \<open>A write inside the file leaves the pointers of all handles current.\<close>

lemma writes_handle:
  assumes f: "file_ok F fs inode n" and w: "writes_file F inode n off bs fs fs'" and g: "handle_ok fs inode n g"
  shows "handle_ok fs' inode n g"
proof (cases "cache_update_flag g \<or> unat (block_id_in_file g) < 1036")
  case False
  have m: "mapped F fs inode (positions n)" using file_ok_maps [OF f] by blast
  have st: "step F (data_blocks fs inode n) fs F fs'" using w by (simp add: writes_file_def)
  have ps: "pointers_stay fs fs' inode (positions n) (data_blocks fs inode n)"
    by (rule pointers_stay_disjoint) (use data_not_index_block [OF m] in \<open>auto simp: data_blocks_def\<close>)
  have b: "unat (block_id_in_file g) < n" "at_block fs inode g (unat (block_id_in_file g))" using g False by (auto simp: handle_ok_def)
  show ?thesis using b(1) at_block_step [OF b(2) m route_positions [OF b(1)] st ps] by (simp add: handle_ok_def)
qed (use g in \<open>auto simp: handle_ok_def\<close>)

text \<open>What a write leaves to the next one: the room and the handles it did not ask to look up again.\<close>

definition other_handles :: "bool \<Rightarrow> fs \<Rightarrow> ext2_inode \<Rightarrow> nat \<Rightarrow> fs \<Rightarrow> ext2_inode \<Rightarrow> nat \<Rightarrow> bool" where
  "other_handles upd fs inode n fs' inode' n' \<longleftrightarrow> (\<forall>g. handle_ok fs inode n g \<longrightarrow> cache_update_flag g \<or> \<not> upd \<longrightarrow> handle_ok fs' inode' n' g)"

lemma flagged_handle: "handle_ok fs inode n g \<Longrightarrow> n \<le> n' \<Longrightarrow> cache_update_flag g \<Longrightarrow> handle_ok fs' inode' n' g"
  by (auto simp: handle_ok_def)

lemma fd_write_room:
  assumes c: "can_write F fs inode n h (write_at ap off inode) (length buf)" and x: "room fs ((length buf div 4096 + 2) * 3 + x)"
  obtains upd inode' h' n' fs' F' where "fd_write buf off ap inode h fs = Some (int (length buf), upd, inode', h', fs')"
    "grows_file F inode n fs F' inode' n' fs' (write_at ap off inode) buf" "handle_ok fs' inode' n' h'"
    "n' \<le> n + length buf div 4096 + 2" "room fs' x" "other_handles upd fs inode n fs' inode' n'"
proof -
  note a = c [unfolded can_write_def]
  let ?o = "write_at ap off inode" and ?s = "unat (i_size inode)"
  have s: "fs_ok F fs" and f: "file_ok F fs inode n" and h: "handle_ok fs inode n h" using a by auto
  have o': "fd_write buf off ap inode h fs = fd_write buf ?o False inode h fs" by (simp add: fd_write_def write_at_def Let_def)
  show ?thesis
  proof (cases "?o + length buf \<le> ?s")
    case True
    then have "?o < ?s" using a by linarith
    then obtain h' j fs' where w: "fd_write buf ?o False inode h fs = Some (int (length buf), False, inode, h', fs')"
      "writes_file F inode n ?o buf fs fs'" "at_block fs' inode h' j" "j < n" "\<not> cache_update_flag h'"
      by (rule fd_write_inside_ok [OF s f h True])
    have "room fs' x"
      using room_less [OF x, of x] w(2) room_same [of fs fs'] by (auto simp: writes_file_def step_def)
    moreover have "other_handles False fs inode n fs' inode n" using writes_handle [OF f w(2)] by (simp add: other_handles_def)
    ultimately show ?thesis
      by (intro that [OF w(1) [folded o'] wrote_grows [OF f w(2) True] at_block_handle [OF w(3-5)]]) simp_all
  next
    case False
    obtain h1 fs1 where u: "fd_upd_cache inode h fs = Some (0, h1, fs1)" "fs_reads F fs fs1" "handle_ok fs1 inode n h1" "\<not> cache_update_flag h1"
      by (rule fd_upd_cache_ok [OF s f h])
    have o1: "?o \<le> ?s" "?s < ?o + length buf" using a False by linarith+
    have b: "?o + length buf + 4096 \<le> 2 ^ 32" "n + length buf div 4096 + 2 \<le> 1049612" using a by blast+
    have r: "room fs1 ((length buf div 4096 + 2) * 3 + x)"
      using x room_same [OF fs_reads_meta [OF u(2)] fs_reads_allocated [OF u(2)]] by blast
    obtain inode' h' j n' fs' F' where n': "n' \<le> n + length buf div 4096 + 2" "room fs' x"
      and w: "write_grow buf ?o inode h1 fs1 = Some (int (length buf), True, inode', h', fs')"
      "grows_file F inode n fs1 F' inode' n' fs' ?o buf" "at_block fs' inode' h' j" "j < n'" "\<not> cache_update_flag h'"
      by (rule write_grow_ok [OF fs_reads_ok [OF u(2)] file_ok_reads [OF f u(2)] u(3,4) o1 b r])
    have g: "grows_file F inode n fs F' inode' n' fs' ?o buf" using grows_trans [OF grows_reads [OF s f u(2) o1(1)]] w(2) by simp
    have "other_handles True fs inode n fs' inode' n'"
      using g flagged_handle unfolding other_handles_def grows_file_def by blast
    moreover have "fd_write buf off ap inode h fs = Some (int (length buf), True, inode', h', fs')"
      unfolding o' using u(1) w(1) o1(2) by (simp add: fd_write_def)
    ultimately show ?thesis using that g at_block_handle [OF w(3-5)] n' by blast
  qed
qed

lemma fd_write_ok:
  assumes "can_write F fs inode n h (write_at ap off inode) (length buf)"
  obtains upd inode' h' n' fs' F' where "fd_write buf off ap inode h fs = Some (int (length buf), upd, inode', h', fs')"
    "grows_file F inode n fs F' inode' n' fs' (write_at ap off inode) buf" "handle_ok fs' inode' n' h'"
proof -
  have "room fs ((length buf div 4096 + 2) * 3 + 0)" using assms by (simp add: can_write_def)
  then show thesis by (rule fd_write_room [OF assms]) (rule that)
qed

text \<open>Another file, with blocks of its own, in the state after the write.\<close>

lemma index_blocks_owns: "mapped F fs inode (positions n) \<Longrightarrow> index_blocks fs inode (positions n) \<subseteq> owns fs inode n"
  unfolding index_blocks_def owns_def mapped_def closed_def by blast

lemma frame_other:
  assumes s: "fs_ok F fs" "fs_ok F' fs'" and g: "frame F fs A F' fs' A'" and f: "file_ok F fs inode n" and d: "owns fs inode n \<inter> A = {}"
  shows "file_ok F' fs' inode n \<and> owns fs' inode n \<inter> A' = {} \<and> (\<forall>p < unat (i_size inode). file_bytes fs' inode p = file_bytes fs inode p)"
proof -
  have st: "step F A fs F' fs'" using g s(2) by (simp add: frame_def step_def)
  have m: "mapped F fs inode (positions n)" using file_ok_maps [OF f] by blast
  have ps: "pointers_stay fs fs' inode (positions n) A" by (rule pointers_stay_disjoint) (use index_blocks_owns [OF m] d in blast)
  note nd = mapped_step(2) [OF m st ps]
  have bm: "bmap fs' inode i = bmap fs inode i" if "i < n" for i using nd [OF route_positions [OF that]] by (simp add: bmap_def)
  have "k \<notin> F'" if i: "i * 4096 < unat (i_size inode)" "bmap fs' inode i = Some k" for i k
  proof -
    obtain j where "i < n" "bmap fs inode i = Some j" "allocated fs j" "j \<notin> F" by (rule file_blocks [OF f i(1)])
    then show ?thesis using st bm i(2) by (auto simp: step_def)
  qed
  then have "file_ok F' fs' inode n"
    using f mapped_step(1) [OF m st ps] step_meta [OF st] by (simp add: file_ok_def inode_maps_def same_meta_def)
  moreover have "owns fs' inode n \<inter> A' = {}"
  proof -
    have "k \<notin> A'" if "k \<in> owns fs inode n" for k
    proof -
      have "allocated fs k" using that m by (auto simp: owns_def mapped_def)
      then show ?thesis using g d that by (auto simp: frame_def)
    qed
    moreover have "owns fs' inode n = owns fs inode n" using nd by (auto simp: owns_def)
    ultimately show ?thesis by blast
  qed
  moreover have "file_bytes fs' inode p = file_bytes fs inode p" if p: "p < unat (i_size inode)" for p
  proof -
    obtain j where j: "p div 4096 < n" "bmap fs inode (p div 4096) = Some j" "allocated fs j" "j \<notin> F"
      by (rule file_blocks [OF f below_block [OF p]])
    obtain x where x: "fs_content fs j = Some x" by (rule allocated_content [OF s(1) j(3)])
    have "j \<notin> A" using d j(1,2) route_positions by (auto simp: owns_def bmap_def)
    then have "fs_content fs' j = Some x" by (rule step_content [OF st j(3,4) _ x])
    then show ?thesis using file_bytes_block [OF j(2) x] file_bytes_block [of fs' inode p j x] bm [OF j(1)] j(2) by simp
  qed
  ultimately show ?thesis by blast
qed

section \<open>Properties\<close>

text \<open>
  C2 (functional): \<open>write\<close> inside a file, across its end or, with the append flag, at its end stores the whole buffer:
  it returns the number of bytes given, the size becomes the end of the write if that is larger,
  the bytes of the range are those of the buffer and all others are the old ones, and file, handle
  and file system are in order again. It holds as long as sizes fit in 32 bits and three blocks
  are free for every block the file may need.
\<close>

theorem write_stores:
  assumes "can_write F fs inode n h (write_at ap off inode) (length buf)"
  shows "\<exists>upd inode' h' fs' F' n'. fd_write buf off ap inode h fs = Some (int (length buf), upd, inode', h', fs') \<and>
     fs_ok F' fs' \<and> file_ok F' fs' inode' n' \<and> handle_ok fs' inode' n' h' \<and>
     unat (i_size inode') = max (unat (i_size inode)) (write_at ap off inode + length buf) \<and>
     (\<forall>p < unat (i_size inode'). file_bytes fs' inode' p =
        (if write_at ap off inode \<le> p \<and> p < write_at ap off inode + length buf then buf ! (p - write_at ap off inode) else file_bytes fs inode p))"
proof -
  obtain upd inode' h' n' fs' F' where w: "fd_write buf off ap inode h fs = Some (int (length buf), upd, inode', h', fs')"
    "grows_file F inode n fs F' inode' n' fs' (write_at ap off inode) buf" "handle_ok fs' inode' n' h'"
    by (rule fd_write_ok [OF assms])
  show ?thesis using w grows_ok [OF w(2)] by (auto simp: grows_file_def stored_at_def)
qed

lemma small_fs_room6: "room small_fs 6"
proof -
  have "{3, 4, 5, 6, 7, 8} \<subseteq> free_blocks small_fs"
    by (auto simp: free_blocks_def small_fs_allocated disk_blocks_def) (simp_all add: group_at_def small_fs_def)
  then have "card {3, 4, 5, 6, 7, 8 :: u32} \<le> card (free_blocks small_fs)" by (rule card_mono [rotated]) simp
  then show ?thesis by (simp add: room_def)
qed

lemma small_file_ok: "file_ok {} small_fs small_file 1"
  using small_file_maps by (simp add: file_ok_def small_file_def)

lemma small_file_write: "can_write {} small_fs small_file 1 FileStatus_new (write_at True 0 small_file) (length [7, 8, 9 :: byte])"
  using small_fs_ok small_file_ok small_fs_room6 by (simp add: can_write_def write_at_def handle_ok_def FileStatus_new_def) (simp add: small_file_def)

theorem write_stores_witness:
  "\<exists>upd inode' h' fs'. fd_write [7, 8, 9] 0 True small_file FileStatus_new small_fs = Some (3, upd, inode', h', fs') \<and>
     unat (i_size inode') = 103 \<and> file_bytes fs' inode' 101 = 8 \<and> file_bytes fs' inode' 99 = file_bytes small_fs small_file 99"
proof -
  have z: "write_at True 0 small_file = 100" "unat (i_size small_file) = 100" by (simp_all add: write_at_def small_file_def)
  show ?thesis using write_stores [OF small_file_write] unfolding z by fastforce
qed



text \<open>
  C3 (safety): a \<open>write\<close> that starts inside a file or at its end, or appends, changes no other file: a file with
  blocks of its own keeps its bytes, is in order afterwards, and its blocks stay apart from those of the
  file written to. This needs what \<open>can_write\<close> says: an offset that is not beyond the end of the file (a
  write beyond the end may hit block 0, whoever owns it), a last byte at least a block below 4 GiB, and enough
  free blocks below the triple indirect level.
\<close>

theorem write_keeps_files:
  assumes "can_write F fs inode n h (write_at ap off inode) (length buf)"
    and "file_ok F fs other m" "owns fs other m \<inter> owns fs inode n = {}"
  shows "\<exists>upd inode' h' fs' F' n'. fd_write buf off ap inode h fs = Some (int (length buf), upd, inode', h', fs') \<and>
     file_ok F' fs' other m \<and> owns fs' other m \<inter> owns fs' inode' n' = {} \<and>
     (\<forall>p < unat (i_size other). file_bytes fs' other p = file_bytes fs other p)"
proof -
  obtain upd inode' h' n' fs' F' where w: "fd_write buf off ap inode h fs = Some (int (length buf), upd, inode', h', fs')"
    "grows_file F inode n fs F' inode' n' fs' (write_at ap off inode) buf"
    by (rule fd_write_ok [OF assms(1)])
  have "fs_ok F fs" "fs_ok F' fs'" "frame F fs (owns fs inode n) F' fs' (owns fs' inode' n')"
    using assms(1) w(2) by (auto simp: can_write_def grows_file_def)
  from frame_other [OF this assms(2,3)] show ?thesis using w(1) by blast
qed

definition other_file :: ext2_inode where
  "other_file = small_file\<lparr>i_block := (\<lambda>_. 0)(0 := 2)\<rparr>"

lemma one_block_ok:
  assumes "unat k < 3"
  shows "file_ok {} small_fs (small_file\<lparr>i_block := (\<lambda>_. 0)(0 := k)\<rparr>) 1" "owns small_fs (small_file\<lparr>i_block := (\<lambda>_. 0)(0 := k)\<rparr>) 1 = {k}"
proof -
  have p: "positions 1 = {(0, [])}" by (auto simp: positions_def route_def on_way_def)
  have n: "node fs (inode\<lparr>i_block := (\<lambda>_. 0)(0 := k)\<rparr>) (0, []) = Some k" for fs inode by (simp add: node_def)
  have "mapped {} small_fs (small_file\<lparr>i_block := (\<lambda>_. 0)(0 := k)\<rparr>) (positions 1)"
    using p n assms by (simp add: mapped_def closed_def index_blocks_def small_fs_allocated)
  then show "file_ok {} small_fs (small_file\<lparr>i_block := (\<lambda>_. 0)(0 := k)\<rparr>) 1"
    using small_file_maps by (simp add: file_ok_def inode_maps_def) (simp add: small_file_def)
  show "owns small_fs (small_file\<lparr>i_block := (\<lambda>_. 0)(0 := k)\<rparr>) 1 = {k}"
    using p n by (auto simp: owns_def)
qed

theorem write_keeps_files_witness:
  "\<exists>upd inode' h' fs'. fd_write [7, 8, 9] 0 True small_file FileStatus_new small_fs = Some (3, upd, inode', h', fs') \<and>
     file_bytes fs' other_file 5 = file_bytes small_fs other_file 5"
proof -
  have e: "small_file\<lparr>i_block := (\<lambda>_. 0)(0 := 1)\<rparr> = small_file" by (simp add: small_file_def)
  have o: "file_ok {} small_fs other_file 1" "owns small_fs other_file 1 = {2}" "owns small_fs small_file 1 = {1}"
    using one_block_ok [of 2] one_block_ok(2) [of 1] by (simp_all add: other_file_def e)
  have "5 < unat (i_size other_file)" by (simp add: other_file_def small_file_def)
  moreover have "owns small_fs other_file 1 \<inter> owns small_fs small_file 1 = {}" using o by simp
  ultimately show ?thesis using write_keeps_files [OF small_file_write o(1)] by fastforce
qed

text \<open>
  C5 (functional): \<open>copy_to_buf\<close> from an offset inside the file returns the bytes of the file from there, as many as it reports, and
  changes no content. The number is the smaller of the size asked for and what the file has left,
  unless the first block alone gives more.
\<close>

theorem read_returns_bytes:
  assumes "fs_ok F fs" "file_ok F fs inode n" "handle_ok fs inode n h" "off < unat (i_size inode)"
  shows "\<exists>h' fs'. copy_to_buf inode off sz h fs = Some (int (read_length off sz (unat (i_size inode))),
       map (file_bytes fs inode) [off ..< off + read_length off sz (unat (i_size inode))], h', fs') \<and>
     fs_ok F fs' \<and> file_ok F fs' inode n \<and> handle_ok fs' inode n h' \<and> (\<forall>p < unat (i_size inode). file_bytes fs' inode p = file_bytes fs inode p)"
proof -
  let ?l = "read_length off sz (unat (i_size inode))"
  obtain h' j fs' where r: "copy_to_buf inode off sz h fs = Some (int ?l, map (file_bytes fs inode) [off ..< off + ?l], h', fs')"
    "fs_reads F fs fs'" "at_block fs' inode h' j" "j < n" "\<not> cache_update_flag h'"
    by (rule copy_to_buf_ok [OF assms])
  show ?thesis
    using r(1) fs_reads_ok [OF r(2)] file_ok_reads [OF assms(2) r(2)] at_block_handle [OF r(3-5)]
      file_bytes_reads [OF assms(2,1) r(2) below_block] by blast
qed

theorem read_returns_bytes_witness:
  "\<exists>h' fs'. copy_to_buf small_file 98 3 FileStatus_new small_fs =
     Some (3, map (file_bytes small_fs small_file) [98, 99, 100], h', fs')"
proof -
  have z: "unat (i_size small_file) = 100" by (simp add: small_file_def)
  have l: "read_length 98 3 100 = 3" "[98 ..< 98 + 3] = [98, 99, 100]" by (simp_all add: read_length_def upt_rec)
  have "handle_ok small_fs small_file 1 FileStatus_new" by (simp add: handle_ok_def FileStatus_new_def)
  from read_returns_bytes [OF small_fs_ok small_file_ok this, of 98 3] show ?thesis unfolding z l by auto
qed

text \<open>
  C24 (bounds): a read whose range ends after the end of the file, in the block where it begins, is not cut at
  the size of the file: it returns bytes beyond it.
\<close>

theorem read_past_end:
  assumes "fs_ok F fs" "file_ok F fs inode n" "handle_ok fs inode n h" "off < unat (i_size inode)"
    "unat (i_size inode) < off + sz" "off mod 4096 + sz \<le> 4096"
  shows "\<exists>bs h' fs'. copy_to_buf inode off sz h fs = Some (int sz, bs, h', fs') \<and> unat (i_size inode) - off < length bs"
proof -
  let ?l = "read_length off sz (unat (i_size inode))"
  obtain h' j fs' where r: "copy_to_buf inode off sz h fs = Some (int ?l, map (file_bytes fs inode) [off ..< off + ?l], h', fs')"
    by (rule copy_to_buf_ok [OF assms(1-4)])
  have l: "?l = sz" using assms(4-6) by (simp add: read_length_def)
  then have "unat (i_size inode) - off < length (map (file_bytes fs inode) [off ..< off + ?l])" using assms(4,5) by simp
  then show ?thesis using r unfolding l by blast
qed

theorem read_past_end_witness:
  "\<exists>bs h' fs'. copy_to_buf small_file 98 3 FileStatus_new small_fs = Some (3, bs, h', fs') \<and> 2 < length bs"
proof -
  have "handle_ok small_fs small_file 1 FileStatus_new" by (simp add: handle_ok_def FileStatus_new_def)
  from read_past_end [OF small_fs_ok small_file_ok this, of 98 3] show ?thesis by (simp add: small_file_def)
qed

end
