(* ===== verification/File_Serve.thy ===== *)
theory File_Serve
  imports Fuse_Serve File_Append
begin

text \<open>
  Requests that read and write open files: all open files together behave as byte arrays, one per cached
  inode, whatever handles the requests come through. The invariant \<open>files_ok\<close> extends that of the open
  files by the block maps of the cached inodes and the pointers held by the handles.
\<close>

section \<open>Open files with their blocks\<close>

definition nblocks :: "ext2_inode \<Rightarrow> nat" where
  "nblocks inode = unat (i_blocks inode) div 8"

lemma file_ok_nblocks: "file_ok F fs inode n \<Longrightarrow> n = nblocks inode"
proof -
  assume "file_ok F fs inode n"
  then have n: "i_blocks inode = word_of_nat (n * 8)" "n * 8 < 2 ^ 32" by (simp_all add: file_ok_def inode_maps_def)
  have "unat (word_of_nat (n * 8) :: u32) = n * 8" by (simp only: unat_of_nat) (use n(2) in simp)
  then show ?thesis unfolding nblocks_def n(1) by simp
qed

definition files_ok :: "u32 set \<Rightarrow> op_state \<Rightarrow> bool" where
  "files_ok F s \<longleftrightarrow> op_ok s \<and> fs_ok F (op_fs s) \<and>
     (\<forall>a ic. op_ics s a = Some ic \<longrightarrow> file_ok F (op_fs s) (ic_cache ic) (nblocks (ic_cache ic))) \<and>
     (\<forall>fd f ic. op_fds s fd = Some f \<longrightarrow> op_ics s (fd_inode_cache f) = Some ic \<longrightarrow> handle_ok (op_fs s) (ic_cache ic) (nblocks (ic_cache ic)) f) \<and>
     (\<forall>a b ic jc. op_ics s a = Some ic \<longrightarrow> op_ics s b = Some jc \<longrightarrow> a \<noteq> b \<longrightarrow>
        owns (op_fs s) (ic_cache ic) (nblocks (ic_cache ic)) \<inter> owns (op_fs s) (ic_cache jc) (nblocks (ic_cache jc)) = {})"

lemma files_okD:
  assumes "files_ok F s"
  shows "op_ok s" "fs_ok F (op_fs s)" "\<And>a ic. op_ics s a = Some ic \<Longrightarrow> file_ok F (op_fs s) (ic_cache ic) (nblocks (ic_cache ic))"
    "\<And>fd f ic. op_fds s fd = Some f \<Longrightarrow> op_ics s (fd_inode_cache f) = Some ic \<Longrightarrow> handle_ok (op_fs s) (ic_cache ic) (nblocks (ic_cache ic)) f"
    "\<And>a b ic jc. op_ics s a = Some ic \<Longrightarrow> op_ics s b = Some jc \<Longrightarrow> a \<noteq> b \<Longrightarrow>
        owns (op_fs s) (ic_cache ic) (nblocks (ic_cache ic)) \<inter> owns (op_fs s) (ic_cache jc) (nblocks (ic_cache jc)) = {}"
  using assms unfolding files_ok_def by blast+

text \<open>The bytes of the cached inodes, and the inode of a handle.\<close>

definition contents :: "op_state \<Rightarrow> addr \<Rightarrow> byte list" where
  "contents s a = (case op_ics s a of None \<Rightarrow> []
     | Some ic \<Rightarrow> map (file_bytes (op_fs s) (ic_cache ic)) [0 ..< unat (i_size (ic_cache ic))])"

definition owner :: "op_state \<Rightarrow> addr \<Rightarrow> addr option" where
  "owner s fd = map_option fd_inode_cache (op_fds s fd)"

section \<open>Reads and writes of one handle\<close>

lemma handle_flag: "handle_ok fs inode n g \<Longrightarrow> handle_ok fs inode n (g\<lparr>cache_update_flag := True\<rparr>)"
  by (auto simp: handle_ok_def)

lemma flag_all_fds:
  assumes "\<forall>x \<in> set v. op_fds s x \<noteq> None"
  shows "flag_all v s = Some (s\<lparr>op_fds := \<lambda>x. if x \<in> set v then map_option (\<lambda>f. f\<lparr>cache_update_flag := True\<rparr>) (op_fds s x) else op_fds s x\<rparr>)"
  using assms
proof (induction v arbitrary: s)
  case (Cons a v)
  then obtain f where f: "op_fds s a = Some f" by auto
  then have "\<forall>x \<in> set v. op_fds (set_fd a (f\<lparr>cache_update_flag := True\<rparr>) s) x \<noteq> None" using Cons.prems by (simp add: set_fd_def)
  from Cons.IH [OF this] show ?case using f by (auto simp: set_fd_def fun_eq_iff option.map_comp)
qed simp

text \<open>Handles of a file whose blocks are not touched.\<close>

lemma frame_handle:
  assumes s: "fs_ok F' fs'" and g: "frame F fs A F' fs' A'" and f: "file_ok F fs inode n" and d: "owns fs inode n \<inter> A = {}"
  shows "owns fs' inode n = owns fs inode n" "handle_ok fs inode n h \<Longrightarrow> handle_ok fs' inode n h"
proof -
  have st: "step F A fs F' fs'" using g s by (simp add: frame_def step_def)
  have m: "mapped F fs inode (positions n)" using file_ok_maps [OF f] by blast
  have ps: "pointers_stay fs fs' inode (positions n) A" by (rule pointers_stay_disjoint) (use index_blocks_owns [OF m] d in blast)
  show "owns fs' inode n = owns fs inode n" using mapped_step(2) [OF m st ps] by (auto simp: owns_def)
  assume h: "handle_ok fs inode n h"
  show "handle_ok fs' inode n h"
  proof (cases "cache_update_flag h \<or> unat (block_id_in_file h) < 1036")
    case False
    then have b: "unat (block_id_in_file h) < n" "at_block fs inode h (unat (block_id_in_file h))" using h by (auto simp: handle_ok_def)
    show ?thesis using b(1) at_block_step [OF b(2) m route_positions [OF b(1)] st ps] by (simp add: handle_ok_def)
  qed (use h in \<open>auto simp: handle_ok_def\<close>)
qed

text \<open>
  The state after one file has changed: what is left to show is that the handles of that file are in order.
\<close>

lemma files_ok_change:
  assumes ok: "files_ok F s" and ic: "op_ics s a = Some ic"
    and g: "grows_file F (ic_cache ic) (nblocks (ic_cache ic)) (op_fs s) F' inode' n' fs' off bs"
    and s': "op_ok s'" "op_fs s' = fs'" "op_ics s' = (op_ics s)(a \<mapsto> ic\<lparr>ic_cache := inode'\<rparr>)"
    and h: "\<And>fd f. op_fds s' fd = Some f \<Longrightarrow> fd_inode_cache f \<noteq> a \<Longrightarrow> op_fds s fd = Some f"
      "\<And>fd f. op_fds s' fd = Some f \<Longrightarrow> fd_inode_cache f = a \<Longrightarrow> handle_ok fs' inode' n' f"
  shows "files_ok F' s'"
proof -
  note o = files_okD [OF ok]
  have fr: "fs_ok F' fs'" "frame F (op_fs s) (owns (op_fs s) (ic_cache ic) (nblocks (ic_cache ic))) F' fs' (owns fs' inode' n')" "file_ok F' fs' inode' n'"
    using g by (simp_all add: grows_file_def)
  have n': "n' = nblocks inode'" by (rule file_ok_nblocks [OF fr(3)])
  have dis: "owns (op_fs s) (ic_cache jc) (nblocks (ic_cache jc)) \<inter> owns (op_fs s) (ic_cache ic) (nblocks (ic_cache ic)) = {}"
    if "op_ics s b = Some jc" "b \<noteq> a" for b jc by (rule o(5) [OF that(1) ic that(2)])
  have other: "file_ok F' fs' (ic_cache jc) (nblocks (ic_cache jc)) \<and> owns fs' (ic_cache jc) (nblocks (ic_cache jc)) \<inter> owns fs' inode' n' = {}"
    if "op_ics s b = Some jc" "b \<noteq> a" for b jc using frame_other [OF o(2) fr(1,2) o(3) [OF that(1)] dis [OF that]] by blast
  note hd = frame_handle [OF fr(1,2) o(3) dis]
  show ?thesis
    unfolding files_ok_def
  proof (intro conjI allI impI)
    show "op_ok s'" "fs_ok F' (op_fs s')" using s' fr(1) by simp_all
    show "file_ok F' (op_fs s') (ic_cache jc) (nblocks (ic_cache jc))" if "op_ics s' b = Some jc" for b jc
      using that s' n' fr(3) other [of b jc] by (auto split: if_splits)
    show "handle_ok (op_fs s') (ic_cache jc) (nblocks (ic_cache jc)) f" if "op_fds s' fd = Some f" "op_ics s' (fd_inode_cache f) = Some jc" for fd f jc
    proof (cases "fd_inode_cache f = a")
      case True
      then show ?thesis using h(2) [OF that(1)] that(2) s'(2,3) n' by auto
    next
      case False
      then have j: "op_ics s (fd_inode_cache f) = Some jc" using that(2) s'(3) by simp
      show ?thesis unfolding s'(2) by (rule hd(2) [OF j j False o(4) [OF h(1) [OF that(1) False] j]])
    qed
    show "owns (op_fs s') (ic_cache jc) (nblocks (ic_cache jc)) \<inter> owns (op_fs s') (ic_cache kc) (nblocks (ic_cache kc)) = {}"
      if j: "op_ics s' b = Some jc" "op_ics s' c = Some kc" "b \<noteq> c" for b c jc kc
    proof -
      consider "b = a" "op_ics s c = Some kc" "c \<noteq> a" | "c = a" "op_ics s b = Some jc" "b \<noteq> a"
        | "op_ics s b = Some jc" "op_ics s c = Some kc" "b \<noteq> a" "c \<noteq> a" using j s'(3) by (auto split: if_splits)
      then show ?thesis
      proof cases
        case 1
        then show ?thesis using j(1) s'(2,3) n' other [of c kc] by auto
      next
        case 2
        then show ?thesis using j(2) s'(2,3) n' other [of b jc] by auto
      next
        case 3
        then show ?thesis using o(5) [OF 3(1,2) j(3)] hd(1) [OF 3(1,1,3)] hd(1) [OF 3(2,2,4)] s'(2) by simp
      qed
    qed
  qed
qed

text \<open>The byte array of the file that changed; the others stay.\<close>

definition overwrite :: "byte list \<Rightarrow> nat \<Rightarrow> byte list \<Rightarrow> byte list" where
  "overwrite c off bs = take off c @ bs @ drop (off + length bs) c"

lemma overwrite_nth:
  assumes "off \<le> length c" "i < max (length c) (off + length bs)"
  shows "overwrite c off bs ! i = (if off \<le> i \<and> i < off + length bs then bs ! (i - off) else c ! i)"
proof -
  consider "i < off" | "off \<le> i" "i < off + length bs" | "off + length bs \<le> i" "i < length c" using assms by linarith
  then show ?thesis
  proof cases
    case 2
    then have "i - off < length bs" by linarith
    then show ?thesis using assms(1) 2 by (simp add: overwrite_def nth_append)
  next
    case 3
    then have "\<not> i - off < length bs" "\<not> i < off" "off + length bs + (i - off - length bs) = i" by linarith+
    then show ?thesis using assms(1) 3 by (simp add: overwrite_def nth_append)
  qed (use assms(1) in \<open>simp add: overwrite_def nth_append\<close>)
qed

lemma overwrite_bytes:
  assumes "stored_at inode fs inode' fs' off bs"
  shows "map (file_bytes fs' inode') [0 ..< unat (i_size inode')] = overwrite (map (file_bytes fs inode) [0 ..< unat (i_size inode)]) off bs"
proof (rule nth_equalityI)
  have st: "off \<le> unat (i_size inode)" "unat (i_size inode') = max (unat (i_size inode)) (off + length bs)"
    "\<And>p. p < unat (i_size inode') \<Longrightarrow> file_bytes fs' inode' p = (if off \<le> p \<and> p < off + length bs then bs ! (p - off) else file_bytes fs inode p)"
    using assms by (simp_all add: stored_at_def)
  show "length (map (file_bytes fs' inode') [0 ..< unat (i_size inode')]) = length (overwrite (map (file_bytes fs inode) [0 ..< unat (i_size inode)]) off bs)"
    using st(1,2) by (simp add: overwrite_def max_def)
  fix i assume "i < length (map (file_bytes fs' inode') [0 ..< unat (i_size inode')])"
  then have i: "i < unat (i_size inode')" by simp
  then show "map (file_bytes fs' inode') [0 ..< unat (i_size inode')] ! i = overwrite (map (file_bytes fs inode) [0 ..< unat (i_size inode)]) off bs ! i"
    using st(1,2) st(3) [OF i] by (subst overwrite_nth) (auto simp: max_def split: if_splits)
qed

lemma contents_change:
  assumes ok: "files_ok F s" and ic: "op_ics s a = Some ic"
    and g: "grows_file F (ic_cache ic) (nblocks (ic_cache ic)) (op_fs s) F' inode' n' fs' off bs"
    and s': "op_fs s' = fs'" "op_ics s' = (op_ics s)(a \<mapsto> ic\<lparr>ic_cache := inode'\<rparr>)"
  shows "contents s' = (contents s)(a := overwrite (contents s a) off bs)"
proof
  fix b
  note o = files_okD [OF ok]
  have fr: "fs_ok F' fs'" "frame F (op_fs s) (owns (op_fs s) (ic_cache ic) (nblocks (ic_cache ic))) F' fs' (owns fs' inode' n')"
    "stored_at (ic_cache ic) (op_fs s) inode' fs' off bs"
    using g by (simp_all add: grows_file_def)
  show "contents s' b = ((contents s)(a := overwrite (contents s a) off bs)) b"
  proof (cases "b = a")
    case True
    then show ?thesis using ic s' overwrite_bytes [OF fr(3)] by (simp add: contents_def)
  next
    case False
    show ?thesis
    proof (cases "op_ics s b")
      case (Some jc)
      have "file_bytes fs' (ic_cache jc) p = file_bytes (op_fs s) (ic_cache jc) p" if "p < unat (i_size (ic_cache jc))" for p
        using frame_other [OF o(2) fr(1,2) o(3) [OF Some] o(5) [OF Some ic False]] that by blast
      then show ?thesis using False s' Some by (simp add: contents_def)
    qed (use False s' in \<open>simp add: contents_def\<close>)
  qed
qed

lemma handle_owner:
  assumes "files_ok F s" "op_fds s fd = Some f"
  obtains ic where "op_ics s (fd_inode_cache f) = Some ic" "fd \<in> set (ic_vec ic)"
    "\<forall>x \<in> set (ic_vec ic). \<exists>g. op_fds s x = Some g \<and> fd_inode_cache g = fd_inode_cache f"
proof -
  have i: "op_inv (\<lambda>_. 0) s" using files_okD(1) [OF assms(1)] by (simp add: op_ok_def)
  obtain ic where ic: "op_ics s (fd_inode_cache f) = Some ic" "fd \<in> set (ic_vec ic)" by (rule op_inv_fd [OF i assms(2)])
  have "\<forall>x \<in> set (ic_vec ic). \<exists>g. op_fds s x = Some g \<and> fd_inode_cache g = fd_inode_cache f"
    using op_inv_vec(1) [OF i ic(1)] unfolding handles_ok_def by blast
  then show thesis using that ic by blast
qed

text \<open>The state that \<open>write\<close> leaves: the handle and the inode are replaced, and if the inode changed all its handles are flagged.\<close>

definition written :: "bool \<Rightarrow> addr \<Rightarrow> file_status \<Rightarrow> inode_cache \<Rightarrow> ext2_inode \<Rightarrow> fs \<Rightarrow> op_state \<Rightarrow> op_state" where
  "written upd fd f' ic inode' fs' s = (set_ic (fd_inode_cache f') (ic\<lparr>ic_cache := inode'\<rparr>) (set_fs fs' (set_fd fd f' s)))
     \<lparr>op_fds := \<lambda>y. if upd \<and> y \<in> set (ic_vec ic) then map_option (\<lambda>f. f\<lparr>cache_update_flag := True\<rparr>) (((op_fds s)(fd \<mapsto> f')) y)
                  else ((op_fds s)(fd \<mapsto> f')) y\<rparr>"

lemma written_simps [simp]:
  "op_fs (written upd fd f' ic inode' fs' s) = fs'"
  "op_ics (written upd fd f' ic inode' fs' s) = (op_ics s)(fd_inode_cache f' \<mapsto> ic\<lparr>ic_cache := inode'\<rparr>)"
  "op_fds (written upd fd f' ic inode' fs' s) y = (if upd \<and> y \<in> set (ic_vec ic) then map_option (\<lambda>f. f\<lparr>cache_update_flag := True\<rparr>) (((op_fds s)(fd \<mapsto> f')) y)
     else ((op_fds s)(fd \<mapsto> f')) y)"
  by (simp_all add: written_def set_ic_def set_fd_def set_fs_def)

lemma fuse_write_written:
  assumes f: "op_fds s fd = Some f" "op_ics s (fd_inode_cache f) = Some ic" "\<forall>y \<in> set (ic_vec ic). op_fds s y \<noteq> None"
    and fl: "flags AND O_ACCMODE \<noteq> O_RDONLY" "buf \<noteq> []"
    and w: "fd_write buf off (flags AND O_APPEND \<noteq> 0) (ic_cache ic) f (op_fs s) = Some (ret, upd, inode', f', fs')"
  shows "fuse_write buf off flags (Some fd) s = Some (ret, written upd fd f' ic inode' fs' s)" "fd_inode_cache f' = fd_inode_cache f"
proof -
  show fo: "fd_inode_cache f' = fd_inode_cache f" using fd_write_owner [OF w] by (simp add: same_owner_def)
  let ?s1 = "set_ic (fd_inode_cache f') (ic\<lparr>ic_cache := inode'\<rparr>) (set_fs fs' (set_fd fd f' s))"
  have s1: "op_fds ?s1 = (op_fds s)(fd \<mapsto> f')" "op_ics ?s1 (fd_inode_cache f') = Some (ic\<lparr>ic_cache := inode'\<rparr>)"
    by (simp_all add: set_ic_def set_fd_def set_fs_def)
  have "(if upd then ic_upd_all (fd_inode_cache f') ?s1 else Some ?s1) = Some (written upd fd f' ic inode' fs' s)"
  proof (cases upd)
    case True
    have "\<forall>y \<in> set (ic_vec ic). op_fds ?s1 y \<noteq> None" using f(3) unfolding s1(1) by auto
    then show ?thesis using flag_all_fds [of "ic_vec ic" ?s1] True unfolding ic_upd_all_def s1 written_def by simp
  next
    case False
    then show ?thesis unfolding written_def by (simp add: set_ic_def set_fd_def set_fs_def fun_eq_iff)
  qed
  then show "fuse_write buf off flags (Some fd) s = Some (ret, written upd fd f' ic inode' fs' s)"
    using f(1,2) fl w fo by (cases upd) (simp_all add: fuse_write_def Let_def)
qed

lemma written_owner: "op_fds s fd = Some f \<Longrightarrow> fd_inode_cache f' = fd_inode_cache f \<Longrightarrow> owner (written upd fd f' ic inode' fs' s) = owner s"
  by (auto simp: owner_def fun_eq_iff option.map_comp comp_def)

text \<open>Its handles: those of the file were flagged, or the pointers they hold are still current.\<close>

lemma written_handle:
  assumes ok: "files_ok F s" and f: "op_fds s fd = Some f" "op_ics s (fd_inode_cache f) = Some ic" "fd_inode_cache f' = fd_inode_cache f"
    and h: "handle_ok fs' inode' n' f'" "other_handles upd (op_fs s) (ic_cache ic) (nblocks (ic_cache ic)) fs' inode' n'"
    and g: "op_fds (written upd fd f' ic inode' fs' s) y = Some g" "fd_inode_cache g = fd_inode_cache f"
  shows "handle_ok fs' inode' n' g"
proof -
  obtain g0 where g0: "((op_fds s)(fd \<mapsto> f')) y = Some g0" "g = (if upd \<and> y \<in> set (ic_vec ic) then g0\<lparr>cache_update_flag := True\<rparr> else g0)"
    using g(1) by (auto split: if_splits)
  then have a0: "fd_inode_cache g0 = fd_inode_cache f" using g(2) by (simp split: if_splits)
  show ?thesis
  proof (cases "y = fd")
    case True
    then show ?thesis using g0 h(1) handle_flag by auto
  next
    case False
    then have y: "op_fds s y = Some g0" using g0(1) by simp
    then have "y \<in> set (ic_vec ic)" using handle_owner [OF ok y] a0 f(2) by (metis option.inject)
    moreover have "handle_ok (op_fs s) (ic_cache ic) (nblocks (ic_cache ic)) g0" using files_okD(4) [OF ok y] a0 f(2) by simp
    ultimately show ?thesis using h(2) g0(2) handle_flag unfolding other_handles_def by (cases upd) auto
  qed
qed

lemma serve_write:
  assumes ok: "files_ok F s" and f: "op_fds s fd = Some f" and ic: "op_ics s (fd_inode_cache f) = Some ic"
    and fl: "flags AND O_ACCMODE \<noteq> O_RDONLY" "buf \<noteq> []" and at: "at = write_at (flags AND O_APPEND \<noteq> 0) off (ic_cache ic)"
    and sz: "at \<le> unat (i_size (ic_cache ic))" "at + length buf + 4096 \<le> 2 ^ 32"
    and r: "nblocks (ic_cache ic) + length buf div 4096 + 2 \<le> 1049612" "room (op_fs s) ((length buf div 4096 + 2) * 3 + x)"
  obtains s' F' inode' where "serve (Write buf off flags (Some fd)) s = Some (Code (int (length buf)), s')" "files_ok F' s'" "owner s' = owner s"
    "contents s' = (contents s)(fd_inode_cache f := overwrite (contents s (fd_inode_cache f)) at buf)" "room (op_fs s') x"
    "op_ics s' = (op_ics s)(fd_inode_cache f \<mapsto> ic\<lparr>ic_cache := inode'\<rparr>)" "nblocks inode' \<le> nblocks (ic_cache ic) + length buf div 4096 + 2"
proof -
  let ?a = "fd_inode_cache f" and ?n = "nblocks (ic_cache ic)"
  note o = files_okD [OF ok]
  have "room (op_fs s) ((length buf div 4096 + 2) * 3)" using room_less [OF r(2)] by simp
  then have c: "can_write F (op_fs s) (ic_cache ic) ?n f at (length buf)"
    using o(2,3,4) f ic sz r(1) fl(2) unfolding can_write_def by auto
  obtain upd inode' f' n' fs' F' where w: "fd_write buf off (flags AND O_APPEND \<noteq> 0) (ic_cache ic) f (op_fs s) = Some (int (length buf), upd, inode', f', fs')"
    "grows_file F (ic_cache ic) ?n (op_fs s) F' inode' n' fs' at buf" "handle_ok fs' inode' n' f'" "n' \<le> ?n + length buf div 4096 + 2" "room fs' x"
    "other_handles upd (op_fs s) (ic_cache ic) ?n fs' inode' n'"
    unfolding at by (rule fd_write_room [OF c [unfolded at] r(2)])
  let ?s = "written upd fd f' ic inode' fs' s"
  have v: "fd \<in> set (ic_vec ic)" "\<forall>y \<in> set (ic_vec ic). \<exists>g. op_fds s y = Some g \<and> fd_inode_cache g = ?a"
    using handle_owner [OF ok f] ic by (metis option.inject)+
  then have "\<forall>y \<in> set (ic_vec ic). op_fds s y \<noteq> None" by auto
  note sv = fuse_write_written [OF f ic this fl w(1)]
  have ics: "op_ics ?s = (op_ics s)(?a \<mapsto> ic\<lparr>ic_cache := inode'\<rparr>)" using sv(2) by simp
  show thesis
  proof (rule that [OF _ _ _ _ _ ics])
    show "serve (Write buf off flags (Some fd)) s = Some (Code (int (length buf)), ?s)" using sv(1) by (simp add: serve_def)
    show "files_ok F' ?s"
    proof (rule files_ok_change [OF ok ic w(2) fuse_write_ok [OF o(1) sv(1)] _ ics])
      show "op_fds s y = Some g" if "op_fds ?s y = Some g" "fd_inode_cache g \<noteq> ?a" for y g
        using that v sv(2) by (auto split: if_splits)
    qed (simp_all add: written_handle [OF ok f ic sv(2) w(3,6)] del: written_simps(3))
    show "owner ?s = owner s" by (rule written_owner [OF f sv(2)])
    show "contents ?s = (contents s)(?a := overwrite (contents s ?a) at buf)" by (rule contents_change [OF ok ic w(2) _ ics]) simp
    show "nblocks inode' \<le> ?n + length buf div 4096 + 2"
      using w(2,4) file_ok_nblocks [of F' fs' inode' n'] by (simp add: grows_file_def)
  qed (simp add: w(5))
qed

text \<open>
  A read changes no content and no other handle. It gives the bytes of the file from the offset, cut at the
  end of the file, unless it begins in the last block of the file and runs past the end: the first block
  is copied without looking at the size.
\<close>

definition reads_exactly :: "nat \<Rightarrow> nat \<Rightarrow> nat \<Rightarrow> bool" where
  "reads_exactly sz off len \<longleftrightarrow> len \<le> off \<or> off + sz \<le> len \<or> (off div 4096 + 1) * 4096 \<le> len"

lemma read_length_exact:
  assumes "off < len" "reads_exactly sz off len"
  shows "read_length off sz len = min sz (len - off)"
proof (cases "off + sz \<le> len")
  case False
  then have "(off div 4096 + 1) * 4096 \<le> len" using assms by (simp add: reads_exactly_def)
  moreover have "off div 4096 * 4096 + off mod 4096 = off" "off mod 4096 < 4096" by simp_all
  ultimately have "4096 - off mod 4096 \<le> len - off" by (simp only: add_mult_distrib)
  then show ?thesis by (simp add: read_length_def max_def min_def)
next
  case True
  then have "sz \<le> len - off" by linarith
  then show ?thesis unfolding read_length_def by linarith
qed

lemma take_upt_min: "take sz [off ..< len] = [off ..< off + min sz (len - off)]"
  by (rule nth_equalityI) (auto simp: nth_upt)

lemma serve_read:
  assumes ok: "files_ok F s" and f: "op_fds s fd = Some f" and ic: "op_ics s (fd_inode_cache f) = Some ic"
    and fl: "flags AND O_ACCMODE \<noteq> O_WRONLY" and sz: "off < unat (i_size (ic_cache ic))" "reads_exactly sz off (unat (i_size (ic_cache ic)))"
    and bs: "bs = take sz (drop off (contents s (fd_inode_cache f)))"
  obtains s' where "serve (Read sz off flags (Some fd)) s = Some (Data (int (length bs)) bs, s')"
    "files_ok F s'" "owner s' = owner s" "contents s' = contents s" "room (op_fs s') = room (op_fs s)" "op_ics s' = op_ics s"
proof -
  let ?a = "fd_inode_cache f" and ?n = "nblocks (ic_cache ic)" and ?i = "ic_cache ic"
  let ?l = "min sz (unat (i_size ?i) - off)"
  note o = files_okD [OF ok]
  have out: "bs = map (file_bytes (op_fs s) ?i) [off ..< off + ?l]" using ic by (simp add: bs contents_def drop_map take_map take_upt_min)
  then have len: "length bs = ?l" by simp
  obtain f' j fs' where r: "copy_to_buf ?i off sz f (op_fs s) = Some (int (length bs), bs, f', fs')"
    "fs_reads F (op_fs s) fs'" "at_block fs' ?i f' j" "j < ?n" "\<not> cache_update_flag f'"
    by (rule copy_to_buf_ok [OF o(2) o(3) [OF ic] o(4) [OF f ic] sz(1), of sz, unfolded read_length_exact [OF sz]])
      (rule that, simp_all add: out)
  have fo: "fd_inode_cache f' = ?a" using copy_to_buf_owner [OF r(1)] by (simp add: same_owner_def)
  have g: "grows_file F ?i ?n (op_fs s) F ?i ?n fs' off []" by (rule grows_reads [OF o(2) o(3) [OF ic] r(2)]) (use sz in simp)
  let ?s = "set_fs fs' (set_fd fd f' s)"
  have sv: "fuse_read sz off flags (Some fd) s = Some (int (length bs), bs, ?s)"
    using fl f ic r(1) by (simp add: fuse_read_def)
  have fields: "op_fs ?s = fs'" "op_ics ?s = (op_ics s)(?a \<mapsto> ic\<lparr>ic_cache := ?i\<rparr>)" "op_fds ?s = (op_fds s)(fd \<mapsto> f')" "op_ics ?s = op_ics s"
    using ic by (auto simp: set_fd_def fun_upd_idem)
  have fr: "frame F (op_fs s) {} F fs' {}" by (rule step_frame [OF reads_step [OF r(2)]]) simp
  show thesis
  proof (rule that [OF _ _ _ _ _ fields(4)])
    show "serve (Read sz off flags (Some fd)) s = Some (Data (int (length bs)) bs, ?s)" using sv by (simp add: serve_def)
    show "files_ok F ?s"
    proof (rule files_ok_change [OF ok ic g fuse_read_ok [OF o(1) sv] fields(1,2)])
      show "op_fds s y = Some h" if "op_fds ?s y = Some h" "fd_inode_cache h \<noteq> ?a" for y h
        using that fo unfolding fields(3) by (auto split: if_splits)
      show "handle_ok fs' ?i ?n h" if "op_fds ?s y = Some h" "fd_inode_cache h = ?a" for y h
        using that ic at_block_handle [OF r(3-5)] frame_handle(2) [OF fs_reads_ok [OF r(2)] fr o(3) [OF ic]] o(4) [of y h] unfolding fields(3)
        by (auto split: if_splits)
    qed
    show "owner ?s = owner s" unfolding owner_def fields(3) using fo f by (auto simp: fun_eq_iff)
    show "contents ?s = contents s" using contents_change [OF ok ic g fields(1,2)] by (simp add: overwrite_def)
    show "room (op_fs ?s) = room (op_fs s)"
      unfolding fields(1) by (rule ext) (rule room_same [OF fs_reads_meta [OF r(2)] fs_reads_allocated [OF r(2)]])
  qed
qed

section \<open>Sequences of requests\<close>

text \<open>
  The specification: a byte array per cached inode, \<open>own\<close> says which handle belongs to which. A read or
  write without handle, or through a handle that is not open for the access, is refused. A request
  outside the specification is \<open>None\<close>: one through a dangling handle, a read that begins in the last
  block of the file and runs past the end, a write that starts beyond the end or ends near 4 GiB.
\<close>

fun array_step :: "(addr \<Rightarrow> addr option) \<Rightarrow> request \<Rightarrow> (addr \<Rightarrow> byte list) \<Rightarrow> (reply \<times> (addr \<Rightarrow> byte list)) option" where
  "array_step own (Read sz off flags None) m = Some (Data (- EINVAL) [], m)"
| "array_step own (Read sz off flags (Some fd)) m = (case own fd of None \<Rightarrow> None
     | Some a \<Rightarrow> let bs = take sz (drop off (m a)) in
         if flags AND O_ACCMODE = O_WRONLY then Some (Data (- EINVAL) [], m)
         else if reads_exactly sz off (length (m a)) then Some (Data (int (length bs)) bs, m)
         else None)"
| "array_step own (Write buf off flags None) m = Some (Code (- EBADF), m)"
| "array_step own (Write buf off flags (Some fd)) m = (case own fd of None \<Rightarrow> None
     | Some a \<Rightarrow> let at = if flags AND O_APPEND \<noteq> 0 then length (m a) else off in
         if flags AND O_ACCMODE = O_RDONLY then Some (Code (- EACCES), m)
         else if buf = [] then Some (Code 0, m)
         else if at \<le> length (m a) \<and> at + length buf + 4096 \<le> 2 ^ 32
         then Some (Code (int (length buf)), m(a := overwrite (m a) at buf))
         else None)"
| "array_step own r m = None"

text \<open>Blocks a request may take, not counting those for pointers.\<close>

fun cost :: "request \<Rightarrow> nat" where
  "cost (Write buf off flags fh) = length buf div 4096 + 2"
| "cost r = 0"

definition enough_blocks :: "op_state \<Rightarrow> nat \<Rightarrow> bool" where
  "enough_blocks s k \<longleftrightarrow> room (op_fs s) (k * 3) \<and> (\<forall>a ic. op_ics s a = Some ic \<longrightarrow> nblocks (ic_cache ic) + k \<le> 1049612)"

lemma enough_blocks_mono: "enough_blocks s k \<Longrightarrow> j \<le> k \<Longrightarrow> enough_blocks s j"
  using room_less [of "op_fs s" "k * 3" "j * 3"] unfolding enough_blocks_def by (meson add_left_mono mult_le_mono1 order_trans)

lemma array_read_serve:
  assumes ok: "files_ok F s" and st: "array_step (owner s) (Read sz off flags fh) (contents s) = Some (q, m)" and fit: "enough_blocks s k"
  obtains s' where "serve (Read sz off flags fh) s = Some (q, s')" "files_ok F s'" "owner s' = owner s" "contents s' = m" "enough_blocks s' k"
proof (cases fh)
  case None
  then show ?thesis using that [of s] st ok fit by (auto simp: serve_def fuse_read_def)
next
  case (Some fd)
  obtain f where f: "op_fds s fd = Some f" using st Some by (cases "op_fds s fd") (auto simp: owner_def)
  obtain ic where ic: "op_ics s (fd_inode_cache f) = Some ic" by (rule handle_owner [OF ok f])
  have own: "owner s fd = Some (fd_inode_cache f)" using f by (simp add: owner_def)
  have len: "length (contents s (fd_inode_cache f)) = unat (i_size (ic_cache ic))" using ic by (simp add: contents_def)
  show ?thesis
  proof (cases "flags AND O_ACCMODE = O_WRONLY")
    case True
    then show ?thesis using that [of s] st ok fit own by (auto simp: Some serve_def fuse_read_def)
  next
    case False
    let ?bs = "take sz (drop off (contents s (fd_inode_cache f)))"
    have p: "reads_exactly sz off (unat (i_size (ic_cache ic)))" "q = Data (int (length ?bs)) ?bs" "m = contents s"
      using st own len False by (auto simp: Some Let_def split: if_splits)
    show ?thesis
    proof (cases "off < unat (i_size (ic_cache ic))")
      case True
      show ?thesis
        by (rule serve_read [OF ok f ic False True p(1) refl]) (use that p(2,3) fit in \<open>auto simp: Some enough_blocks_def\<close>)
    next
      case past: False
      then have "?bs = []" using len by simp
      then have q: "q = Data 0 []" using p(2) by (simp only: list.size int_ops)
      have "set_fs (op_fs s) (set_fd fd f s) = s" using f by (simp add: set_fs_def set_fd_def fun_upd_idem)
      then have "serve (Read sz off flags (Some fd)) s = Some (q, s)"
        using past False f ic q by (simp add: serve_def fuse_read_def copy_to_buf_def)
      then show ?thesis using that [of s] ok fit p(3) by (simp add: Some)
    qed
  qed
qed

lemma array_write_serve:
  assumes ok: "files_ok F s" and st: "array_step (owner s) (Write buf off flags fh) (contents s) = Some (q, m)"
    and fit: "enough_blocks s (length buf div 4096 + 2 + k)"
  obtains s' F' where "serve (Write buf off flags fh) s = Some (q, s')" "files_ok F' s'" "owner s' = owner s" "contents s' = m" "enough_blocks s' k"
proof (cases fh)
  case None
  then show ?thesis using that [of s F] st ok enough_blocks_mono [OF fit, of k] by (auto simp: serve_def fuse_write_def)
next
  case (Some fd)
  obtain f where f: "op_fds s fd = Some f" using st Some by (cases "op_fds s fd") (auto simp: owner_def)
  obtain ic where ic: "op_ics s (fd_inode_cache f) = Some ic" by (rule handle_owner [OF ok f])
  have own: "owner s fd = Some (fd_inode_cache f)" using f by (simp add: owner_def)
  have len: "length (contents s (fd_inode_cache f)) = unat (i_size (ic_cache ic))" using ic by (simp add: contents_def)
  show ?thesis
  proof (cases "flags AND O_ACCMODE = O_RDONLY \<or> buf = []")
    case True
    then show ?thesis using that [of s F] st ok enough_blocks_mono [OF fit, of k] own
      by (cases "flags AND O_ACCMODE = O_RDONLY") (auto simp: Some serve_def fuse_write_def Let_def)
  next
    case False
    let ?at = "write_at (flags AND O_APPEND \<noteq> 0) off (ic_cache ic)"
    have p: "flags AND O_ACCMODE \<noteq> O_RDONLY" "buf \<noteq> []" "?at \<le> unat (i_size (ic_cache ic))" "?at + length buf + 4096 \<le> 2 ^ 32"
      "q = Code (int (length buf))" "m = (contents s)(fd_inode_cache f := overwrite (contents s (fd_inode_cache f)) ?at buf)"
      using False st own len by (auto simp: Some Let_def write_at_def split: if_splits)
    have rm: "nblocks (ic_cache ic) + length buf div 4096 + 2 \<le> 1049612" "room (op_fs s) ((length buf div 4096 + 2) * 3 + k * 3)"
      using fit ic by (fastforce simp: enough_blocks_def algebra_simps)+
    show ?thesis
    proof (rule serve_write [OF ok f ic p(1,2) refl p(3,4) rm])
      fix s' F' inode'
      assume w: "serve (Write buf off flags (Some fd)) s = Some (Code (int (length buf)), s')" "files_ok F' s'" "owner s' = owner s"
        "contents s' = (contents s)(fd_inode_cache f := overwrite (contents s (fd_inode_cache f)) ?at buf)" "room (op_fs s') (k * 3)"
        "op_ics s' = (op_ics s)(fd_inode_cache f \<mapsto> ic\<lparr>ic_cache := inode'\<rparr>)" "nblocks inode' \<le> nblocks (ic_cache ic) + length buf div 4096 + 2"
      have nb: "nblocks (ic_cache jc) + (length buf div 4096 + 2 + k) \<le> 1049612" if "op_ics s b = Some jc" for b jc
        using fit that unfolding enough_blocks_def by simp
      have "nblocks (ic_cache jc) + k \<le> 1049612" if "op_ics s' b = Some jc" for b jc
        using that nb [OF ic] nb [of b jc] w(7) unfolding w(6) by (cases "b = fd_inode_cache f") auto
      then have "enough_blocks s' k" using w(5) unfolding enough_blocks_def by blast
      then show ?thesis using that w(1-4) p(5,6) by (simp add: Some)
    qed
  qed
qed

lemma array_step_serve:
  assumes ok: "files_ok F s" and st: "array_step (owner s) r (contents s) = Some (q, m)" and fit: "enough_blocks s (cost r + k)"
  obtains s' F' where "serve r s = Some (q, s')" "files_ok F' s'" "owner s' = owner s" "contents s' = m" "enough_blocks s' k"
proof (cases r)
  case (Read sz off flags fh)
  show ?thesis by (rule array_read_serve [OF ok st [unfolded Read], of k]) (use fit that in \<open>auto simp: Read\<close>)
next
  case (Write buf off flags fh)
  show ?thesis by (rule array_write_serve [OF ok st [unfolded Write], of k]) (use fit that in \<open>auto simp: Write\<close>)
qed (use st in simp_all)

lemma array_run_serve:
  assumes "files_ok F s" "run_ops (array_step (owner s)) rs (contents s) = Some (qs, m)" "enough_blocks s (sum_list (map cost rs))"
  shows "\<exists>s' F'. run_ops serve rs s = Some (qs, s') \<and> contents s' = m \<and> files_ok F' s'"
  using assms
proof (induction rs arbitrary: s F qs)
  case (Cons r rs)
  obtain q m1 ps where c: "array_step (owner s) r (contents s) = Some (q, m1)" "run_ops (array_step (owner s)) rs m1 = Some (ps, m)" "qs = q # ps"
    using Cons.prems(2) by (auto split: bind_splits)
  have fit: "enough_blocks s (cost r + sum_list (map cost rs))" using Cons.prems(3) by simp
  obtain s1 F1 where s1: "serve r s = Some (q, s1)" "files_ok F1 s1" "owner s1 = owner s" "contents s1 = m1" "enough_blocks s1 (sum_list (map cost rs))"
    by (rule array_step_serve [OF Cons.prems(1) c(1) fit])
  show ?case using Cons.IH [OF s1(2) _ s1(5), of ps] c(2,3) s1 by auto
qed auto

text \<open>
  C1 (refinement): the open files are byte arrays, for every request for which the code treats them so. Any sequence
  of such reads and writes through any handles of any number of open files, in any order, gives the
  replies that one byte array per file gives: a read returns the bytes written last, whatever handle
  wrote them, cut at the end of the file, and nothing at or beyond the end; a write changes its range of
  its file and nothing else; appends go to the end; a request without handle or without the access is
  refused; and the arrays are the contents of the files afterwards. Left out of the sequences are a
  request through a handle that is not open; a read that begins in the partly filled last block of the
  file and runs past the end (it returns bytes beyond the end); a write that starts beyond the end (it
  may store its bytes in block 0) or ends less than a block below 4 GiB. The file system must have enough free
  blocks for the whole sequence: three for every block the writes may take, which are one for every 4096
  bytes of a buffer and two more, and no file may get longer than the double indirect level.
\<close>

theorem open_files_are_arrays:
  assumes "files_ok F s" "run_ops (array_step (owner s)) rs (contents s) = Some (qs, m)" "enough_blocks s (sum_list (map cost rs))"
  shows "\<exists>s' F'. run_ops serve rs s = Some (qs, s') \<and> contents s' = m \<and> files_ok F' s'"
  by (rule array_run_serve [OF assms])

text \<open>Two files of one block each, the first one with two handles.\<close>

definition small_handle :: "addr \<Rightarrow> file_status" where
  "small_handle a = FileStatus_new\<lparr>fd_inode_cache := a, fd_listed := True\<rparr>"

definition small_state :: op_state where
  "small_state = \<lparr>op_fs = small_fs, op_st = [(5, 0), (6, 1)],
     op_ics = [0 \<mapsto> \<lparr>ic_inode_id = 5, ic_cnts = 2, ic_cache = small_file, ic_vec = [1, 0]\<rparr>, 1 \<mapsto> \<lparr>ic_inode_id = 6, ic_cnts = 1, ic_cache = other_file, ic_vec = [2]\<rparr>],
     op_icbrk = 2, op_fds = [0 \<mapsto> small_handle 0, 1 \<mapsto> small_handle 0, 2 \<mapsto> small_handle 1], op_fdbrk = 3\<rparr>"

lemma small_state_op_ok: "op_ok small_state"
proof -
  have "omap_ok (op_st small_state)" by (simp add: small_state_def omap_ok_def)
  moreover have "finite (dom (op_fds small_state))" by (simp add: small_state_def)
  ultimately show ?thesis
    unfolding op_ok_def by (rule op_invI) (auto simp: small_state_def handles_ok_def small_handle_def split: if_splits)
qed

lemma small_nblocks [simp]: "nblocks small_file = 1" "nblocks other_file = 1"
  by (simp_all add: nblocks_def other_file_def small_file_def)

lemma small_state_ok: "files_ok {} small_state"
proof -
  have e: "small_file\<lparr>i_block := (\<lambda>_. 0)(0 := 1)\<rparr> = small_file" by (simp add: small_file_def)
  have o: "owns small_fs small_file 1 = {1}" "owns small_fs other_file 1 = {2}" "file_ok {} small_fs other_file 1"
    using one_block_ok [of 1] one_block_ok [of 2] unfolding e other_file_def by simp_all
  have h: "handle_ok small_fs inode 1 (small_handle a)" for inode a by (simp add: handle_ok_def small_handle_def FileStatus_new_def)
  show ?thesis
    unfolding files_ok_def using small_state_op_ok small_fs_ok small_file_ok o h
    by (auto simp: small_state_def small_handle_def split: if_splits)
qed

lemma small_state_fits: "enough_blocks small_state 4"
proof -
  have "{3, 4, 5, 6, 7, 8, 9, 10, 11, 12, 13, 14} \<subseteq> free_blocks small_fs"
    by (auto simp: free_blocks_def small_fs_allocated disk_blocks_def) (simp_all add: group_at_def small_fs_def)
  then have "card {3, 4, 5, 6, 7, 8, 9, 10, 11, 12, 13, 14 :: u32} \<le> card (free_blocks small_fs)" by (rule card_mono [rotated]) simp
  then have "room small_fs 12" by (simp add: room_def)
  then show ?thesis by (auto simp: enough_blocks_def small_state_def split: if_splits)
qed

theorem open_files_are_arrays_witness:
  "\<exists>s' x. run_ops serve [Write [7, 8, 9] 0 0x401 (Some 0), Write [1, 2] 10 2 (Some 2), Read 4 99 0 (Some 1), Read 2 10 0 (Some 2)] small_state =
     Some ([Code 3, Code 2, Data 4 [x, 7, 8, 9], Data 2 [1, 2]], s')"
proof -
  let ?rs = "[Write [7, 8, 9] 0 0x401 (Some 0), Write [1, 2] 10 2 (Some 2), Read 4 99 0 (Some 1), Read 2 10 0 (Some 2)]"
  let ?c = "contents small_state"
  have l: "length (?c 0) = 100" "length (?c 1) = 100" by (simp_all add: contents_def small_state_def other_file_def) (simp_all add: small_file_def)
  have o: "owner small_state 0 = Some 0" "owner small_state 1 = Some 0" "owner small_state 2 = Some 1"
    by (simp_all add: owner_def small_state_def small_handle_def)
  have d: "drop 99 (?c 0) = [?c 0 ! 99]" using Cons_nth_drop_Suc [of 99 "?c 0"] l(1) by simp
  have "\<exists>m. run_ops (array_step (owner small_state)) ?rs ?c = Some ([Code 3, Code 2, Data 4 [?c 0 ! 99, 7, 8, 9], Data 2 [1, 2]], m)"
    using l d o by (simp add: overwrite_def Let_def reads_exactly_def)
  then obtain m where m: "run_ops (array_step (owner small_state)) ?rs ?c = Some ([Code 3, Code 2, Data 4 [?c 0 ! 99, 7, 8, 9], Data 2 [1, 2]], m)" by blast
  have "sum_list (map cost ?rs) = 4" by simp
  then have "enough_blocks small_state (sum_list (map cost ?rs))" using small_state_fits by (simp only:)
  from open_files_are_arrays [OF small_state_ok m this] show ?thesis by blast
qed

end
