(* ===== verification/File_Gap.thy ===== *)
theory File_Gap
  imports File_Append
begin

text \<open>
  Writes beyond the end of a file: the loop that fills the gap, where it ends, and where it does not
  do what it should.
\<close>

section \<open>The boundary after the end\<close>

lemma unat_next_boundary:
  assumes "unat z + 4096 < 2 ^ 32"
  shows "unat (next_boundary z) = unat z div 4096 * 4096 + 4096"
proof -
  have m: "unat (z mod 4096) = unat z mod 4096" "unat z mod 4096 \<le> unat z" by (simp_all add: unat_mod)
  have p: "unat (z + 4096) = unat z + 4096" using assms unat_add_lem [of z 4096] by simp
  then have "z mod 4096 \<le> z + 4096" unfolding word_le_nat_alt m(1) using m(2) by linarith
  then have "unat (next_boundary z) = unat z + 4096 - unat z mod 4096"
    unfolding next_boundary_def by (simp add: unat_sub m(1) p)
  moreover have "unat z div 4096 * 4096 + unat z mod 4096 = unat z" by simp
  ultimately show ?thesis by linarith
qed

lemma inode_maps_size: "inode_maps F fs (inode\<lparr>i_size := z\<rparr>) n = inode_maps F fs inode n"
proof -
  have "node fs (inode\<lparr>i_size := z\<rparr>) = node fs inode" by (simp add: node_def fun_eq_iff)
  then show ?thesis by (simp add: inode_maps_def mapped_def index_blocks_def)
qed

section \<open>Filling the gap\<close>

lemma gap_loop_ok:
  assumes "fs_ok F fs" "inode_maps F fs inode n" "n + l \<le> 1049612" "room fs (l * 3)"
    "unat (i_size inode) + 4096 < 2 ^ 32" "off + 4096 < 2 ^ 32" "off \<le> unat (next_boundary (i_size inode)) + l * 4096"
  shows "\<exists>inode' fs' F' m. gap_loop off inode fs = Some (True, inode', fs') \<and> fs_ok F' fs' \<and> inode_maps F' fs' inode' (n + m) \<and> m \<le> l \<and>
     off \<le> unat (next_boundary (i_size inode')) \<and> unat (i_size inode) \<le> unat (i_size inode') \<and> unat (i_size inode') + 4096 < 2 ^ 32"
  using assms
proof (induction l arbitrary: fs inode n F)
  case 0
  then have "gap_loop off inode fs = Some (True, inode, fs)" by (subst gap_loop.simps) simp
  then show ?case using 0 by (intro exI [of _ inode] exI [of _ fs] exI [of _ F] exI [of _ 0]) simp
next
  case (Suc l)
  let ?b = "next_boundary (i_size inode)"
  show ?case
  proof (cases "unat ?b < off")
    case False
    then have "gap_loop off inode fs = Some (True, inode, fs)" by (subst gap_loop.simps) simp
    then show ?thesis using Suc.prems False by (intro exI [of _ inode] exI [of _ fs] exI [of _ F] exI [of _ 0]) simp
  next
    case True
    have r: "n < 1049612" "room fs (l * 3 + 3)" using Suc.prems(3,4) by (simp_all add: add.commute)
    obtain b k inode1 fs1 F1 where a: "alloc_block_inode inode fs = Some (Some (b, k), inode1, fs1)"
      "growing F fs inode (positions n) F1 fs1 (inode1\<lparr>i_blocks := i_blocks inode\<rparr>) (positions (Suc n))"
      "inode_maps F1 fs1 inode1 (Suc n)" "room fs1 (l * 3)"
      by (rule alloc_block_inode_ok [OF Suc.prems(1,2) r])
    obtain g where g: "inode1\<lparr>i_blocks := i_blocks inode\<rparr> = inode\<lparr>i_block := g\<rparr>" using a(2) unfolding growing_def by blast
    have z: "i_size inode1 = i_size inode" using arg_cong [OF g, of i_size] by simp
    let ?i = "inode1\<lparr>i_size := ?b\<rparr>"
    have b: "unat ?b = unat (i_size inode) div 4096 * 4096 + 4096" by (rule unat_next_boundary [OF Suc.prems(5)])
    have b': "unat (next_boundary ?b) = unat ?b div 4096 * 4096 + 4096" by (rule unat_next_boundary) (use True Suc.prems(6) in linarith)
    have "unat ?b div 4096 * 4096 = unat ?b" unfolding b by simp
    then have nb: "unat (next_boundary ?b) = unat ?b + 4096" using b' by linarith
    have grow: "unat (i_size inode) \<le> unat ?b"
      using b div_mult_mod_eq [of "unat (i_size inode)" 4096] mod_less_divisor [of 4096 "unat (i_size inode)"] by linarith
    have pre: "inode_maps F1 fs1 ?i (Suc n)" "Suc n + l \<le> 1049612" "unat (i_size ?i) + 4096 < 2 ^ 32"
      "off \<le> unat (next_boundary (i_size ?i)) + l * 4096"
      using a(3) Suc.prems(3,6,7) True nb by (simp_all add: inode_maps_size)
    from Suc.IH [OF growing_ok [OF a(2)] pre(1,2) a(4) pre(3) Suc.prems(6) pre(4)]
    obtain inode' fs' F' m where w: "gap_loop off ?i fs1 = Some (True, inode', fs')" "fs_ok F' fs'" "inode_maps F' fs' inode' (Suc n + m)" "m \<le> l"
      "off \<le> unat (next_boundary (i_size inode'))" "unat (i_size ?i) \<le> unat (i_size inode')" "unat (i_size inode') + 4096 < 2 ^ 32"
      by blast
    have "gap_loop off inode fs = Some (True, inode', fs')" using True a(1) w(1) z by (subst gap_loop.simps) simp
    then show ?thesis using w(2-7) grow by (intro exI [of _ inode'] exI [of _ fs'] exI [of _ F'] exI [of _ "Suc m"]) simp
  qed
qed

section \<open>Properties\<close>

text \<open>
  C22 (termination): the loop that fills the gap before an offset ends with success, after at most one block for
  every 4096 bytes between the size and the offset and one more, when sizes stay below the last block of the 32
  bits and there are free blocks. The inode is well mapped, and the offset is no further than the
  next block boundary.
\<close>

theorem gap_loop_ends:
  assumes "fs_ok F fs" "inode_maps F fs inode n" "unat (i_size inode) + 4096 < 2 ^ 32" "off + 4096 < 2 ^ 32"
    "n + (off - unat (i_size inode)) div 4096 + 1 \<le> 1049612" "room fs (((off - unat (i_size inode)) div 4096 + 1) * 3)"
  shows "\<exists>inode' fs' F' m. gap_loop off inode fs = Some (True, inode', fs') \<and> fs_ok F' fs' \<and> inode_maps F' fs' inode' (n + m) \<and>
     m \<le> (off - unat (i_size inode)) div 4096 + 1 \<and> off \<le> unat (next_boundary (i_size inode')) \<and> unat (i_size inode) \<le> unat (i_size inode')"
proof -
  let ?d = "off - unat (i_size inode)"
  have d: "?d div 4096 * 4096 + ?d mod 4096 = ?d" "?d mod 4096 < 4096" by simp_all
  have b: "unat (next_boundary (i_size inode)) = unat (i_size inode) div 4096 * 4096 + 4096" by (rule unat_next_boundary [OF assms(3)])
  have "unat (i_size inode) \<le> unat (next_boundary (i_size inode))"
    using b div_mult_mod_eq [of "unat (i_size inode)" 4096] mod_less_divisor [of 4096 "unat (i_size inode)"] by linarith
  moreover have "(?d div 4096 + 1) * 4096 = ?d div 4096 * 4096 + 4096" by simp
  ultimately have o': "off \<le> unat (next_boundary (i_size inode)) + (?d div 4096 + 1) * 4096" using d by linarith
  have n: "n + (?d div 4096 + 1) \<le> 1049612" using assms(5) by simp
  from gap_loop_ok [OF assms(1,2) n assms(6,3,4) o'] show ?thesis by blast
qed

theorem gap_loop_ends_witness:
  "\<exists>inode' fs'. gap_loop 4200 small_file small_fs = Some (True, inode', fs') \<and> 4200 \<le> unat (next_boundary (i_size inode'))"
proof -
  have z: "unat (i_size small_file) = 100" by (simp add: small_file_def)
  show ?thesis using gap_loop_ends [OF small_fs_ok small_file_maps, of 4200] small_fs_room6 unfolding z by auto
qed

text \<open>An error of a seek is negative.\<close>

lemma walk_error: "walk k offs f fs = Some (e, f', fs') \<Longrightarrow> e \<le> 0"
  by (induction k offs f fs rule: walk.induct) (auto simp: EINVAL_def split: bind_splits option.splits)

lemma bf_seek_error: "bf_seek inode b f fs = Some (e, f', fs') \<Longrightarrow> e \<le> 0"
  using walk_error by (auto simp: bf_seek_def Let_def EINVAL_def simp del: walk.simps split: if_splits)

lemma fd_upd_cache_error: "fd_upd_cache inode f fs = Some (e, f', fs') \<Longrightarrow> e \<le> 0"
  using bf_seek_error by (auto simp: fd_upd_cache_def split: if_splits)

lemma gap_loop_4g:
  assumes "2 ^ 32 \<le> off" "gap_loop off inode fs = Some (ok, inode', fs')"
  shows "\<not> ok"
proof -
  have "2 ^ 32 \<le> off \<longrightarrow> \<not> fst (ok, inode', fs')"
  proof (rule gap_loop.raw_induct [OF _ assms(2)], intro impI)
    fix self off inode fs and y :: "bool \<times> ext2_inode \<times> fs"
    assume ih: "\<And>off inode fs y. self off inode fs = Some y \<Longrightarrow> 2 ^ 32 \<le> off \<longrightarrow> \<not> fst y"
      and y: "(if unat (next_boundary (i_size inode)) < off then do {
          (r, inode, fs) \<leftarrow> alloc_block_inode inode fs;
          case r of None \<Rightarrow> Some (False, inode, fs) | Some _ \<Rightarrow> self off (inode\<lparr>i_size := next_boundary (i_size inode)\<rparr>) fs
        } else Some (True, inode, fs)) = Some y"
      and off: "2 ^ 32 \<le> off"
    have "unat (next_boundary (i_size inode)) < 2 ^ 32" using unsigned_less [of "next_boundary (i_size inode)", where ?'a = nat] by simp
    then have "unat (next_boundary (i_size inode)) < off" using off by linarith
    then have "(case alloc_block_inode inode fs of None \<Rightarrow> None | Some (r, inode1, fs1) \<Rightarrow> (case r of None \<Rightarrow> Some (False, inode1, fs1)
        | Some _ \<Rightarrow> self off (inode1\<lparr>i_size := next_boundary (i_size inode1)\<rparr>) fs1)) = Some y"
      using y by (simp split: bind_splits)
    then obtain r inode1 fs1 where a: "(case r of None \<Rightarrow> Some (False, inode1, fs1)
        | Some _ \<Rightarrow> self off (inode1\<lparr>i_size := next_boundary (i_size inode1)\<rparr>) fs1) = Some y"
      by (simp split: option.splits prod.splits) (metis option.case)+
    then show "\<not> fst y" using ih [of off "inode1\<lparr>i_size := next_boundary (i_size inode1)\<rparr>" fs1 y] off by (auto split: option.splits)
  qed
  then show ?thesis using assms(1) by simp
qed

text \<open>
  C25 (error): \<open>write\<close> at an offset of 4 GiB or more never reports a byte written: \<open>i_size\<close> has 32 bits, so the loop that
  fills the gap cannot reach the offset, and it only ends when no block can be allocated any more.
\<close>

theorem write_4g_fails:
  assumes "2 ^ 32 \<le> off"
  shows "fd_write buf off False inode h fs \<noteq> Some (int (Suc k), upd, inode', h', fs')"
proof
  assume w: "fd_write buf off False inode h fs = Some (int (Suc k), upd, inode', h', fs')"
  have "unat (i_size inode) < 2 ^ 32" using unsigned_less [of "i_size inode", where ?'a = nat] by simp
  then have lt: "unat (i_size inode) < off + length buf" using assms by linarith
  obtain e h1 fs1 where u: "fd_upd_cache inode h fs = Some (e, h1, fs1)" using w by (auto simp: fd_write_def Let_def split: bind_splits)
  show False
  proof (cases "e = 0")
    case False
    then show ?thesis using w u fd_upd_cache_error [OF u] by (simp add: fd_write_def)
  next
    case True
    then have g: "write_grow buf off inode h1 fs1 = Some (int (Suc k), upd, inode', h', fs')" using w u lt by (simp add: fd_write_def)
    then obtain ok inode2 fs2 where l: "gap_loop off inode fs1 = Some (ok, inode2, fs2)" by (auto simp: write_grow_def split: bind_splits)
    from gap_loop_4g [OF assms l] show ?thesis using g l by (simp add: write_grow_def)
  qed
qed

theorem write_4g_fails_witness:
  "\<not> (\<exists>k upd inode' h' fs'. fd_write [7] (2 ^ 32) False small_file FileStatus_new small_fs = Some (int (Suc k), upd, inode', h', fs'))"
  using write_4g_fails [of "2 ^ 32"] by blast

text \<open>
  C23 (error): a write that starts at the first block boundary after the end of a file whose last block is not full
  allocates nothing: the handle follows the empty slot of the inode to block 0, and \<open>write\<close> stores
  the buffer there, whichever file that block belongs to, reports success and moves the size to the end of
  the write, while the pointers and the block count of the inode stay as they were. Stated for a buffer
  of at most one block, a slot among the direct ones that is empty (0), and a block 0 that is allocated and
  not fresh, as it is once any block was allocated and written in the first group.
\<close>

theorem write_gap_clobbers_block_0:
  assumes "fs_ok F fs" "file_ok F fs inode n" "handle_ok fs inode n h" "unat (i_size inode) mod 4096 \<noteq> 0" "n = unat (i_size inode) div 4096 + 1"
    "n < 12" "i_block inode n = 0" "allocated fs 0" "fs_content fs 0 = Some x" "0 \<notin> F" "0 < length buf" "length buf \<le> 4096"
  shows "\<exists>inode' h' fs'. fd_write buf (n * 4096) False inode h fs = Some (int (length buf), True, inode', h', fs') \<and>
     fs_content fs' 0 = Some (put_bytes x 0 buf) \<and> allocated fs' = allocated fs \<and>
     i_block inode' = i_block inode \<and> i_blocks inode' = i_blocks inode \<and> unat (i_size inode') = n * 4096 + length buf"
proof -
  let ?z = "i_size inode"
  obtain h1 fs1 where u: "fd_upd_cache inode h fs = Some (0, h1, fs1)" "fs_reads F fs fs1" by (rule fd_upd_cache_ok [OF assms(1-3)])
  have "unat ?z div 4096 < 12" using assms(5,6) by simp
  then have "unat ?z < 12 * 4096" using div_mult_mod_eq [of "unat ?z" 4096] mod_less_divisor [of 4096 "unat ?z"] by linarith
  then have b: "unat (next_boundary ?z) = unat ?z div 4096 * 4096 + 4096" by (intro unat_next_boundary) simp
  then have gap: "gap_loop (n * 4096) inode fs1 = Some (True, inode, fs1)" using assms(5) by (subst gap_loop.simps) simp
  have "unat (?z mod 4096) \<noteq> 0" using assms(4) by (simp add: unat_mod)
  then have z: "?z mod 4096 \<noteq> 0" by (metis unat_0)
  have n: "unat (word_of_nat n :: u32) = n" "word_of_nat n \<le> IBLOCK_12" "word_of_nat n \<le> IBLOCK_11" unfolding IBLOCK_le using assms(6) by (simp_all add: unat_of_nat)
  let ?h = "h1\<lparr>block_id_in_file := word_of_nat n, block_id := 0\<rparr>"
  have k: "seek inode (word_of_nat n) h1 fs1 = Some (0, ?h, fs1)" unfolding seek_def bf_seek_def Let_def using n assms(7) by simp
  have al: "allocated fs1 0" using fs_reads_allocated [OF u(2)] assms(8) by simp
  have x: "fs_content fs1 0 = Some x" by (rule fs_reads_content [OF u(2) allocated_disk_blocks [OF assms(8)] assms(10,9)])
  obtain blk fs2 where w: "get_block 0 True 0 buf (length buf) fs1 = Some (Some (blk, []), fs2)" "fs_writes F 0 (put_bytes x 0 (take (length buf) buf)) fs1 fs2"
    by (rule get_block_write [OF fs_reads_ok [OF u(2)] al x, of 0 "length buf" buf]) (use assms(12) in simp_all)
  have "unat ?z < n * 4096" using assms(5) mod_less_divisor [of 4096 "unat ?z"] div_mult_mod_eq [of "unat ?z" 4096] by simp
  then have "fd_write buf (n * 4096) False inode h fs = write_grow buf (n * 4096) inode h1 fs1" using u(1) by (simp add: fd_write_def)
  also have "\<dots> = Some (int (length buf), True, grow_to (n * 4096 + length buf) inode, ?h, fs2)"
    using gap z k w(1) assms(12) by (simp add: write_grow_def Let_def) (subst write_loop.simps, simp)
  finally have r: "fd_write buf (n * 4096) False inode h fs = Some (int (length buf), True, grow_to (n * 4096 + length buf) inode, ?h, fs2)" .
  have "unat ?z \<le> n * 4096 + length buf" using \<open>unat ?z < n * 4096\<close> by linarith
  moreover have "n * 4096 + length buf < 2 ^ 32" using assms(6,12) by simp
  ultimately have "unat (i_size (grow_to (n * 4096 + length buf) inode)) = n * 4096 + length buf"
    by (simp add: grow_to_def max_def del: of_nat_add of_nat_mult) (simp only: unat_of_nat, simp)
  moreover have "allocated fs2 = allocated fs" using fs_writes_allocated [OF w(2)] fs_reads_allocated [OF u(2)] by simp
  ultimately show ?thesis using r w(2) by (simp add: fs_writes_def grow_to_def)
qed

theorem write_gap_clobbers_block_0_witness:
  "\<exists>inode' h' fs'. fd_write [7] 4096 False small_file FileStatus_new small_fs = Some (1, True, inode', h', fs') \<and>
     fs_content fs' 0 = Some (put_bytes (clip 4096 (\<lambda>_. 1)) 0 [7]) \<and> allocated fs' = allocated small_fs"
proof -
  have h: "handle_ok small_fs small_file 1 FileStatus_new" by (simp add: handle_ok_def FileStatus_new_def)
  have z: "unat (i_size small_file) = 100" "i_block small_file 1 = 0" by (simp_all add: small_file_def)
  have c: "allocated small_fs 0" "fs_content small_fs 0 = Some (clip 4096 (\<lambda>_. 1))" using small_fs_content [of 0] by (simp_all add: small_fs_allocated)
  show ?thesis using write_gap_clobbers_block_0 [OF small_fs_ok small_file_ok h _ _ _ z(2) c, of "[7]"] z(1) by simp blast
qed

end
