(* ===== verification/FS_List.thy ===== *)
theory FS_List
  imports Prelude
begin

text \<open>
  \<open>FSList\<close> of \<open>include/operation.h\<close>: the doubly linked list, with a sentinel in front, on which a cached
  inode keeps its open files. The nodes live on a heap; a freed node is absent from it. The list of
  values in order is what the rest of the development uses in its place.
\<close>

section \<open>The class\<close>

record 'v fs_node =
  fl_value :: 'v
  fl_prev :: "addr option"
  fl_next :: "addr option"

record 'v fs_list =
  fl_nodes :: "addr \<rightharpoonup> 'v fs_node"
  fl_head :: "addr option"
  fl_fresh :: addr

definition fl_upd :: "addr option \<Rightarrow> ('v fs_node \<Rightarrow> 'v fs_node) \<Rightarrow> 'v fs_list \<Rightarrow> 'v fs_list option" where
  "fl_upd p f l = do {
     a \<leftarrow> p;
     n \<leftarrow> fl_nodes l a;
     Some (l\<lparr>fl_nodes := (fl_nodes l)(a \<mapsto> f n)\<rparr>)
   }"

definition fl_node :: "addr option \<Rightarrow> 'v fs_list \<Rightarrow> 'v fs_node option" where
  "fl_node p l = do { a \<leftarrow> p; fl_nodes l a }"

definition fl_new_node :: "'v \<Rightarrow> 'v fs_list \<Rightarrow> addr \<times> 'v fs_list" where
  "fl_new_node v l = (fl_fresh l,
     l\<lparr>fl_nodes := (fl_nodes l)(fl_fresh l \<mapsto> \<lparr>fl_value = v, fl_prev = None, fl_next = None\<rparr>), fl_fresh := fl_fresh l + 1\<rparr>)"

definition fl_delete :: "addr \<Rightarrow> 'v fs_list \<Rightarrow> 'v fs_list option" where
  "fl_delete a l = do { _ \<leftarrow> fl_nodes l a; Some (l\<lparr>fl_nodes := (fl_nodes l)(a := None)\<rparr>) }"

text \<open>The constructor; \<open>v\<close> is the default value of the sentinel.\<close>

definition FSList_new :: "'v \<Rightarrow> 'v fs_list" where
  "FSList_new v =
     (let (a, l) = fl_new_node v \<lparr>fl_nodes = Map.empty, fl_head = None, fl_fresh = 0\<rparr> in l\<lparr>fl_head := Some a\<rparr>)"

definition fl_ins :: "'v \<Rightarrow> 'v fs_list \<Rightarrow> (addr \<times> 'v fs_list) option" where
  "fl_ins v l = do {
     let (nw, l) = fl_new_node v l;
     l \<leftarrow> fl_upd (Some nw) (\<lambda>n. n\<lparr>fl_prev := fl_head l\<rparr>) l;
     h \<leftarrow> fl_node (fl_head l) l;
     l \<leftarrow> fl_upd (Some nw) (\<lambda>n. n\<lparr>fl_next := fl_next h\<rparr>) l;
     l \<leftarrow> fl_upd (fl_head l) (\<lambda>n. n\<lparr>fl_next := Some nw\<rparr>) l;
     n \<leftarrow> fl_nodes l nw;
     l \<leftarrow> (if fl_next n \<noteq> None then fl_upd (fl_next n) (\<lambda>m. m\<lparr>fl_prev := Some nw\<rparr>) l else Some l);
     Some (nw, l)
   }"

definition fl_del :: "addr \<Rightarrow> 'v fs_list \<Rightarrow> 'v fs_list option" where
  "fl_del ptr l = do {
     n \<leftarrow> fl_nodes l ptr;
     l \<leftarrow> (if fl_next n \<noteq> None then fl_upd (fl_next n) (\<lambda>m. m\<lparr>fl_prev := fl_prev n\<rparr>) l else Some l);
     l \<leftarrow> fl_upd (fl_prev n) (\<lambda>m. m\<lparr>fl_next := fl_next n\<rparr>) l;
     fl_delete ptr l
   }"

text \<open>
  \<open>iter\<close> applies a function to the value of every node; \<open>f\<close> returns the new value and passes a state on.
  A list without end does not return.
\<close>

partial_function (option) fl_iter_from ::
  "('v \<Rightarrow> 's \<Rightarrow> 'v \<times> 's) \<Rightarrow> addr option \<Rightarrow> 'v fs_list \<Rightarrow> 's \<Rightarrow> ('v fs_list \<times> 's) option" where
  "fl_iter_from f nxt l s =
     (case nxt of
        None \<Rightarrow> Some (l, s)
      | Some a \<Rightarrow> do {
          n \<leftarrow> fl_nodes l a;
          let (v, s) = f (fl_value n) s;
          fl_iter_from f (fl_next n) (l\<lparr>fl_nodes := (fl_nodes l)(a \<mapsto> n\<lparr>fl_value := v\<rparr>)\<rparr>) s
        })"

definition fl_iter :: "('v \<Rightarrow> 's \<Rightarrow> 'v \<times> 's) \<Rightarrow> 'v fs_list \<Rightarrow> 's \<Rightarrow> ('v fs_list \<times> 's) option" where
  "fl_iter f l s = do { h \<leftarrow> fl_node (fl_head l) l; fl_iter_from f (fl_next h) l s }"

text \<open>The destructor: \<open>nxt\<close> runs ahead of \<open>head_\<close>, and its successor is read after the test for null.\<close>

partial_function (option) fl_destroy_from :: "addr option \<Rightarrow> 'v fs_list \<Rightarrow> 'v fs_list option" where
  "fl_destroy_from nxt l = do {
     a \<leftarrow> fl_head l;
     l \<leftarrow> fl_delete a l;
     let l = l\<lparr>fl_head := nxt\<rparr>;
     case nxt of
       None \<Rightarrow> Some l
     | Some b \<Rightarrow> do { n \<leftarrow> fl_nodes l b; fl_destroy_from (fl_next n) l }
   }"

definition FSList_delete :: "'v fs_list \<Rightarrow> 'v fs_list option" where
  "FSList_delete l = do { h \<leftarrow> fl_node (fl_head l) l; fl_destroy_from (fl_next h) l }"

section \<open>The list of a chain of nodes\<close>

text \<open>\<open>chain N p xs\<close>: the nodes \<open>xs\<close>, with their values, follow the node \<open>p\<close>.\<close>

fun chain :: "(addr \<rightharpoonup> 'v fs_node) \<Rightarrow> addr \<Rightarrow> (addr \<times> 'v) list \<Rightarrow> bool" where
  "chain N p [] = True"
| "chain N p ((a, v) # xs) \<longleftrightarrow> (\<exists>n m. N p = Some n \<and> fl_next n = Some a \<and> N a = Some m \<and> fl_prev m = Some p \<and> fl_value m = v \<and> chain N a xs)"

definition end_of :: "addr \<Rightarrow> (addr \<times> 'v) list \<Rightarrow> addr" where
  "end_of p xs = last (p # map fst xs)"

lemma end_of_simps [simp]: "end_of p [] = p" "end_of p (x # xs) = end_of (fst x) xs" "end_of p (xs @ ys) = end_of (end_of p xs) ys"
  by (simp_all add: end_of_def last_append)

lemma end_of_in: "end_of p xs \<in> insert p (fst ` set xs)"
  by (induction xs arbitrary: p) auto

definition fl_rep :: "'v fs_list \<Rightarrow> (addr \<times> 'v) list \<Rightarrow> bool" where
  "fl_rep l xs \<longleftrightarrow> (\<exists>h n. fl_head l = Some h \<and> chain (fl_nodes l) h xs \<and> fl_nodes l (end_of h xs) = Some n \<and> fl_next n = None \<and>
     distinct (h # map fst xs) \<and> dom (fl_nodes l) = insert h (fst ` set xs) \<and> (\<forall>a. a \<in> dom (fl_nodes l) \<longrightarrow> a < fl_fresh l))"

lemma fl_repE:
  assumes "fl_rep l xs"
  obtains h n e where "fl_head l = Some h" "fl_nodes l h = Some n" "chain (fl_nodes l) h xs" "distinct (h # map fst xs)"
    "fl_nodes l (end_of h xs) = Some e" "fl_next e = None" "dom (fl_nodes l) = insert h (fst ` set xs)"
    "\<forall>a. a \<in> dom (fl_nodes l) \<longrightarrow> a < fl_fresh l"
proof -
  obtain h e where h: "fl_head l = Some h" "chain (fl_nodes l) h xs" "distinct (h # map fst xs)"
    "fl_nodes l (end_of h xs) = Some e" "fl_next e = None" "dom (fl_nodes l) = insert h (fst ` set xs)"
    "\<forall>a. a \<in> dom (fl_nodes l) \<longrightarrow> a < fl_fresh l"
    using assms unfolding fl_rep_def by blast
  then have "h \<in> dom (fl_nodes l)" by simp
  then obtain n where "fl_nodes l h = Some n" by blast
  then show thesis using that h by blast
qed

lemma chain_append [simp]: "chain N p (xs @ ys) \<longleftrightarrow> chain N p xs \<and> chain N (end_of p xs) ys"
  by (induction N p xs rule: chain.induct) auto

text \<open>A change of a node that is not on the chain, of the predecessor of its start, or of the successor of its end.\<close>

lemma chain_other [simp]: "b \<noteq> p \<Longrightarrow> b \<notin> fst ` set xs \<Longrightarrow> chain (N(b := x)) p xs = chain N p xs"
  by (induction N p xs rule: chain.induct) auto

lemma chain_prev:
  assumes "N p = Some n" "p \<notin> fst ` set xs"
  shows "chain (N(p \<mapsto> n\<lparr>fl_prev := x\<rparr>)) p xs = chain N p xs"
  using assms by (cases xs) auto

lemma chain_next:
  assumes "N (end_of p xs) = Some n" "distinct (p # map fst xs)"
  shows "chain (N(end_of p xs \<mapsto> n\<lparr>fl_next := x\<rparr>)) p xs = chain N p xs"
  using assms
proof (induction N p xs rule: chain.induct)
  case (2 N p a v xs)
  then have "end_of a xs \<noteq> p" using end_of_in [of a xs] by auto
  then show ?case using 2 by (cases "end_of a xs = a") auto
qed simp

section \<open>The operations on the list\<close>

lemma fl_rep_new: "fl_rep (FSList_new v) []"
  by (auto simp: fl_rep_def FSList_new_def fl_new_node_def Let_def split: if_splits)

lemma fl_rep_ins:
  assumes "fl_rep l xs"
  obtains l' where "fl_ins v l = Some (fl_fresh l, l')" "fl_rep l' ((fl_fresh l, v) # xs)" "fl_fresh l \<notin> fst ` set xs"
proof -
  obtain h n0 n where h: "fl_head l = Some h" "chain (fl_nodes l) h xs" "fl_nodes l (end_of h xs) = Some n" "fl_next n = None"
      "distinct (h # map fst xs)" "dom (fl_nodes l) = insert h (fst ` set xs)" "\<forall>a. a \<in> dom (fl_nodes l) \<longrightarrow> a < fl_fresh l"
    by (rule fl_repE [OF assms])
  let ?a = "fl_fresh l"
  have a: "?a \<noteq> h" "?a \<notin> fst ` set xs" using h(6) h(7) [rule_format, of ?a] by auto
  show thesis
  proof (cases xs)
    case Nil
    then show thesis using h a that
      by (auto simp: fl_ins_def fl_new_node_def fl_upd_def fl_node_def fl_rep_def less_Suc_eq split: if_splits)
  next
    case (Cons y ys)
    obtain b w where y: "y = (b, w)" by (cases y)
    then obtain m k where m: "fl_nodes l h = Some m" "fl_next m = Some b" "fl_nodes l b = Some k" "fl_prev k = Some h" "fl_value k = w"
        "chain (fl_nodes l) b ys" using h(2) Cons by auto
    let ?N = "(fl_nodes l)(?a \<mapsto> \<lparr>fl_value = v, fl_prev = Some h, fl_next = Some b\<rparr>, h \<mapsto> m\<lparr>fl_next := Some ?a\<rparr>, b \<mapsto> k\<lparr>fl_prev := Some ?a\<rparr>)"
    have d: "b \<noteq> h" "b \<noteq> ?a" "b \<notin> fst ` set ys" "h \<notin> fst ` set ys" "?a \<notin> fst ` set ys" using h(5) a Cons y by auto
    have "chain ?N b ys" using m d a by (subst chain_prev) (auto simp: chain_prev)
    then have p: "chain ?N h ((?a, v) # xs)" using Cons y m d a by auto
    have e: "end_of b ys \<noteq> h" "end_of b ys \<noteq> ?a" using end_of_in [of b ys] d by (metis insertE)+
    have "\<exists>n. ?N (end_of b ys) = Some n \<and> fl_next n = None" using h(3,4) Cons y e m by auto
    then have "fl_rep (l\<lparr>fl_nodes := ?N, fl_fresh := ?a + 1\<rparr>) ((?a, v) # xs)"
      using p h a Cons y by (auto simp: fl_rep_def less_Suc_eq split: if_splits)
    moreover have "fl_ins v l = Some (?a, l\<lparr>fl_nodes := ?N, fl_fresh := ?a + 1\<rparr>)"
      using h(1) m a d by (auto simp: fl_ins_def fl_new_node_def fl_upd_def fl_node_def)
    ultimately show thesis using that a by blast
  qed
qed

lemma fl_rep_del:
  assumes "fl_rep l (us @ (a, v) # ws)"
  obtains l' where "fl_del a l = Some l'" "fl_rep l' (us @ ws)" "fl_nodes l' a = None"
proof -
  let ?N = "fl_nodes l"
  obtain h e where h: "fl_head l = Some h" "chain ?N h (us @ (a, v) # ws)" "?N (end_of a ws) = Some e" "fl_next e = None"
      "distinct (h # map fst (us @ (a, v) # ws))" "dom ?N = insert h (fst ` set (us @ (a, v) # ws))" "\<And>a. a \<in> dom ?N \<Longrightarrow> a < fl_fresh l"
    using assms by (auto simp: fl_rep_def)
  define p where "p = end_of h us"
  obtain np n where n: "chain ?N h us" "?N p = Some np" "fl_next np = Some a" "?N a = Some n" "fl_prev n = Some p" "chain ?N a ws"
    using h(2) by (auto simp: p_def)
  have "p \<in> insert h (fst ` set us)" unfolding p_def by (rule end_of_in)
  then have p: "p \<noteq> a" "p \<notin> fst ` set ws" using h(5) by (simp, blast)+
  have d: "distinct (h # map fst us)" "distinct (h # map fst (us @ ws))" "a \<noteq> h" "a \<notin> fst ` set us" "a \<notin> fst ` set ws" using h(5) by auto
  show thesis
  proof (cases ws)
    case Nil
    let ?M = "?N(p \<mapsto> np\<lparr>fl_next := None\<rparr>, a := None)"
    have x: "fl_next n = None" using h(3,4) n(4) Nil by simp
    have "chain ?M h us" using n(1,2) d by (simp add: p_def chain_next)
    then have "fl_rep (l\<lparr>fl_nodes := ?M\<rparr>) (us @ ws)"
      using h d p Nil by (auto simp: fl_rep_def p_def [symmetric])
    moreover have "fl_del a l = Some (l\<lparr>fl_nodes := ?M\<rparr>)"
      using n x p by (auto simp: fl_del_def fl_upd_def fl_delete_def)
    ultimately show thesis using that by simp
  next
    case (Cons y ys)
    obtain b w where y: "y = (b, w)" by (cases y)
    then obtain m where m: "fl_next n = Some b" "?N b = Some m" "fl_prev m = Some a" "fl_value m = w" "chain ?N b ys"
      using n(4,6) Cons by auto
    have b: "b \<noteq> a" "b \<noteq> p" "b \<notin> fst ` set us" "b \<noteq> h" "b \<notin> fst ` set ys" using h(5) p Cons y by auto
    let ?M = "?N(b \<mapsto> m\<lparr>fl_prev := Some p\<rparr>, p \<mapsto> np\<lparr>fl_next := Some b\<rparr>, a := None)"
    have "chain (?N(b \<mapsto> m\<lparr>fl_prev := Some p\<rparr>, p \<mapsto> np\<lparr>fl_next := Some b\<rparr>)) h us"
      unfolding p_def using n(1,2) d b by (subst chain_next) (auto simp: p_def)
    then have u: "chain ?M h us" using d by simp
    have "chain ?M b ys" using m b p d Cons y chain_prev [of ?N b m ys] by simp
    then have "chain ?M p ws" using Cons y m b p by auto
    then have f: "chain ?M h (us @ ws)" using u by (simp add: p_def [symmetric])
    have "end_of b ys \<noteq> p" "end_of b ys \<noteq> a" using end_of_in [of b ys] b p d Cons y by (metis fst_conv image_insert insertE list.simps(15))+
    then have "\<exists>k. ?M (end_of b ys) = Some k \<and> fl_next k = None" using h(3,4) m Cons y by auto
    then have "fl_rep (l\<lparr>fl_nodes := ?M\<rparr>) (us @ ws)"
      using h f d(2,3,4,5) end_of_in [of h us] Cons y b unfolding fl_rep_def by (auto simp: p_def [symmetric])
    moreover have "fl_del a l = Some (l\<lparr>fl_nodes := ?M\<rparr>)"
      using n m p b by (auto simp: fl_del_def fl_upd_def fl_delete_def)
    ultimately show thesis using that by simp
  qed
qed

lemma chain_value:
  "N b = Some n \<Longrightarrow> b \<notin> fst ` set xs \<Longrightarrow> chain (N(b \<mapsto> n\<lparr>fl_value := v\<rparr>)) p xs = chain N p xs"
  by (induction N p xs rule: chain.induct) auto

text \<open>A loop over the rest \<open>xs\<close> of the list, after the node \<open>p\<close>.\<close>

lemma fl_iter_from_ok:
  assumes "chain (fl_nodes l) p xs" "fl_nodes l p = Some n" "distinct (p # map fst xs)" "fl_nodes l (end_of p xs) = Some e" "fl_next e = None"
  shows "\<exists>N m. fl_iter_from (\<lambda>v s. (f v, s @ [v])) (fl_next n) l s = Some (l\<lparr>fl_nodes := N\<rparr>, s @ map snd xs) \<and>
     chain N p (map (apsnd f) xs) \<and> (\<forall>a. a \<notin> fst ` set xs \<longrightarrow> N a = fl_nodes l a) \<and> dom N = dom (fl_nodes l) \<and>
     N (end_of p xs) = Some m \<and> fl_next m = None"
  using assms
proof (induction xs arbitrary: p n l s e)
  case Nil
  then show ?case by (intro exI [of _ "fl_nodes l"] exI [of _ e]) (simp add: fl_iter_from.simps)
next
  case (Cons x xs)
  obtain a v where x: "x = (a, v)" by (cases x)
  obtain k where k: "fl_next n = Some a" "fl_nodes l a = Some k" "fl_prev k = Some p" "fl_value k = v" "chain (fl_nodes l) a xs"
    using Cons.prems(1,2) x by auto
  let ?l = "l\<lparr>fl_nodes := (fl_nodes l)(a \<mapsto> k\<lparr>fl_value := f v\<rparr>)\<rparr>"
  have d: "a \<noteq> p" "a \<notin> fst ` set xs" "p \<notin> fst ` set xs" "distinct (a # map fst xs)" using Cons.prems(3) x by auto
  have "chain (fl_nodes ?l) a xs" using k d by (simp add: chain_value)
  moreover have "\<exists>e. fl_nodes ?l (end_of a xs) = Some e \<and> fl_next e = None" using Cons.prems(4,5) x k by auto
  ultimately obtain N m where N: "fl_iter_from (\<lambda>v s. (f v, s @ [v])) (fl_next k) ?l (s @ [v]) = Some (?l\<lparr>fl_nodes := N\<rparr>, (s @ [v]) @ map snd xs)"
      "chain N a (map (apsnd f) xs)" "\<forall>b. b \<notin> fst ` set xs \<longrightarrow> N b = fl_nodes ?l b" "dom N = dom (fl_nodes ?l)" "N (end_of a xs) = Some m" "fl_next m = None"
    using Cons.IH [of ?l a "k\<lparr>fl_value := f v\<rparr>" _ "s @ [v]"] d by fastforce
  have "fl_iter_from (\<lambda>v s. (f v, s @ [v])) (fl_next n) l s = Some (l\<lparr>fl_nodes := N\<rparr>, s @ map snd (x # xs))"
    using N(1) k x by (subst fl_iter_from.simps) simp
  moreover have "chain N p (map (apsnd f) (x # xs))" using N(2,3) k d x Cons.prems(2) by auto
  ultimately show ?case using N k x by (intro exI [of _ N] exI [of _ m]) auto
qed

lemma end_of_map [simp]: "end_of p (map (apsnd f) xs) = end_of p xs"
  by (induction xs arbitrary: p) auto

lemma fst_apsnd [simp]: "map fst (map (apsnd f) xs) = map fst xs" "fst ` apsnd f ` A = fst ` A"
  by (simp, force)

lemma fl_rep_iter:
  assumes "fl_rep l xs"
  obtains l' where "fl_iter (\<lambda>v s. (f v, s @ [v])) l [] = Some (l', map snd xs)" "fl_rep l' (map (apsnd f) xs)" "fl_fresh l' = fl_fresh l"
proof -
  obtain h n e where h: "fl_head l = Some h" and n: "fl_nodes l h = Some n" and c: "chain (fl_nodes l) h xs" "distinct (h # map fst xs)"
      "fl_nodes l (end_of h xs) = Some e" "fl_next e = None" "dom (fl_nodes l) = insert h (fst ` set xs)"
      "\<forall>a. a \<in> dom (fl_nodes l) \<longrightarrow> a < fl_fresh l"
    by (rule fl_repE [OF assms])
  from fl_iter_from_ok [OF c(1) n c(2-4), of f "[]"] obtain N m where
    N: "fl_iter_from (\<lambda>v s. (f v, s @ [v])) (fl_next n) l [] = Some (l\<lparr>fl_nodes := N\<rparr>, map snd xs)" "chain N h (map (apsnd f) xs)"
      "dom N = dom (fl_nodes l)" "N (end_of h xs) = Some m" "fl_next m = None" by auto
  then have "fl_rep (l\<lparr>fl_nodes := N\<rparr>) (map (apsnd f) xs)" using h c by (simp add: fl_rep_def image_image)
  moreover have "fl_iter (\<lambda>v s. (f v, s @ [v])) l [] = Some (l\<lparr>fl_nodes := N\<rparr>, map snd xs)" using N(1) h n by (simp add: fl_iter_def fl_node_def)
  ultimately show thesis using that by simp
qed

text \<open>The destructor frees every node.\<close>

lemma fl_destroy_from_ok:
  assumes "fl_head l = Some p" "chain (fl_nodes l) p xs" "fl_nodes l p = Some n" "distinct (p # map fst xs)"
    "fl_nodes l (end_of p xs) = Some e" "fl_next e = None" "dom (fl_nodes l) = insert p (fst ` set xs)"
  shows "\<exists>l'. fl_destroy_from (fl_next n) l = Some l' \<and> fl_nodes l' = Map.empty \<and> fl_head l' = None"
  using assms
proof (induction xs arbitrary: p n l e)
  case Nil
  then have "fl_nodes l = [p \<mapsto> n]" by (auto simp: fun_eq_iff domIff set_eq_iff)
  then show ?case using Nil by (subst fl_destroy_from.simps) (simp add: fl_delete_def)
next
  case (Cons x xs)
  obtain a v where x: "x = (a, v)" by (cases x)
  obtain k where k: "fl_next n = Some a" "fl_nodes l a = Some k" "chain (fl_nodes l) a xs" using Cons.prems(2,3) x by auto
  have d: "a \<noteq> p" "p \<notin> fst ` set xs" "distinct (a # map fst xs)" using Cons.prems(4) x by auto
  let ?l = "l\<lparr>fl_nodes := (fl_nodes l)(p := None), fl_head := Some a\<rparr>"
  have e: "end_of a xs \<noteq> p" using end_of_in [of a xs] d by (metis insertE)
  have "\<exists>l'. fl_destroy_from (fl_next k) ?l = Some l' \<and> fl_nodes l' = Map.empty \<and> fl_head l' = None"
    
  proof (rule Cons.IH [where p = a])
    show "dom (fl_nodes ?l) = insert a (fst ` set xs)" using Cons.prems(7) d x by auto
    show "chain (fl_nodes ?l) a xs" using k(3) d chain_other [of p a xs "fl_nodes l" None] by simp
  qed (use k d x e Cons.prems in \<open>simp_all\<close>)
  then show ?case using Cons.prems(1,3) k d by (subst fl_destroy_from.simps) (simp add: fl_delete_def)
qed

lemma fl_rep_delete:
  assumes "fl_rep l xs"
  shows "\<exists>l'. FSList_delete l = Some l' \<and> fl_nodes l' = Map.empty"
proof -
  obtain h n e where h: "fl_head l = Some h" "fl_nodes l h = Some n" "chain (fl_nodes l) h xs" "distinct (h # map fst xs)"
      "fl_nodes l (end_of h xs) = Some e" "fl_next e = None" "dom (fl_nodes l) = insert h (fst ` set xs)"
    by (rule fl_repE [OF assms])
  then show ?thesis using fl_destroy_from_ok [OF h(1,3,2,4-7)] by (auto simp: FSList_delete_def fl_node_def)
qed

section \<open>Sequences of operations\<close>

text \<open>
  A client of the list: it inserts values and keeps the returned nodes, deletes nodes it was given, and
  runs over the values in order, changing them with a function. The abstract list pairs a node with its value.
\<close>

datatype 'v fl_op = Ins 'v | Del addr | Iter "'v \<Rightarrow> 'v"

datatype 'v fl_result = Node addr | Deleted | Visited "'v list"

fun fl_apply :: "'v fl_op \<Rightarrow> 'v fs_list \<Rightarrow> ('v fl_result \<times> 'v fs_list) option" where
  "fl_apply (Ins v) l = do { (a, l) \<leftarrow> fl_ins v l; Some (Node a, l) }"
| "fl_apply (Del a) l = do { l \<leftarrow> fl_del a l; Some (Deleted, l) }"
| "fl_apply (Iter f) l = do { (l, vs) \<leftarrow> fl_iter (\<lambda>v s. (f v, s @ [v])) l []; Some (Visited vs, l) }"

fun list_apply :: "'v fl_op \<Rightarrow> addr \<times> (addr \<times> 'v) list \<Rightarrow> ('v fl_result \<times> addr \<times> (addr \<times> 'v) list) option" where
  "list_apply (Ins v) (k, xs) = Some (Node k, k + 1, (k, v) # xs)"
| "list_apply (Del a) (k, xs) = (if a \<in> fst ` set xs then Some (Deleted, k, filter (\<lambda>x. fst x \<noteq> a) xs) else None)"
| "list_apply (Iter f) (k, xs) = Some (Visited (map snd xs), k, map (apsnd f) xs)"

lemma fl_del_fresh: "fl_del a l = Some l' \<Longrightarrow> fl_fresh l' = fl_fresh l"
  by (auto simp: fl_del_def fl_upd_def fl_delete_def split: if_splits option.splits bind_splits)

lemma fl_ins_fresh: "fl_ins v l = Some (a, l') \<Longrightarrow> fl_fresh l' = fl_fresh l + 1"
  by (auto simp: fl_ins_def fl_new_node_def fl_upd_def fl_node_def split: if_splits option.splits bind_splits)

lemma fl_apply_ok:
  assumes "fl_rep l xs" "list_apply c (fl_fresh l, xs) = Some (r, k, ys)"
  obtains l' where "fl_apply c l = Some (r, l')" "fl_rep l' ys" "fl_fresh l' = k"
proof (cases c)
  case (Ins v)
  obtain l' where l: "fl_ins v l = Some (fl_fresh l, l')" "fl_rep l' ((fl_fresh l, v) # xs)" by (rule fl_rep_ins [OF assms(1)])
  show thesis using that [of l'] l fl_ins_fresh [OF l(1)] assms(2) Ins by simp
next
  case (Del a)
  then have "a \<in> fst ` set xs" using assms(2) by (simp split: if_splits)
  then obtain us v ws where xs: "xs = us @ (a, v) # ws" by (auto dest: split_list)
  have "distinct (map fst xs)" by (rule fl_repE [OF assms(1)]) simp
  then have "filter (\<lambda>x. fst x \<noteq> a) us = us" "filter (\<lambda>x. fst x \<noteq> a) ws = ws" using xs by (auto simp: filter_id_conv image_iff)
  then have f: "filter (\<lambda>x. fst x \<noteq> a) xs = us @ ws" using xs by simp
  obtain l' where l: "fl_del a l = Some l'" "fl_rep l' (us @ ws)" using fl_rep_del [of l us a v ws] assms(1) xs by blast
  show thesis using that [of l'] l fl_del_fresh [OF l(1)] assms(2) Del f by (auto split: if_splits)
next
  case (Iter f)
  obtain l' where l: "fl_iter (\<lambda>v s. (f v, s @ [v])) l [] = Some (l', map snd xs)" "fl_rep l' (map (apsnd f) xs)" "fl_fresh l' = fl_fresh l"
    by (rule fl_rep_iter [OF assms(1)])
  show thesis using that [of l'] l assms(2) Iter by simp
qed

lemma fl_run_ok:
  assumes "fl_rep l xs" "run_ops list_apply cs (fl_fresh l, xs) = Some (rs, k, ys)"
  shows "\<exists>l'. run_ops fl_apply cs l = Some (rs, l') \<and> fl_rep l' ys"
  using assms
proof (induction cs arbitrary: l xs rs)
  case (Cons c cs)
  obtain r k' zs qs where c: "list_apply c (fl_fresh l, xs) = Some (r, k', zs)" "run_ops list_apply cs (k', zs) = Some (qs, k, ys)" "rs = r # qs"
    using Cons.prems(2) by (auto split: bind_splits)
  obtain l' where l: "fl_apply c l = Some (r, l')" "fl_rep l' zs" "fl_fresh l' = k'" by (rule fl_apply_ok [OF Cons.prems(1) c(1)])
  show ?case using Cons.IH [of l' zs qs] c(2,3) l by auto
qed auto

text \<open>The list of open files in the model of cached inodes: the values, with \<open>remove1\<close> for \<open>del\<close>.\<close>

lemma del_is_remove1:
  assumes "distinct (map fst xs)" "distinct (map snd xs)" "(a, v) \<in> set xs"
  shows "map snd (filter (\<lambda>x. fst x \<noteq> a) xs) = remove1 v (map snd xs)"
  using assms
proof (induction xs)
  case (Cons x xs)
  show ?case
  proof (cases "x = (a, v)")
    case True
    then have "filter (\<lambda>x. fst x \<noteq> a) xs = xs" using Cons.prems(1) by (auto simp: filter_id_conv image_iff)
    then show ?thesis using True by simp
  next
    case False
    then have "(a, v) \<in> set xs" "fst x \<noteq> a" "snd x \<noteq> v" using Cons.prems by (auto simp: image_iff)
    then show ?thesis using Cons by auto
  qed
qed simp

text \<open>
  C37 (refinement): the doubly linked list of open files behaves as a list. A sequence of insertions,
  deletions of nodes the list returned and runs over all values gives on the linked list the results it
  gives on the list of its values: it inserts in front, deletes exactly the given node and visits the
  values in order. Destroying the list afterwards frees every node.
\<close>

theorem fs_list_refines:
  assumes "run_ops list_apply cs (1, []) = Some (rs, k, xs)"
  shows "\<exists>l l'. run_ops fl_apply cs (FSList_new v) = Some (rs, l) \<and> FSList_delete l = Some l' \<and> fl_nodes l' = Map.empty"
proof -
  have "fl_fresh (FSList_new v) = 1" by (simp add: FSList_new_def fl_new_node_def)
  then show ?thesis using fl_run_ok [OF fl_rep_new, of cs v rs k xs] assms fl_rep_delete by fastforce
qed

theorem fs_list_refines_witness:
  "\<exists>l l'. run_ops fl_apply [Ins (5::nat), Ins 7, Iter (\<lambda>x. x + 1), Ins 9, Del 2, Iter id] (FSList_new 0) =
       Some ([Node 1, Node 2, Visited [7, 5], Node 3, Deleted, Visited [9, 6]], l) \<and>
     FSList_delete l = Some l' \<and> fl_nodes l' = Map.empty"
  by (rule fs_list_refines) simp

end
