(* ===== verification/Locks.thy ===== *)
theory Locks
  imports Prelude
begin

text \<open>
  The locks of the program: the mutexes that a handler takes and gives back on its way through the code,
  threads that run handlers side by side, and that they never block each other for good. All locks but
  one are \<open>std::shared_mutex\<close> objects: they are held by one thread exclusively or by several shared. As in
  the default of the C library on Linux, a thread that waits for an exclusive lock does not keep others
  from taking the mutex shared.
\<close>

section \<open>Threads that take locks\<close>

datatype 'l lock_act = Lock 'l | Lock_shared 'l | Unlock 'l | Unlock_shared 'l

text \<open>What a thread holds, with \<open>True\<close> for exclusive locks, and the actions it has yet to do.\<close>

record 'l lock_thread =
  held :: "('l \<times> bool) list"
  todo :: "'l lock_act list"

fun perform :: "'l lock_act \<Rightarrow> ('l \<times> bool) list \<Rightarrow> ('l \<times> bool) list option" where
  "perform (Lock l) hs = Some ((l, True) # hs)"
| "perform (Lock_shared l) hs = Some ((l, False) # hs)"
| "perform (Unlock l) hs = (if (l, True) \<in> set hs then Some (remove1 (l, True) hs) else None)"
| "perform (Unlock_shared l) hs = (if (l, False) \<in> set hs then Some (remove1 (l, False) hs) else None)"

text \<open>
  An exclusive lock waits until no thread holds the mutex, a shared one until no thread holds it
  exclusively. A thread that already holds the mutex waits for itself.
\<close>

fun available :: "'l lock_act \<Rightarrow> ('l \<times> bool) list list \<Rightarrow> bool" where
  "available (Lock l) hss = list_all (\<lambda>hs. (l, True) \<notin> set hs \<and> (l, False) \<notin> set hs) hss"
| "available (Lock_shared l) hss = list_all (\<lambda>hs. (l, True) \<notin> set hs) hss"
| "available _ hss = True"

inductive lock_step :: "'l lock_thread list \<Rightarrow> 'l lock_thread list \<Rightarrow> bool" where
  act: "i < length ts \<Longrightarrow> todo (ts ! i) = a # as \<Longrightarrow> available a (map held ts) \<Longrightarrow>
    perform a (held (ts ! i)) = Some hs \<Longrightarrow> lock_step ts (ts[i := \<lparr>held = hs, todo = as\<rparr>])"

definition start :: "('j \<Rightarrow> 'l lock_act list) \<Rightarrow> 'j list \<Rightarrow> 'l lock_thread list" where
  "start body js = map (\<lambda>j. \<lparr>held = [], todo = body j\<rparr>) js"

definition remaining :: "'l lock_thread list \<Rightarrow> nat" where
  "remaining ts = sum_list (map (\<lambda>t. length (todo t)) ts)"

definition all_done :: "'l lock_thread list \<Rightarrow> bool" where
  "all_done ts = list_all (\<lambda>t. todo t = [] \<and> held t = []) ts"

section \<open>Checking the actions of a thread\<close>

text \<open>
  A sequence of actions is checked from what the thread holds: every action satisfies a condition,
  every unlock finds its lock, and nothing is held at the end.
\<close>

fun checked :: "('l lock_act \<Rightarrow> ('l \<times> bool) list \<Rightarrow> bool) \<Rightarrow> ('l \<times> bool) list \<Rightarrow> 'l lock_act list \<Rightarrow> bool" where
  "checked ok hs [] = (hs = [])"
| "checked ok hs (a # as) = (ok a hs \<and> (case perform a hs of None \<Rightarrow> False | Some hs' \<Rightarrow> checked ok hs' as))"

fun below :: "('l \<Rightarrow> nat) \<Rightarrow> 'l lock_act \<Rightarrow> ('l \<times> bool) list \<Rightarrow> bool" where
  "below rank (Lock l) hs = list_all (\<lambda>(k, _). rank k < rank l) hs"
| "below rank (Lock_shared l) hs = list_all (\<lambda>(k, _). rank k < rank l) hs"
| "below rank _ hs = True"

fun lock_of :: "'l lock_act \<Rightarrow> 'l" where
  "lock_of (Lock l) = l"
| "lock_of (Lock_shared l) = l"
| "lock_of (Unlock l) = l"
| "lock_of (Unlock_shared l) = l"

text \<open>A piece of code that gives back what it takes: checked in front of whatever follows it.\<close>

definition balanced :: "('l lock_act \<Rightarrow> ('l \<times> bool) list \<Rightarrow> bool) \<Rightarrow> ('l \<times> bool) list \<Rightarrow> 'l lock_act list \<Rightarrow> bool" where
  "balanced ok hs t \<longleftrightarrow> (\<forall>rest. checked ok hs rest \<longrightarrow> checked ok hs (t @ rest))"

named_theorems balance \<open>pieces of code that give back the locks they take\<close>

lemma balanced_Nil [balance]: "balanced ok hs []"
  by (simp add: balanced_def)

lemma balanced_append [balance]: "balanced ok hs t \<Longrightarrow> balanced ok hs u \<Longrightarrow> balanced ok hs (t @ u)"
  by (simp add: balanced_def)

lemma balanced_concat: "(\<And>x. x \<in> set xs \<Longrightarrow> balanced ok hs (f x)) \<Longrightarrow> balanced ok hs (concat (map f xs))"
  by (induction xs) (auto intro: balance)

lemma balanced_pair:
  "ok (Lock l) hs \<Longrightarrow> balanced ok ((l, True) # hs) t \<Longrightarrow> ok (Unlock l) ((l, True) # hs) \<Longrightarrow> balanced ok hs (Lock l # t @ [Unlock l])"
  "ok (Lock_shared l) hs \<Longrightarrow> balanced ok ((l, False) # hs) t \<Longrightarrow> ok (Unlock_shared l) ((l, False) # hs) \<Longrightarrow>
    balanced ok hs (Lock_shared l # t @ [Unlock_shared l])"
  by (simp_all add: balanced_def)

lemma balanced_checked: "balanced ok [] t \<Longrightarrow> checked ok [] t"
  unfolding balanced_def by (metis append_Nil2 checked.simps(1))

section \<open>No deadlock\<close>

text \<open>
  The contract: locks have ranks, and no thread asks for a lock of a rank that is not above all it holds.
\<close>

locale lock_discipline =
  fixes rank :: "'l \<Rightarrow> nat" and ok :: "'j \<Rightarrow> 'l lock_act \<Rightarrow> ('l \<times> bool) list \<Rightarrow> bool" and body :: "'j \<Rightarrow> 'l lock_act list"
  assumes ok_below: "ok j a hs \<Longrightarrow> below rank a hs"
    and body_ok: "checked (ok j) [] (body j)"
begin

definition running :: "'j list \<Rightarrow> 'l lock_thread list \<Rightarrow> bool" where
  "running js ts \<longleftrightarrow> length ts = length js \<and> (\<forall>i<length ts. checked (ok (js ! i)) (held (ts ! i)) (todo (ts ! i))) \<and>
     (\<forall>i<length ts. \<forall>k<length ts. i \<noteq> k \<longrightarrow> (\<forall>l m. (l, True) \<in> set (held (ts ! i)) \<longrightarrow> (l, m) \<notin> set (held (ts ! k))))"

lemma running_start: "running js (start body js)"
  by (simp add: running_def start_def body_ok)

lemma perform_sub:
  assumes "perform a hs = Some hs'" "(l, m) \<in> set hs'" "(l, m) \<notin> set hs"
  shows "a = (if m then Lock l else Lock_shared l)"
  using assms by (cases a) (auto split: if_splits dest: set_remove1_subset [THEN subsetD])

lemma excluded:
  "running js ts \<Longrightarrow> i < length js \<Longrightarrow> k < length js \<Longrightarrow> i \<noteq> k \<Longrightarrow> (l, True) \<in> set (held (ts ! i)) \<Longrightarrow> (l, m) \<notin> set (held (ts ! k))"
  by (simp add: running_def)

lemma running_step:
  assumes "running js ts" "lock_step ts ts'"
  shows "running js ts'"
  using assms(2)
proof cases
  case (act i a as hs)
  have i: "i < length ts" "length ts = length js" using act(2) assms(1) by (simp_all add: running_def)
  have "checked (ok (js ! i)) (held (ts ! i)) (todo (ts ! i))" using assms(1) i by (simp add: running_def)
  then have c: "checked (ok (js ! i)) hs as" by (simp add: act(3,5))
  have old: "(l, m) \<notin> set (held (ts ! k))"
    if "j < length ts" "k < length ts" "j \<noteq> k" "(l, True) \<in> set (held (ts ! j))" for j k l m
    using assms(1) that by (simp add: running_def)
  have free: "(l, m') \<notin> set hs" if "k < length ts" "k \<noteq> i" "(l, m) \<in> set (held (ts ! k))" "m \<or> m'" for k l m m'
  proof
    assume h: "(l, m') \<in> set hs"
    have "(l, m') \<notin> set (held (ts ! i))" using old [of k i l m'] old [of i k l m] that i by (cases m) auto
    from perform_sub [OF act(5) h this] have "available (if m' then Lock l else Lock_shared l) (map held ts)" using act(4) by simp
    then show False using that nth_mem [OF that(1)] by (cases m; cases m') (auto simp: list_all_iff)
  qed
  have "(l, m) \<notin> set (held (ts' ! k))"
    if "j < length ts" "k < length ts" "j \<noteq> k" "(l, True) \<in> set (held (ts' ! j))" for j k l m
    using that old [of j k] free [of j l True m] free [of k l m True] i
    by (cases "j = i"; cases "k = i") (auto simp: act(1))
  moreover have "checked (ok (js ! j)) (held (ts' ! j)) (todo (ts' ! j))" if "j < length ts" for j
    using that assms(1) c i by (cases "j = i") (simp_all add: act(1) running_def)
  ultimately show ?thesis using i by (simp add: running_def act(1))
qed

lemma running_steps: "(lock_step ^^ n) (start body js) ts \<Longrightarrow> running js ts"
  by (induction n arbitrary: ts) (auto simp: running_start intro: running_step)

text \<open>What every allowed action keeps of the locks of a thread holds at all times.\<close>

lemma held_invariant:
  assumes "(lock_step ^^ n) (start body js) ts" "i < length js"
    and "\<And>j. P j []" "\<And>j a hs hs'. ok j a hs \<Longrightarrow> perform a hs = Some hs' \<Longrightarrow> P j hs \<Longrightarrow> P j hs'"
  shows "P (js ! i) (held (ts ! i))"
  using assms(1)
proof (induction n arbitrary: ts)
  case 0
  then show ?case using assms(2,3) by (auto simp: start_def)
next
  case (Suc n)
  then obtain us where us: "(lock_step ^^ n) (start body js) us" "lock_step us ts" by auto
  have r: "running js us" by (rule running_steps [OF us(1)])
  from us(2) show ?case
  proof cases
    case (act k a as hs)
    have "checked (ok (js ! k)) (held (us ! k)) (todo (us ! k))" using r act(2) by (simp add: running_def)
    then have "ok (js ! k) a (held (us ! k))" by (simp add: act(3))
    then show ?thesis
      using Suc.IH [OF us(1)] assms(4) [OF _ act(5)] act(2) by (cases "i = k") (auto simp: act(1))
  qed
qed

lemma running_todo:
  assumes "running js ts" "i < length ts"
  shows "todo (ts ! i) = [] \<Longrightarrow> held (ts ! i) = []"
    and "todo (ts ! i) = a # as \<Longrightarrow> below rank a (held (ts ! i)) \<and> (\<exists>hs. perform a (held (ts ! i)) = Some hs)"
proof -
  have c: "checked (ok (js ! i)) (held (ts ! i)) (todo (ts ! i))" using assms by (simp add: running_def)
  show "todo (ts ! i) = [] \<Longrightarrow> held (ts ! i) = []" using c by simp
  show "todo (ts ! i) = a # as \<Longrightarrow> below rank a (held (ts ! i)) \<and> (\<exists>hs. perform a (held (ts ! i)) = Some hs)"
    using c ok_below by (auto split: option.splits)
qed

text \<open>A thread that waits for a lock waits for one that wants a lock of a higher rank.\<close>

lemma waits_upward:
  assumes "running js ts" "i < length ts" "todo (ts ! i) = a # as" "\<not> available a (map held ts)"
  obtains k b bs where "k < length ts" "todo (ts ! k) = b # bs" "available b (map held ts) \<or> rank (lock_of a) < rank (lock_of b)"
proof -
  obtain k m where k: "k < length ts" "(lock_of a, m) \<in> set (held (ts ! k))"
    using assms(4) by (cases a) (auto simp: list_all_iff in_set_conv_nth [of _ ts])
  then have "todo (ts ! k) \<noteq> []" using running_todo(1) [OF assms(1) k(1)] by auto
  then obtain b bs where b: "todo (ts ! k) = b # bs" by (cases "todo (ts ! k)") auto
  have "below rank b (held (ts ! k))" using running_todo(2) [OF assms(1) k(1) b] by simp
  then have "available b (map held ts) \<or> rank (lock_of a) < rank (lock_of b)"
    using k(2) by (cases b) (auto simp: list_all_iff)
  then show thesis using that [OF k(1) b] by simp
qed

lemma not_stuck:
  assumes "running js ts" "\<not> all_done ts"
  shows "\<exists>ts'. lock_step ts ts'"
proof -
  define U where "U = {i. i < length ts \<and> todo (ts ! i) \<noteq> []}"
  let ?f = "\<lambda>i. rank (lock_of (hd (todo (ts ! i))))"
  have "\<exists>i<length ts. todo (ts ! i) \<noteq> []"
    using assms(2) running_todo(1) [OF assms(1)] by (auto simp: all_done_def list_all_length)
  then have U: "finite U" "U \<noteq> {}" by (auto simp: U_def)
  then have "Max (?f ` U) \<in> ?f ` U" by (intro Max_in) auto
  then obtain i where i: "Max (?f ` U) = ?f i" "i \<in> U" by (rule imageE)
  have top: "?f k \<le> ?f i" if "k \<in> U" for k using that U by (simp flip: i(1))
  have "\<exists>i\<in>U. available (hd (todo (ts ! i))) (map held ts)"
  proof (rule ccontr)
    assume n: "\<not> ?thesis"
    obtain a as where a: "i < length ts" "todo (ts ! i) = a # as" using i(2) by (cases "todo (ts ! i)") (auto simp: U_def)
    have na: "\<not> available a (map held ts)" using n i(2) a(2) by force
    obtain k b bs where k: "k < length ts" "todo (ts ! k) = b # bs" "available b (map held ts) \<or> rank (lock_of a) < rank (lock_of b)"
      by (rule waits_upward [OF assms(1) a na])
    then have "k \<in> U" by (simp add: U_def)
    then show False using n top [of k] k a(2) by force
  qed
  then obtain i where i: "i < length ts" "todo (ts ! i) \<noteq> []" "available (hd (todo (ts ! i))) (map held ts)" by (auto simp: U_def)
  then obtain a as where a: "todo (ts ! i) = a # as" by (cases "todo (ts ! i)") auto
  then show ?thesis using running_todo(2) [OF assms(1) i(1) a] i act [of i ts a as] by auto
qed

lemma remaining_step: "lock_step ts ts' \<Longrightarrow> remaining ts = Suc (remaining ts')"
proof (induction rule: lock_step.induct)
  case (act i ts a as hs)
  then show ?case using elem_le_sum_list [of i "map (\<lambda>t. length (todo t)) ts"]
    by (simp add: remaining_def map_update sum_list_update)
qed

lemma remaining_steps: "(lock_step ^^ n) ts ts' \<Longrightarrow> remaining ts = n + remaining ts'"
  by (induction n arbitrary: ts') (auto dest: remaining_step)

lemma remaining_0: "running js ts \<Longrightarrow> remaining ts = 0 \<longleftrightarrow> all_done ts"
  using running_todo(1) [of js ts] by (auto simp: remaining_def all_done_def list_all_length all_set_conv_all_nth)

text \<open>Whatever the schedule: all threads are done after the sum of their actions, and before that one of them can go on.\<close>

lemma all_finish:
  assumes "(lock_step ^^ n) (start body js) ts"
  shows "n \<le> sum_list (map (\<lambda>j. length (body j)) js)"
    and "all_done ts \<longleftrightarrow> n = sum_list (map (\<lambda>j. length (body j)) js)"
    and "n < sum_list (map (\<lambda>j. length (body j)) js) \<Longrightarrow> \<exists>ts'. lock_step ts ts'"
proof -
  have r: "running js ts" by (rule running_steps [OF assms])
  have s: "remaining (start body js) = sum_list (map (\<lambda>j. length (body j)) js)" by (simp add: remaining_def start_def comp_def)
  show "n \<le> sum_list (map (\<lambda>j. length (body j)) js)"
    and "all_done ts \<longleftrightarrow> n = sum_list (map (\<lambda>j. length (body j)) js)"
    and "n < sum_list (map (\<lambda>j. length (body j)) js) \<Longrightarrow> \<exists>ts'. lock_step ts ts'"
    using remaining_steps [OF assms] remaining_0 [OF r] not_stuck [OF r] s by auto
qed

end

section \<open>The locks of the handlers\<close>

text \<open>
  \<open>_big_lock\<close>, the \<open>rwlock\<close> of an open file, the mutex of the \<open>OpManager\<close>, the \<open>inode_rwlock_\<close> of a
  cached inode, the static mutexes of \<open>alloc_block\<close> and \<open>get_block\<close>, and the mutex of the log.
\<close>

datatype mutex = Big_lock | Rwlock addr | Manager_lock | Inode_rwlock addr | Alloc_lock | Get_block_lock | Log_lock

text \<open>The guards \<open>std::unique_lock\<close> and \<open>std::shared_lock\<close>, and pairs of \<open>lock\<close> and \<open>unlock\<close>.\<close>

definition unique_lock :: "mutex \<Rightarrow> mutex lock_act list \<Rightarrow> mutex lock_act list" where
  "unique_lock l t = Lock l # t @ [Unlock l]"

definition shared_lock :: "mutex \<Rightarrow> mutex lock_act list \<Rightarrow> mutex lock_act list" where
  "shared_lock l t = Lock_shared l # t @ [Unlock_shared l]"

text \<open>\<open>get_block\<close> finds the block in the cache or takes the mutex again, exclusively.\<close>

definition get_block_locks :: "bool \<Rightarrow> mutex lock_act list" where
  "get_block_locks hit = shared_lock Get_block_lock [] @ (if hit then [] else unique_lock Get_block_lock [])"

definition get_blocks_locks :: "bool list \<Rightarrow> mutex lock_act list" where
  "get_blocks_locks hits = concat (map get_block_locks hits)"

text \<open>\<open>alloc_block\<close> of an inode reads index blocks under its mutex.\<close>

definition alloc_block_locks :: "bool list \<Rightarrow> mutex lock_act list" where
  "alloc_block_locks hits = unique_lock Alloc_lock (get_blocks_locks hits)"

text \<open>Everything else in \<open>FileSystem\<close> takes locks only through these two: a sequence of calls.\<close>

datatype fs_call = Get_block bool | Alloc_block "bool list"

fun fs_call_locks :: "fs_call \<Rightarrow> mutex lock_act list" where
  "fs_call_locks (Get_block hit) = get_block_locks hit"
| "fs_call_locks (Alloc_block hits) = alloc_block_locks hits"

definition fs_locks :: "fs_call list \<Rightarrow> mutex lock_act list" where
  "fs_locks cs = concat (map fs_call_locks cs)"

definition get_cache_locks :: "mutex lock_act list" where
  "get_cache_locks = unique_lock Manager_lock []"

definition upd_cache_locks :: "addr option \<Rightarrow> mutex lock_act list" where
  "upd_cache_locks ic = unique_lock Manager_lock (case ic of None \<Rightarrow> [] | Some a \<Rightarrow> unique_lock (Inode_rwlock a) [])"

definition rel_cache_locks :: "addr option \<Rightarrow> mutex lock_act list" where
  "rel_cache_locks ic = unique_lock Manager_lock (case ic of None \<Rightarrow> [] | Some a \<Rightarrow> unique_lock (Inode_rwlock a) [])"

definition delete_fd_locks :: "addr \<Rightarrow> mutex lock_act list" where
  "delete_fd_locks a = unique_lock (Inode_rwlock a) []"

text \<open>Reading keeps the cached inode shared; writing keeps it shared, and takes it exclusively when the file grows.\<close>

definition copy_to_buf_locks :: "addr \<Rightarrow> addr \<Rightarrow> bool list \<Rightarrow> mutex lock_act list" where
  "copy_to_buf_locks fd a hits = unique_lock (Rwlock fd) (shared_lock (Inode_rwlock a) (get_blocks_locks hits))"

definition fd_write_locks :: "addr \<Rightarrow> addr \<Rightarrow> bool list \<Rightarrow> fs_call list option \<Rightarrow> mutex lock_act list" where
  "fd_write_locks fd a hits grow = unique_lock (Rwlock fd)
     (shared_lock (Inode_rwlock a) (get_blocks_locks hits) @
      (case grow of None \<Rightarrow> [] | Some cs \<Rightarrow> unique_lock (Inode_rwlock a) (fs_locks cs)))"

text \<open>
  A run of a handler: the calls it makes into \<open>FileSystem\<close>, the addresses of the open file and of the
  cached inode, and how far it gets (\<open>None\<close> for an early return).
\<close>

datatype lookup = Failed | No_cache | Cached addr

datatype run =
    Run_read "(addr \<times> addr \<times> bool list) option"
  | Run_write "(addr \<times> addr \<times> bool list \<times> fs_call list option) option"
  | Run_open "fs_call list" lookup
  | Run_getattr "fs_call list" lookup
  | Run_edit "fs_call list" lookup
  | Run_unlink "fs_call list" "addr option" "fs_call list"
  | Run_release "addr option"
  | Run_fsync "addr option"
  | Run_tree "fs_call list"
  | Run_nothing

definition read_locks :: "(addr \<times> addr \<times> bool list) option \<Rightarrow> mutex lock_act list" where
  "read_locks r = shared_lock Big_lock (case r of None \<Rightarrow> [] | Some (fd, a, hits) \<Rightarrow> copy_to_buf_locks fd a hits)"

definition write_locks :: "(addr \<times> addr \<times> bool list \<times> fs_call list option) option \<Rightarrow> mutex lock_act list" where
  "write_locks r = shared_lock Big_lock (case r of None \<Rightarrow> [] | Some (fd, a, hits, grow) \<Rightarrow> fd_write_locks fd a hits grow)"

text \<open>\<open>create\<close> and \<open>open\<close> put the new file on the list of its inode and then set the times.\<close>

definition open_locks :: "fs_call list \<Rightarrow> lookup \<Rightarrow> mutex lock_act list" where
  "open_locks cs r = unique_lock Big_lock (fs_locks cs @ (case r of
     Failed \<Rightarrow> [] | No_cache \<Rightarrow> get_cache_locks
   | Cached a \<Rightarrow> get_cache_locks @ upd_cache_locks (Some a) @ unique_lock (Inode_rwlock a) []))"

definition getattr_locks :: "fs_call list \<Rightarrow> lookup \<Rightarrow> mutex lock_act list" where
  "getattr_locks cs r = unique_lock Big_lock (fs_locks cs @ (case r of
     Failed \<Rightarrow> [] | No_cache \<Rightarrow> get_cache_locks
   | Cached a \<Rightarrow> get_cache_locks @ shared_lock (Inode_rwlock a) [] @ rel_cache_locks (Some a)))"

text \<open>\<open>mkdir\<close>, \<open>chmod\<close>, \<open>chown\<close> and \<open>utimens\<close> change and commit the cached inode.\<close>

definition edit_locks :: "fs_call list \<Rightarrow> lookup \<Rightarrow> mutex lock_act list" where
  "edit_locks cs r = unique_lock Big_lock (fs_locks cs @ (case r of
     Failed \<Rightarrow> [] | No_cache \<Rightarrow> get_cache_locks
   | Cached a \<Rightarrow> get_cache_locks @ unique_lock (Inode_rwlock a) [] @ rel_cache_locks (Some a)))"

definition unlink_locks :: "fs_call list \<Rightarrow> addr option \<Rightarrow> fs_call list \<Rightarrow> mutex lock_act list" where
  "unlink_locks cs r ds = unique_lock Big_lock (fs_locks cs @ (case r of
     None \<Rightarrow> []
   | Some a \<Rightarrow> get_cache_locks @ unique_lock (Inode_rwlock a) [] @ rel_cache_locks (Some a) @ fs_locks ds))"

definition release_locks :: "addr option \<Rightarrow> mutex lock_act list" where
  "release_locks r = unique_lock Big_lock (case r of None \<Rightarrow> [] | Some a \<Rightarrow> delete_fd_locks a @ rel_cache_locks (Some a))"

definition fsync_locks :: "addr option \<Rightarrow> mutex lock_act list" where
  "fsync_locks r = unique_lock Big_lock (case r of None \<Rightarrow> [] | Some a \<Rightarrow> shared_lock (Inode_rwlock a) [])"

text \<open>
  \<open>rename\<close>, \<open>link\<close>, \<open>rmdir\<close>, \<open>readdir\<close>, \<open>access\<close>, \<open>symlink\<close>, \<open>readlink\<close> and \<open>truncate\<close> work under the big
  lock alone; \<open>flush\<close> takes no lock.
\<close>

fun run_locks :: "run \<Rightarrow> mutex lock_act list" where
  "run_locks (Run_read r) = read_locks r"
| "run_locks (Run_write r) = write_locks r"
| "run_locks (Run_open cs r) = open_locks cs r"
| "run_locks (Run_getattr cs r) = getattr_locks cs r"
| "run_locks (Run_edit cs r) = edit_locks cs r"
| "run_locks (Run_unlink cs r ds) = unlink_locks cs r ds"
| "run_locks (Run_release r) = release_locks r"
| "run_locks (Run_fsync r) = fsync_locks r"
| "run_locks (Run_tree cs) = unique_lock Big_lock (fs_locks cs)"
| "run_locks Run_nothing = []"

text \<open>Messages: any number of calls of \<open>__LOG\<close> that reach the log, before every action and at the end.\<close>

definition log_locks :: "nat \<Rightarrow> mutex lock_act list" where
  "log_locks n = concat (map (\<lambda>_. unique_lock Log_lock []) [0..<n])"

fun logged :: "nat list \<Rightarrow> mutex lock_act list \<Rightarrow> mutex lock_act list" where
  "logged [] as = as"
| "logged (n # ns) [] = log_locks n"
| "logged (n # ns) (a # as) = log_locks n @ a # logged ns as"

fun job_locks :: "run \<times> nat list \<Rightarrow> mutex lock_act list" where
  "job_locks (r, ns) = logged ns (run_locks r)"

section \<open>The discipline of the handlers\<close>

fun mutex_rank :: "mutex \<Rightarrow> nat" where
  "mutex_rank Big_lock = 0"
| "mutex_rank (Rwlock _) = 1"
| "mutex_rank Manager_lock = 2"
| "mutex_rank (Inode_rwlock _) = 3"
| "mutex_rank Alloc_lock = 4"
| "mutex_rank Get_block_lock = 5"
| "mutex_rank Log_lock = 6"

text \<open>Only \<open>read\<close> and \<open>write\<close> share the big lock.\<close>

fun alone :: "run \<Rightarrow> bool" where
  "alone (Run_read _) = False"
| "alone (Run_write _) = False"
| "alone _ = True"

text \<open>Locks other than that of the log are taken under the big lock, which is given back last.\<close>

fun under_big :: "bool \<Rightarrow> mutex lock_act \<Rightarrow> (mutex \<times> bool) list \<Rightarrow> bool" where
  "under_big m (Lock l) hs = (if l = Big_lock then m else l = Log_lock \<or> (Big_lock, m) \<in> set hs)"
| "under_big m (Lock_shared l) hs = (if l = Big_lock then \<not> m else l = Log_lock \<or> (Big_lock, m) \<in> set hs)"
| "under_big m (Unlock l) hs = (l = Big_lock \<longrightarrow> hs = [(Big_lock, m)])"
| "under_big m (Unlock_shared l) hs = (l = Big_lock \<longrightarrow> hs = [(Big_lock, m)])"

definition disciplined :: "bool \<Rightarrow> mutex lock_act \<Rightarrow> (mutex \<times> bool) list \<Rightarrow> bool" where
  "disciplined m a hs \<longleftrightarrow> below mutex_rank a hs \<and> under_big m a hs"

fun job_ok :: "run \<times> nat list \<Rightarrow> mutex lock_act \<Rightarrow> (mutex \<times> bool) list \<Rightarrow> bool" where
  "job_ok (r, ns) = disciplined (alone r)"

lemmas guards = unique_lock_def shared_lock_def

lemma unique_lock_balanced [balance]:
  assumes "list_all (\<lambda>(k, _). mutex_rank k < mutex_rank l) hs" "under_big m (Lock l) hs" "balanced (disciplined m) ((l, True) # hs) t"
    "l = Big_lock \<Longrightarrow> hs = []"
  shows "balanced (disciplined m) hs (unique_lock l t)"
  unfolding guards by (rule balanced_pair) (use assms in \<open>auto simp: disciplined_def split: if_splits\<close>)

lemma shared_lock_balanced [balance]:
  assumes "list_all (\<lambda>(k, _). mutex_rank k < mutex_rank l) hs" "under_big m (Lock_shared l) hs" "balanced (disciplined m) ((l, False) # hs) t"
    "l = Big_lock \<Longrightarrow> hs = []"
  shows "balanced (disciplined m) hs (shared_lock l t)"
  unfolding guards by (rule balanced_pair) (use assms in \<open>auto simp: disciplined_def split: if_splits\<close>)

text \<open>Calls into \<open>FileSystem\<close> under the big lock and locks of lower rank.\<close>

lemma get_blocks_balanced [balance]:
  "list_all (\<lambda>(k, _). mutex_rank k < 5) hs \<Longrightarrow> (Big_lock, m) \<in> set hs \<Longrightarrow> balanced (disciplined m) hs (get_blocks_locks hits)"
  unfolding get_blocks_locks_def by (rule balanced_concat) (auto simp: get_block_locks_def intro!: balance)

lemma below_5: "list_all (\<lambda>(k, _). mutex_rank k < 4) hs \<Longrightarrow> list_all (\<lambda>(k, _). mutex_rank k < 5) hs"
  by (induction hs) auto

lemma alloc_block_balanced [balance]:
  "list_all (\<lambda>(k, _). mutex_rank k < 4) hs \<Longrightarrow> (Big_lock, m) \<in> set hs \<Longrightarrow> balanced (disciplined m) hs (alloc_block_locks hits)"
  unfolding alloc_block_locks_def by (auto simp: below_5 intro!: balance)

lemma fs_balanced [balance]:
  assumes "list_all (\<lambda>(k, _). mutex_rank k < 4) hs" "(Big_lock, m) \<in> set hs"
  shows "balanced (disciplined m) hs (fs_locks cs)"
  unfolding fs_locks_def
proof (rule balanced_concat)
  fix c
  have "list_all (\<lambda>(k, _). mutex_rank k < 5) hs" by (rule below_5 [OF assms(1)])
  then show "balanced (disciplined m) hs (fs_call_locks c)"
    using alloc_block_balanced [OF assms] get_blocks_balanced [OF _ assms(2), of "[b]" for b] assms(2)
    by (cases c) (auto simp: get_blocks_locks_def)
qed

lemmas cache_locks = get_cache_locks_def upd_cache_locks_def rel_cache_locks_def delete_fd_locks_def

lemma run_locks_balanced: "balanced (disciplined (alone r)) [] (run_locks r)"
proof (cases r)
  case (Run_read x)
  then show ?thesis by (auto simp: read_locks_def copy_to_buf_locks_def split: option.splits intro!: balance)
next
  case (Run_write x)
  then show ?thesis by (auto simp: write_locks_def fd_write_locks_def split: option.splits intro!: balance)
qed (auto simp: open_locks_def getattr_locks_def edit_locks_def unlink_locks_def release_locks_def fsync_locks_def cache_locks
       split: option.splits lookup.splits intro!: balance)

lemma log_balanced:
  "list_all (\<lambda>(k, _). mutex_rank k < 6) hs \<Longrightarrow> balanced (disciplined m) hs (log_locks n)"
  unfolding log_locks_def by (rule balanced_concat) (auto intro!: balance)

lemma logged_checked:
  assumes "checked (disciplined m) hs as" "list_all (\<lambda>a. lock_of a \<noteq> Log_lock) as" "list_all (\<lambda>(k, _). mutex_rank k < 6) hs"
  shows "checked (disciplined m) hs (logged ns as)"
  using assms
proof (induction ns as arbitrary: hs rule: logged.induct)
  case (2 n ns)
  then show ?case using balanced_checked [OF log_balanced [of "[]"]] by simp
next
  case (3 n ns a as)
  obtain hs' where a: "disciplined m a hs" "perform a hs = Some hs'" "checked (disciplined m) hs' as"
    using "3.prems"(1) by (auto split: option.splits)
  have "mutex_rank (lock_of a) < 6" using "3.prems"(2) by (cases "lock_of a") simp_all
  then have "list_all (\<lambda>(k, _). mutex_rank k < 6) hs'"
    using a(2) "3.prems"(3) by (cases a) (auto simp: list_all_iff split: if_splits dest!: set_remove1_subset [THEN subsetD])
  then have "checked (disciplined m) hs (a # logged ns as)" using "3.IH" [OF a(3)] "3.prems"(2) a(1,2) by simp
  then show ?case using log_balanced [OF "3.prems"(3)] by (simp add: balanced_def)
qed simp

lemma run_locks_no_log: "list_all (\<lambda>a. lock_of a \<noteq> Log_lock) (run_locks r)"
proof -
  have g: "list_all (\<lambda>a. lock_of a \<noteq> Log_lock) (get_blocks_locks hits)" for hits
    by (induction hits) (auto simp: get_blocks_locks_def get_block_locks_def guards)
  have "list_all (\<lambda>a. lock_of a \<noteq> Log_lock) (fs_call_locks c)" for c
    by (cases c) (simp_all add: g alloc_block_locks_def guards get_block_locks_def)
  then have f: "list_all (\<lambda>a. lock_of a \<noteq> Log_lock) (fs_locks cs)" for cs
    by (induction cs) (auto simp: fs_locks_def)
  show ?thesis
    by (cases r) (auto simp: f g guards read_locks_def copy_to_buf_locks_def write_locks_def fd_write_locks_def open_locks_def
        getattr_locks_def edit_locks_def unlink_locks_def release_locks_def fsync_locks_def cache_locks split: option.splits lookup.splits)
qed

interpretation handlers: lock_discipline mutex_rank job_ok job_locks
proof unfold_locales
  show "below mutex_rank a hs" if "job_ok j a hs" for j a hs
    using that by (cases j) (simp add: disciplined_def)
  show "checked (job_ok j) [] (job_locks j)" for j
    using logged_checked [OF balanced_checked [OF run_locks_balanced] run_locks_no_log] by (cases j) simp
qed

definition work :: "(run \<times> nat list) list \<Rightarrow> nat" where
  "work js = sum_list (map (\<lambda>j. length (job_locks j)) js)"

text \<open>
  C35 (liveness): any number of handlers that run side by side finish, whatever the schedule: as long as
  not all of them are done some thread can take its next step, no run is longer than all their lock
  operations together, and after so many steps every handler is done and holds no lock.
\<close>

theorem handlers_finish:
  assumes "(lock_step ^^ n) (start job_locks js) ts"
  shows "n \<le> work js \<and> (all_done ts \<longleftrightarrow> n = work js) \<and> (n < work js \<longrightarrow> (\<exists>ts'. lock_step ts ts'))"
  using handlers.all_finish [OF assms] by (auto simp: work_def)

theorem handlers_finish_witness:
  "\<exists>ts'. lock_step (start job_locks [(Run_release (Some 3), [1]), (Run_write (Some (7, 3, [], None)), [])]) ts'"
proof -
  have "0 < work [(Run_release (Some 3), [1]), (Run_write (Some (7, 3, [], None)), [])]"
    by (simp add: work_def release_locks_def guards)
  then show ?thesis using handlers_finish [of 0 "[(Run_release (Some 3), [1]), (Run_write (Some (7, 3, [], None)), [])]"] by simp
qed

section \<open>Handlers that run alone\<close>

definition critical :: "mutex lock_thread \<Rightarrow> bool" where
  "critical t = list_ex (\<lambda>(l, _). l \<noteq> Log_lock) (held t)"

lemma under_big_perform:
  assumes "under_big m a hs" "perform a hs = Some hs'" "list_ex (\<lambda>(l, _). l \<noteq> Log_lock) hs \<longrightarrow> (Big_lock, m) \<in> set hs"
  shows "list_ex (\<lambda>(l, _). l \<noteq> Log_lock) hs' \<longrightarrow> (Big_lock, m) \<in> set hs'"
proof -
  have sub: "list_ex P (remove1 x hs) \<Longrightarrow> list_ex P hs" for P and x :: "mutex \<times> bool"
    using set_remove1_subset [of x hs] by (auto simp: list_ex_iff)
  show ?thesis using assms by (cases a) (auto split: if_splits dest: sub)
qed

lemma critical_big:
  assumes "(lock_step ^^ n) (start job_locks js) ts" "i < length js" "critical (ts ! i)"
  shows "(Big_lock, alone (fst (js ! i))) \<in> set (held (ts ! i))"
proof -
  let ?P = "\<lambda>j hs. list_ex (\<lambda>(l, _). l \<noteq> Log_lock) hs \<longrightarrow> (Big_lock, alone (fst j)) \<in> set hs"
  have "?P (js ! i) (held (ts ! i))"
  proof (rule handlers.held_invariant [OF assms(1,2)])
    show "?P j hs'" if "job_ok j a hs" "perform a hs = Some hs'" "?P j hs" for j a hs hs'
      using that(1) by (intro under_big_perform [OF _ that(2,3)]) (cases j, simp add: disciplined_def)
  qed simp
  then show ?thesis using assms(3) by (simp add: critical_def)
qed

text \<open>
  C36 (safety): a handler other than \<open>read\<close> and \<open>write\<close> runs alone: while it is between its first and its last
  lock, no other handler is, so that its steps are those of the sequential program.
\<close>

theorem handler_alone:
  assumes "(lock_step ^^ n) (start job_locks js) ts" "i < length js" "k < length js" "i \<noteq> k"
    and "alone (fst (js ! i))" "critical (ts ! i)"
  shows "\<not> critical (ts ! k)"
proof
  assume "critical (ts ! k)"
  then have k: "(Big_lock, alone (fst (js ! k))) \<in> set (held (ts ! k))" by (rule critical_big [OF assms(1,3)])
  have "(Big_lock, True) \<in> set (held (ts ! i))" using critical_big [OF assms(1,2,6)] assms(5) by simp
  then show False using handlers.excluded [OF handlers.running_steps [OF assms(1)] assms(2-4)] k by blast
qed

theorem handler_alone_witness:
  "\<exists>ts. (lock_step ^^ 1) (start job_locks [(Run_tree [], []), (Run_read None, [])]) ts \<and> critical (ts ! 0) \<and> \<not> critical (ts ! 1)"
proof -
  let ?js = "[(Run_tree [], []), (Run_read None, [])]"
  let ?ts = "[\<lparr>held = [(Big_lock, True)], todo = [Unlock Big_lock]\<rparr>, \<lparr>held = [], todo = [Lock_shared Big_lock, Unlock_shared Big_lock]\<rparr>]"
  have "lock_step (start job_locks ?js) ?ts"
    using act [of 0 "start job_locks ?js" "Lock Big_lock" "[Unlock Big_lock]" "[(Big_lock, True)]"]
    by (simp add: start_def guards fs_locks_def read_locks_def)
  then have "(lock_step ^^ 1) (start job_locks ?js) ?ts" by (simp add: eq_OO)
  moreover have c: "critical (?ts ! 0)" by (simp add: critical_def)
  ultimately show ?thesis using handler_alone [of 1 ?js ?ts 0 1] by auto
qed

end
