(* ===== verification/Logging.thy ===== *)
theory Logging
  imports Prelude
begin

text \<open>
  The log (\<open>utils/logging.h\<close>, \<open>utils/logging.cpp\<close>): a level, and a file that is open or not. The file is the
  list of lines written so far. The text of a message, formatted by \<open>vfprintf\<close>, is an argument, and so
  is whether \<open>fopen\<close> succeeds.
\<close>

record logger =
  loglevel :: int
  logfile :: "string list option"

definition LOG_ERR :: int where [simp]: "LOG_ERR = 3"
definition LOG_DEBUG :: int where [simp]: "LOG_DEBUG = 7"

definition DEFAULT_LOG_LEVEL :: "bool \<Rightarrow> int" where
  "DEFAULT_LOG_LEVEL ndebug = (if ndebug then LOG_ERR else LOG_DEBUG)"

definition loglevel_str :: "string list" where
  "loglevel_str = [''[emerg]'', ''[alert]'', ''[crit] '', ''[err]  '', ''[warn] '', ''[notic]'', ''[info] '', ''[debug]'']"

text \<open>The conversion \<open>%d\<close> of a line number.\<close>

fun decimal :: "nat \<Rightarrow> string" where
  "decimal n = (if n < 10 then [char_of (48 + n)] else decimal (n div 10) @ [char_of (48 + n mod 10)])"

declare decimal.simps [simp del]

text \<open>The macros in front of \<open>__LOG\<close> pass the function and the line; a level without a name reads outside the table.\<close>

definition LOG :: "int \<Rightarrow> string \<Rightarrow> nat \<Rightarrow> string \<Rightarrow> logger \<Rightarrow> logger option" where
  "LOG level func line msg lg =
     (case logfile lg of
        None \<Rightarrow> Some lg
      | Some out \<Rightarrow>
          if level < 0 then Some lg
          else if level > loglevel lg then Some lg
          else do {
            defined_if (nat level < length loglevel_str);
            Some (lg\<lparr>logfile := Some (out @ [loglevel_str ! nat level @ ''['' @ func @ '':'' @ decimal line @ ''] '' @ msg])\<rparr>)
          })"

definition logging_setlevel :: "int \<Rightarrow> logger \<Rightarrow> logger" where
  "logging_setlevel new_level lg = lg\<lparr>loglevel := new_level\<rparr>"

definition logging_open :: "string option \<Rightarrow> bool \<Rightarrow> logger \<Rightarrow> int \<times> logger" where
  "logging_open path fopen_ok lg =
     (case path of
        None \<Rightarrow> (0, lg)
      | Some _ \<Rightarrow> if fopen_ok then (0, lg\<lparr>logfile := Some []\<rparr>) else (-1, lg\<lparr>logfile := None\<rparr>))"

section \<open>What reaches the log\<close>

lemma length_loglevel_str [simp]: "length loglevel_str = 8"
  by (simp add: loglevel_str_def)

text \<open>A message is written exactly if the file is open and its level is not above that of the log; the named levels are in the table.\<close>

lemma LOG_written:
  assumes "0 \<le> level" "level \<le> LOG_DEBUG"
  shows "LOG level func line msg lg = Some (lg\<lparr>logfile := map_option (\<lambda>out. if level \<le> loglevel lg
     then out @ [loglevel_str ! nat level @ ''['' @ func @ '':'' @ decimal line @ ''] '' @ msg] else out) (logfile lg)\<rparr>)"
proof -
  have "nat level < 8" using assms by simp
  then show ?thesis using assms(1) by (cases lg; cases "logfile lg") (auto simp: LOG_def)
qed

text \<open>A release build writes errors and worse; a debug build writes everything. Both only after \<open>logging_open\<close>.\<close>

lemma LOG_default:
  assumes "logging_open (Some path) True \<lparr>loglevel = DEFAULT_LOG_LEVEL nd, logfile = None\<rparr> = (r, lg)" "0 \<le> level" "level \<le> LOG_DEBUG"
  shows "LOG level func line msg lg = Some lg \<longleftrightarrow> nd \<and> LOG_ERR < level"
proof -
  have l: "lg = \<lparr>loglevel = if nd then 3 else 7, logfile = Some []\<rparr>" using assms(1) by (auto simp: logging_open_def DEFAULT_LOG_LEVEL_def)
  have "nat level < 8" using assms(2,3) by simp
  then show ?thesis using assms(2,3) by (cases nd) (simp_all add: l LOG_def)
qed

text \<open>Before the log is opened no message changes anything, and a level without a name is not an error.\<close>

lemma LOG_closed: "logfile lg = None \<Longrightarrow> LOG level func line msg lg = Some lg"
  by (simp add: LOG_def)

text \<open>With a log level above the table, a message without a named level reads outside of it.\<close>

lemma LOG_undefined:
  "LOG level func line msg (logging_setlevel n \<lparr>loglevel = k, logfile = Some out\<rparr>) = None \<longleftrightarrow> LOG_DEBUG < level \<and> level \<le> n"
  by (cases "nat level < 8") (auto simp: LOG_def logging_setlevel_def)

end
