(* ===== verification/Spec2Isabelle.thy ===== *)
theory Spec2Isabelle
  imports File_Serve File_Gap Fs_Path FS_List Locks Logging
begin

text \<open>
  NaiveFS is a file system in user space, in the format of ext2, served through FUSE. The code under
  \<open>src/\<close> consists of a disk (\<open>utils/disk.cpp\<close>), blocks and block groups (\<open>block.h\<close>, \<open>block.cpp\<close>), a
  block cache and a directory-entry cache (\<open>cache.h\<close>, \<open>cache.cpp\<close>), the class \<open>FileSystem\<close>
  (\<open>filesystem.h\<close>, \<open>filesystem.cpp\<close>), open files and cached inodes (\<open>operation.h\<close>,
  \<open>operation/operation.cpp\<close>) and the FUSE handlers (\<open>operation/*.cpp\<close>). A handler parses its path,
  looks the inode up through the directory-entry cache or by visiting the blocks of directories,
  works on a reference-counted copy of the inode, and reads or writes blocks through the block
  cache, which writes dirty blocks back when it evicts them or is flushed.

  \<^bold>\<open>Conventions.\<close> A function of the code that can fail returns what the code returns (a return code, a
  boolean, a null pointer); the outer \<open>option\<close> is \<open>None\<close> when the code has no defined continuation: a
  failed \<open>ASSERT\<close> of a debug build, a null or dangling pointer, an access outside an array, or a loop
  that does not end. State is passed explicitly. Machine integers keep their width; contents of blocks
  are functions from offsets to bytes. Objects that the code shares through pointers live in explicit
  heaps: block objects in \<open>store\<close>, cache nodes in \<open>bc_nodes\<close> and \<open>dc_nodes\<close>, block groups in
  \<open>fs_gheap\<close>, cached inodes and open files in \<open>op_state\<close>. \<open>std::map\<close> is an association list ordered by
  key, \<open>std::unordered_map\<close> an association list. The current time, the FUSE context and the buffer that
  \<open>readdir\<close> fills are parameters or results.

  \<^bold>\<open>Theories.\<close>
  \<^item> \<open>Prelude\<close>: word types, assertions, byte strings and little-endian numbers, the locale \<open>codec\<close> of
    fixed-size records in a byte string, ordered association lists.
  \<^item> \<open>Common\<close> (\<open>common.h\<close>): constants, alignment, return codes and their error numbers.
  \<^item> \<open>Bitmap\<close> (\<open>bitmap.h\<close>, \<open>bitmap.cpp\<close>): the operations, the locale \<open>bit_table\<close> of allocation tables, and
    that \<open>find\<close> returns the least clear bit.
  \<^item> \<open>Fs_Path\<close> (\<open>path.h\<close>): the parser; parsing and joining are inverse.
  \<^item> \<open>Ext2\<close> (\<open>ext2/*.h\<close>): the on-disk records and their layout, as instances of \<open>codec\<close>.
  \<^item> \<open>Block_Store\<close> (\<open>disk.cpp\<close>, class \<open>Block\<close>): the device and the heap of block objects. A write may fail or
    be short, as the list \<open>dk_faults\<close> of the device says; a device with an empty list is called sound. The
    invariants of the cache and of the file system contain that the device is sound, and so all
    theorems that start from them speak of sound devices.
  \<^item> \<open>Block_Group\<close> (\<open>SuperBlock\<close>, \<open>BitmapBlock\<close>, \<open>InodeTableBlock\<close>, \<open>BlockGroup\<close>): the locale \<open>allocator\<close> of
    numbers that are handed out and freed, interpreted on the blocks of a group, and its extension
    \<open>kind_allocator\<close>, interpreted on the inodes with their directories; the counts of the descriptor
    are exact.
  \<^item> \<open>Dentry_Block\<close> (\<open>DentryBlock\<close>): the entries of a directory block.
  \<^item> \<open>Block_Cache\<close> (\<open>BlockCache\<close>): the doubly linked list refines a list in order of use.
  \<^item> \<open>Write_Back\<close>: what the cache promises about the contents of blocks, as the locale \<open>write_back\<close>
    interpreted on the operations of the cache; flushing is durable for dirty blocks and for blocks that
    were written before, and flushing one inode is not.
  \<^item> \<open>Dentry_Cache\<close> (\<open>DentryCache\<close>): the tree of circular lists.
  \<^item> \<open>Fs_Core\<close>, \<open>Fs_Blocks\<close>, \<open>Fs_Dir\<close> (\<open>FileSystem\<close>): inodes, blocks and groups; the block map of an
    inode and its visits; directories.
  \<^item> \<open>Group_Reload\<close>: a flushed block group read again from the device, and the overlap of its inode
    table with its first data block.
  \<^item> \<open>Fs_Coherence\<close>: the invariant \<open>fs_ok\<close> that ties the groups, the block cache and the device
    together, the content \<open>fs_content\<close> of a block, and that \<open>get_block\<close> refines an array of blocks.
  \<^item> \<open>Fs_Alloc\<close>: \<open>alloc_block\<close> and \<open>free_block\<close> on that invariant, and that a new block is not durable. Its
    set \<open>F\<close> of fresh blocks, those allocated and not yet written, is exempt from what is said of contents.
  \<^item> \<open>Block_Map\<close>, \<open>Map_Grow\<close>: the block map of an inode as a partial function from block numbers of the
    file to blocks, the invariant \<open>mapped\<close> (all blocks of the map are allocated and different), and that
    \<open>alloc_block\<close> of an inode appends one block below the triple indirect level.
  \<^item> \<open>File_Seek\<close>: the three ways a handle moves (\<open>bf_seek\<close>, \<open>seek\<close>, \<open>next_block\<close>) agree with the block map, up
    to the double indirect level (no inode of the model has more than 491520 blocks).
  \<^item> \<open>File_Data\<close>, \<open>File_Append\<close>: the bytes of a file, what \<open>copy_to_buf\<close> returns, and that \<open>write\<close> stores
    its buffer inside the file and past its end without touching any other file.
  \<^item> \<open>File_Gap\<close>: writes that start beyond the end of the file; the loop that fills the gap ends, and two
    cases in which such a write goes wrong.
  \<^item> \<open>File_Status\<close> (\<open>FileStatus\<close>): seeking, reading and writing an open file.
  \<^item> \<open>Fuse_Ops\<close> (\<open>InodeCache\<close>, \<open>OpManager\<close>, the handlers).
  \<^item> \<open>Open_Files\<close>: the invariant \<open>op_inv\<close> of cached inodes and open files (the reference count of a cached
    inode is the number of its open files and of the references a running handler holds), the locale
    \<open>counted_refs\<close> of reference counted objects, and that every handler keeps the invariant.
  \<^item> \<open>Fs_Mount\<close>: \<open>init\<close> on a blank device gives a file system that satisfies \<open>fs_ok\<close>.
  \<^item> \<open>Fuse_Serve\<close> (the table of handlers in \<open>main.cpp\<close>): requests and replies, the states reached by any
    sequence of requests after mounting, and what holds in all of them.
  \<^item> \<open>File_Serve\<close>: requests that read and write through any handles of the open files; the files behave as
    byte arrays (\<open>open_files_are_arrays\<close>), except for reads that run past the end from the last block and for writes
    that start beyond the end, where \<open>File_Append\<close> and \<open>File_Gap\<close> show what happens instead.
  \<^item> \<open>FS_List\<close> (\<open>FSList\<close>): the doubly linked list of the open files of an inode, which implements the list
    of addresses that \<open>Fuse_Ops\<close> works with.
  \<^item> \<open>Locks\<close>: the lock operations of the handlers, threads that interleave them, the locale
    \<open>lock_discipline\<close> of threads that take locks in the order of their ranks, and that the handlers
    follow it: they finish, and only \<open>read\<close> and \<open>write\<close> run side by side.
  \<^item> \<open>Logging\<close> (\<open>utils/logging.cpp\<close>): which messages reach the log.

  \<^bold>\<open>Bounds and fuel.\<close> The loops over circular lists of the directory-entry cache run on fuel one larger
  than the number of allocated nodes, more than the nodes of any ring. The recursion of \<open>inode_delete\<close>
  over directories has fuel \<open>DELETE_FUEL\<close>, one more than the number of inode numbers, hence more than
  the depth of any tree of directories; a cyclic tree would not return. The loop of \<open>write\<close> that fills a
  gap is a \<open>partial_function\<close>: past 4 GiB it does not end.

  \<^bold>\<open>Not modelled.\<close> What \<open>read\<close> and \<open>write\<close> do to shared data when they run side by side: in the model of the
  data a handler runs to completion before the next one starts. Calls of the logging macros inside the
  other components, command line options, opening and closing the device file, failing reads of the
  device and failing memory allocation, prototypes without a body, and the test programs.
\<close>

end
